(* ===== verification/Smart_Prelude.thy ===== *)
theory Smart_Prelude
  imports Main "HOL-Library.Word" "HOL-Library.Multiset"
begin

text \<open>
  Shared vocabulary of the development: the machine types of the C++ sources, undefined
  behaviour as a value, raw memory blocks with the bounds-checked \<open>memcpy\<close>/\<open>memmove\<close>
  that every component uses, the lemmas on words and lists the components share, and the
  generic contract of a component whose operations keep an invariant.
\<close>

section \<open>Machine types\<close>

type_synonym uint16 = "16 word"
type_synonym uint32 = "32 word"
type_synonym uint64 = "64 word"
type_synonym size_t = "64 word"
type_synonym byte = "8 word"

named_theorems word_nat "facts that move machine words to natural numbers"
named_theorems res_simps "evaluation of computations that may hit undefined behaviour"

section \<open>Undefined behaviour as a value\<close>

text \<open>
  A C++ operation that may leave the defined semantics returns \<open>Inl u\<close> with the reason;
  \<open>Inr\<close> carries the ordinary result. A theorem that an operation returns \<open>Inr\<close> is a
  memory-safety theorem.
\<close>

datatype ub =
    OutOfBounds      \<comment> \<open>access outside the allocated object\<close>
  | DivideByZero     \<comment> \<open>the C++ remainder by zero\<close>
  | UninitRead       \<comment> \<open>use of an indeterminate value\<close>
  | NullDeref        \<comment> \<open>access through a null pointer\<close>
  | OverlapCopy      \<comment> \<open>\<open>memcpy\<close> between overlapping ranges\<close>
  | StaleContext     \<comment> \<open>jump to a context whose owner is running\<close>
  | UseAfterFree     \<comment> \<open>access to a deleted object\<close>
  | SignedOverflow   \<comment> \<open>signed arithmetic outside the range of its type\<close>
  | NoProgress       \<comment> \<open>a loop that never ends and does nothing\<close>

type_synonym 'a res = "ub + 'a"

definition bind_res :: "'a res \<Rightarrow> ('a \<Rightarrow> 'b res) \<Rightarrow> 'b res" where
  "bind_res r f = (case r of Inl u \<Rightarrow> Inl u | Inr x \<Rightarrow> f x)"

lemma bind_res_simps [simp, res_simps]:
  "bind_res (Inl u) f = Inl u"
  "bind_res (Inr x) f = f x"
  by (simp_all add: bind_res_def)

lemma bind_res_Inr_iff [res_simps]:
  "bind_res r f = Inr y \<longleftrightarrow> (\<exists>x. r = Inr x \<and> f x = Inr y)"
  by (cases r) simp_all

text \<open>A run that was evaluated to a case distinction gave a result.\<close>

lemma run_someD: "case r of Some (Inr q) \<Rightarrow> P q | _ \<Rightarrow> False \<Longrightarrow> \<exists>q. r = Some (Inr q) \<and> P q"
  by (auto split: option.splits sum.splits)

lemma res_rightD: "case r of Inl u \<Rightarrow> False | Inr q \<Rightarrow> P q \<Longrightarrow> \<exists>q. r = Inr q \<and> P q"
  by (auto split: sum.splits)

lemma bind_res_assoc: "bind_res (bind_res r f) g = bind_res r (\<lambda>x. bind_res (f x) g)"
  by (cases r) simp_all

section \<open>Raw memory blocks\<close>

text \<open>
  A block is what one \<open>malloc\<close> returns: its bytes, \<open>None\<close> where indeterminate. Its
  length is the size that was really allocated, which the fields of a C++ object need not
  agree with.
\<close>

type_synonym block = "byte option list"

definition malloc :: "bool \<Rightarrow> nat \<Rightarrow> block option" where
  "malloc ok n = (if ok then Some (replicate n None) else None)"

text \<open>Reading \<open>n\<close> cells at \<open>off\<close>, writing \<open>xs\<close> at \<open>off\<close>.\<close>

definition mem_read :: "'a list \<Rightarrow> nat \<Rightarrow> nat \<Rightarrow> 'a list res" where
  "mem_read b off n = (if off + n \<le> length b then Inr (take n (drop off b)) else Inl OutOfBounds)"

definition mem_write :: "'a list \<Rightarrow> nat \<Rightarrow> 'a list \<Rightarrow> 'a list res" where
  "mem_write b off xs =
     (if off + length xs \<le> length b
      then Inr (take off b @ xs @ drop (off + length xs) b) else Inl OutOfBounds)"

lemma mem_read_Inr [simp]:
  "mem_read b off n = Inr xs \<longleftrightarrow> off + n \<le> length b \<and> xs = take n (drop off b)"
  by (auto simp: mem_read_def)

lemma mem_write_Inr [simp]:
  "mem_write b off xs = Inr b' \<longleftrightarrow>
     off + length xs \<le> length b \<and> b' = take off b @ xs @ drop (off + length xs) b"
  by (auto simp: mem_write_def)

lemma mem_write_length: "mem_write b off xs = Inr b' \<Longrightarrow> length b' = length b"
  by auto

lemma mem_read_ok [res_simps]: "off + n \<le> length b \<Longrightarrow> mem_read b off n = Inr (take n (drop off b))"
  by (simp add: mem_read_def)

lemma mem_write_ok [res_simps]:
  "off + length xs \<le> length b \<Longrightarrow>
     mem_write b off xs = Inr (take off b @ xs @ drop (off + length xs) b)"
  by (simp add: mem_write_def)

section \<open>Machine words\<close>

lemma unat_plus_lt [word_nat]:
  fixes a b :: "'a::len word"
  shows "unat a + unat b < 2 ^ LENGTH('a) \<Longrightarrow> unat (a + b) = unat a + unat b"
  by (simp add: unat_word_ariths)

lemma unat_minus_le [word_nat]:
  fixes a b :: "'a::len word"
  shows "b \<le> a \<Longrightarrow> unat (a - b) = unat a - unat b"
  by (rule unat_sub)

lemma unat_inc_less [word_nat]:
  fixes a b :: "'a::len word"
  assumes "a < b"
  shows "unat (a + 1) = Suc (unat a)"
proof -
  have "unat a < unat b" using assms by (simp add: word_less_nat_alt)
  moreover have "unat b < 2 ^ LENGTH('a)" by simp
  ultimately have "Suc (unat a) < 2 ^ LENGTH('a)" by linarith
  then show ?thesis
    by (simp add: unat_word_ariths)
qed

lemma word_less_unat: "(a::'a::len word) < b \<longleftrightarrow> unat a < unat b"
  by (rule word_less_nat_alt)

lemma word_le_unat: "(a::'a::len word) \<le> b \<longleftrightarrow> unat a \<le> unat b"
  by (rule word_le_nat_alt)

lemma word_eq_unat: "(a::'a::len word) = b \<longleftrightarrow> unat a = unat b"
  by (rule word_unat_eq_iff)

lemmas word_cmp_nat = word_less_unat word_le_unat word_eq_unat

text \<open>Rounding down to a multiple of a power of two, as the sources do with a bit mask.\<close>

unbundle bit_operations_syntax

lemma unat_and_not_mask:
  fixes x :: "'a::len word"
  shows "unat (x AND NOT (mask k)) = unat x - unat x mod 2 ^ k"
proof -
  have "(x AND NOT (mask k)) AND take_bit k x = 0" by (auto simp: bit_eq_iff bit_simps)
  then have "(x AND NOT (mask k)) + take_bit k x = (x AND NOT (mask k)) OR take_bit k x"
    by (rule disjunctive_add_eq_or)
  also have "\<dots> = x" by (auto simp: bit_eq_iff bit_simps)
  finally have "x AND NOT (mask k) = x - take_bit k x" by (metis add_diff_cancel_right')
  moreover have t: "unat (take_bit k x) = unat x mod 2 ^ k"
    by (simp add: unsigned_take_bit_eq take_bit_nat_def)
  moreover have "take_bit k x \<le> x" by (simp add: word_le_unat t)
  ultimately show ?thesis by (simp add: unat_minus_le)
qed

section \<open>A component that keeps an invariant\<close>

text \<open>
  The contract shared by the stateful components: a set of initial states, a step relation
  and an invariant that the initial states satisfy and every step keeps. The invariant then
  holds in every state the component can reach.
\<close>

inductive reaches :: "('s \<Rightarrow> bool) \<Rightarrow> ('s \<Rightarrow> 's \<Rightarrow> bool) \<Rightarrow> 's \<Rightarrow> bool"
  for init :: "'s \<Rightarrow> bool" and step :: "'s \<Rightarrow> 's \<Rightarrow> bool" where
  start: "init s \<Longrightarrow> reaches init step s"
| next_state: "reaches init step s \<Longrightarrow> step s t \<Longrightarrow> reaches init step t"

locale inv_system =
  fixes init :: "'s \<Rightarrow> bool" and step :: "'s \<Rightarrow> 's \<Rightarrow> bool" and inv :: "'s \<Rightarrow> bool"
  assumes init_inv: "init s \<Longrightarrow> inv s"
    and step_inv: "inv s \<Longrightarrow> step s t \<Longrightarrow> inv t"
begin

lemma reaches_inv: "reaches init step s \<Longrightarrow> inv s"
  by (induction rule: reaches.induct) (auto intro: init_inv step_inv)

lemma rtranclp_inv: "step\<^sup>*\<^sup>* s t \<Longrightarrow> inv s \<Longrightarrow> inv t"
  by (induction rule: rtranclp_induct) (auto intro: step_inv)

end

end
