(* ===== verification/Smart_Flags.thy ===== *)
theory Smart_Flags
  imports Smart_Prelude
begin

text \<open>
  The command-line flags (\<open>gflags\<close>) the components read at run time, with the defaults the
  sources give them. Every operation that reads a flag takes the record as an argument, so a
  theorem holds for every setting its hypotheses allow.
\<close>

record flags =
  FLAGS_stack_size :: uint64
  FLAGS_task_queue_length :: uint64
  FLAGS_acquire_tasks_batch_size :: uint64
  FLAGS_runtime_threads_num :: uint64
  FLAGS_evlist_size :: int
  FLAGS_max_dynamic_buffer_size :: uint64
  FLAGS_initial_dynamic_buffer_size :: uint64
  FLAGS_move_forward_threshold :: uint64

text \<open>The defaults, by the file that defines the flag.\<close>

definition coro_flags :: "flags \<Rightarrow> flags" where
  [simp]: "coro_flags fl = fl\<lparr>FLAGS_stack_size := 128 * 1024\<rparr>"

definition thread_flags :: "flags \<Rightarrow> flags" where
  [simp]: "thread_flags fl = fl\<lparr>FLAGS_task_queue_length := 25, FLAGS_acquire_tasks_batch_size := 10\<rparr>"

definition runtime_flags :: "flags \<Rightarrow> flags" where
  [simp]: "runtime_flags fl = fl\<lparr>FLAGS_runtime_threads_num := 0\<rparr>"

definition epoller_flags :: "flags \<Rightarrow> flags" where
  [simp]: "epoller_flags fl = fl\<lparr>FLAGS_evlist_size := 10000\<rparr>"

definition buffer_flags :: "flags \<Rightarrow> flags" where
  [simp]: "buffer_flags fl = fl\<lparr>FLAGS_max_dynamic_buffer_size := 1024 * 1024 * 64,
     FLAGS_initial_dynamic_buffer_size := 1024, FLAGS_move_forward_threshold := 1024 * 1024\<rparr>"

definition no_flags :: flags where
  [simp]: "no_flags = \<lparr>FLAGS_stack_size = 0, FLAGS_task_queue_length = 0, FLAGS_acquire_tasks_batch_size = 0,
     FLAGS_runtime_threads_num = 0, FLAGS_evlist_size = 0, FLAGS_max_dynamic_buffer_size = 0,
     FLAGS_initial_dynamic_buffer_size = 0, FLAGS_move_forward_threshold = 0\<rparr>"

definition default_flags :: flags where
  "default_flags = coro_flags (thread_flags (runtime_flags (epoller_flags (buffer_flags no_flags))))"

end
