(* ===== verification/Bounded_Queue.thy ===== *)
theory Bounded_Queue
  imports Smart_Prelude
begin

text \<open>
  The ring buffer of \<open>include/common/bounded_queue.h\<close>: its fields and operations, with the
  accesses outside the array and the remainder by zero as undefined behaviour; the interface
  of a bounded first-in first-out queue as a locale; and the proof that the ring buffer
  implements it for every capacity a \<open>uint32_t\<close> can hold.
\<close>

section \<open>The ring buffer\<close>

record 'a bounded_queue =
  bq_data :: "'a option list"
  bq_capacity :: uint32
  bq_head :: uint32
  bq_tail :: uint32
  bq_is_empty :: bool

definition bq_new :: "uint32 \<Rightarrow> 'a bounded_queue" where
  "bq_new capacity =
     \<lparr>bq_data = replicate (unat capacity) None, bq_capacity = capacity,
      bq_head = 0, bq_tail = 0, bq_is_empty = True\<rparr>"

definition bq_empty :: "'a bounded_queue \<Rightarrow> bool" where
  "bq_empty q = bq_is_empty q"

definition bq_full :: "'a bounded_queue \<Rightarrow> bool" where
  "bq_full q \<longleftrightarrow> bq_tail q = bq_head q \<and> \<not> bq_is_empty q"

definition bq_push :: "'a bounded_queue \<Rightarrow> 'a \<Rightarrow> (bool \<times> 'a bounded_queue) res" where
  "bq_push q value =
     (if bq_full q then Inr (False, q)
      else bind_res (mem_write (bq_data q) (unat (bq_tail q)) [Some value]) (\<lambda>d.
        let t = bq_tail q + 1 in
        if bq_capacity q = 0 then Inl DivideByZero
        else Inr (True, q\<lparr>bq_data := d, bq_tail := t mod bq_capacity q, bq_is_empty := False\<rparr>)))"

definition bq_front :: "'a bounded_queue \<Rightarrow> 'a res" where
  "bq_front q =
     bind_res (mem_read (bq_data q) (unat (bq_head q)) 1) (\<lambda>xs.
       case xs of [Some v] \<Rightarrow> Inr v | _ \<Rightarrow> Inl UninitRead)"

definition bq_pop :: "'a bounded_queue \<Rightarrow> (bool \<times> 'a bounded_queue) res" where
  "bq_pop q =
     (let h = bq_head q + 1 in
      if bq_capacity q = 0 then Inl DivideByZero
      else let q' = q\<lparr>bq_head := h mod bq_capacity q\<rparr> in
        Inr (True, if bq_tail q' = bq_head q' then q'\<lparr>bq_is_empty := True\<rparr> else q'))"


section \<open>The interface of a bounded queue\<close>

text \<open>The loop that pushes a batch of elements and ignores what \<open>push\<close> answers.\<close>

fun push_all :: "('q \<Rightarrow> 'a \<Rightarrow> (bool \<times> 'q) res) \<Rightarrow> 'q \<Rightarrow> 'a list \<Rightarrow> 'q res" where
  "push_all push q [] = Inr q"
| "push_all push q (x # xs) = bind_res (push q x) (\<lambda>(_, q'). push_all push q' xs)"

text \<open>
  What a client may rely on: a queue holds a list of at most \<open>cap\<close> elements, \<open>push\<close>
  appends or refuses, \<open>front\<close> and \<open>pop\<close> work on the head of a queue that is not
  empty, and none of these leaves the defined semantics.
\<close>

locale bounded_fifo =
  fixes new :: "uint32 \<Rightarrow> 'q"
    and push :: "'q \<Rightarrow> 'a \<Rightarrow> (bool \<times> 'q) res"
    and front :: "'q \<Rightarrow> 'a res"
    and pop :: "'q \<Rightarrow> (bool \<times> 'q) res"
    and is_empty :: "'q \<Rightarrow> bool"
    and is_full :: "'q \<Rightarrow> bool"
    and contents :: "'q \<Rightarrow> 'a list"
    and cap :: "'q \<Rightarrow> nat"
    and invar :: "'q \<Rightarrow> bool"
  assumes new_ok: "c \<noteq> 0 \<Longrightarrow> invar (new c) \<and> contents (new c) = [] \<and> cap (new c) = unat c"
    and bounded: "invar q \<Longrightarrow> length (contents q) \<le> cap q"
    and empty_iff: "invar q \<Longrightarrow> is_empty q \<longleftrightarrow> contents q = []"
    and full_iff: "invar q \<Longrightarrow> is_full q \<longleftrightarrow> length (contents q) = cap q"
    and push_full: "invar q \<Longrightarrow> length (contents q) = cap q \<Longrightarrow> push q x = Inr (False, q)"
    and push_ok: "invar q \<Longrightarrow> length (contents q) < cap q \<Longrightarrow>
      \<exists>q'. push q x = Inr (True, q') \<and> invar q' \<and> contents q' = contents q @ [x] \<and> cap q' = cap q"
    and front_ok: "invar q \<Longrightarrow> contents q = x # xs \<Longrightarrow> front q = Inr x"
    and pop_ok: "invar q \<Longrightarrow> contents q = x # xs \<Longrightarrow>
      \<exists>q'. pop q = Inr (True, q') \<and> invar q' \<and> contents q' = xs \<and> cap q' = cap q"
begin

lemma push_cases [consumes 1]:
  assumes "invar q"
  obtains (pushed) q' where "push q x = Inr (True, q')" "invar q'"
      "contents q' = contents q @ [x]" "cap q' = cap q" "length (contents q) < cap q"
    | (refused) "push q x = Inr (False, q)" "length (contents q) = cap q"
  using push_full [OF assms] push_ok [OF assms] bounded [OF assms] le_neq_implies_less by blast

lemma push_all_contents:
  assumes "invar q"
  shows "\<exists>q'. push_all push q xs = Inr q' \<and> invar q' \<and> cap q' = cap q \<and>
    contents q' = contents q @ take (cap q - length (contents q)) xs"
  using assms
proof (induction xs arbitrary: q)
  case Nil
  then show ?case by simp
next
  case (Cons x xs)
  from Cons.prems show ?case
  proof (cases rule: push_cases [where x = x, case_names pushed refused])
    case (pushed q')
    then obtain q'' where q'': "push_all push q' xs = Inr q''" "invar q''" "cap q'' = cap q"
        "contents q'' = contents q' @ take (cap q - length (contents q')) xs"
      using Cons.IH by metis
    obtain k where "cap q - length (contents q) = Suc k"
      using pushed(5) by (metis Suc_diff_Suc)
    moreover from this have "cap q - Suc (length (contents q)) = k" by simp
    ultimately show ?thesis using pushed q'' by simp
  next
    case refused
    with Cons.IH [OF Cons.prems] show ?thesis by simp
  qed
qed

lemma push_all_fits:
  assumes "invar q" "length (contents q) + length xs \<le> cap q"
  shows "\<exists>q'. push_all push q xs = Inr q' \<and> invar q' \<and> cap q' = cap q \<and> contents q' = contents q @ xs"
  using push_all_contents [OF assms(1), of xs] assms(2) by (simp add: le_diff_conv2)

end

section \<open>Clients of a queue\<close>

text \<open>
  A client pushes, or takes the head after asking \<open>empty()\<close>, as \<open>SmartThread\<close> does.
  The same sequence of operations on the specification, a list with a bound.
\<close>

datatype 'a queue_op = Push 'a | Take

datatype 'a queue_out = Pushed bool | Got "'a option"

fun run_queue ::
  "('q \<Rightarrow> 'a \<Rightarrow> (bool \<times> 'q) res) \<Rightarrow> ('q \<Rightarrow> 'a res) \<Rightarrow> ('q \<Rightarrow> (bool \<times> 'q) res) \<Rightarrow>
   ('q \<Rightarrow> bool) \<Rightarrow> 'q \<Rightarrow> 'a queue_op list \<Rightarrow> ('a queue_out list \<times> 'q) res" where
  "run_queue push front pop is_empty q [] = Inr ([], q)"
| "run_queue push front pop is_empty q (Push x # ops) =
     bind_res (push q x) (\<lambda>(b, q').
     bind_res (run_queue push front pop is_empty q' ops) (\<lambda>(outs, q'').
     Inr (Pushed b # outs, q'')))"
| "run_queue push front pop is_empty q (Take # ops) =
     (if is_empty q
      then bind_res (run_queue push front pop is_empty q ops) (\<lambda>(outs, q''). Inr (Got None # outs, q''))
      else bind_res (front q) (\<lambda>x. bind_res (pop q) (\<lambda>(_, q').
        bind_res (run_queue push front pop is_empty q' ops) (\<lambda>(outs, q'').
        Inr (Got (Some x) # outs, q'')))))"

fun run_fifo :: "nat \<Rightarrow> 'a list \<Rightarrow> 'a queue_op list \<Rightarrow> 'a queue_out list \<times> 'a list" where
  "run_fifo n xs [] = ([], xs)"
| "run_fifo n xs (Push x # ops) =
     (let xs' = (if length xs < n then xs @ [x] else xs); (outs, ys) = run_fifo n xs' ops
      in (Pushed (length xs < n) # outs, ys))"
| "run_fifo n xs (Take # ops) =
     (let (outs, ys) = run_fifo n (tl xs) ops
      in (Got (case xs of [] \<Rightarrow> None | x # _ \<Rightarrow> Some x) # outs, ys))"

context bounded_fifo
begin

lemma run_queue_refines:
  assumes "invar q"
  shows "\<exists>q'. run_queue push front pop is_empty q ops =
      Inr (fst (run_fifo (cap q) (contents q) ops), q') \<and>
    invar q' \<and> cap q' = cap q \<and> contents q' = snd (run_fifo (cap q) (contents q) ops)"
  using assms
proof (induction ops arbitrary: q)
  case Nil
  then show ?case by simp
next
  case (Cons op ops)
  show ?case
  proof (cases op)
    case (Push x)
    from Cons.prems show ?thesis
    proof (cases rule: push_cases [where x = x, case_names pushed refused])
      case (pushed q')
      with Cons.IH [of q'] Push show ?thesis by (auto simp: Let_def split: prod.splits)
    next
      case refused
      with Cons.IH [OF Cons.prems] Push show ?thesis by (auto simp: Let_def split: prod.splits)
    qed
  next
    case Take
    show ?thesis
    proof (cases "contents q")
      case Nil
      with Take Cons.IH [OF Cons.prems] Cons.prems show ?thesis
        by (auto simp: empty_iff Let_def split: prod.splits)
    next
      case C: (Cons x xs)
      obtain q' where "pop q = Inr (True, q')" "invar q'" "contents q' = xs" "cap q' = cap q"
        using pop_ok [OF Cons.prems C] by blast
      with Take Cons.IH [of q'] Cons.prems C front_ok [OF Cons.prems C] show ?thesis
        by (auto simp: empty_iff Let_def split: prod.splits)
    qed
  qed
qed

end

section \<open>The ring buffer implements the interface\<close>

definition bq_size :: "'a bounded_queue \<Rightarrow> nat" where
  "bq_size q =
     (if bq_is_empty q then 0
      else if bq_head q < bq_tail q then unat (bq_tail q) - unat (bq_head q)
      else unat (bq_capacity q) - unat (bq_head q) + unat (bq_tail q))"

definition bq_slot :: "'a bounded_queue \<Rightarrow> nat \<Rightarrow> 'a option" where
  "bq_slot q i = bq_data q ! ((unat (bq_head q) + i) mod unat (bq_capacity q))"

definition bq_list :: "'a bounded_queue \<Rightarrow> 'a list" where
  "bq_list q = map (\<lambda>i. the (bq_slot q i)) [0..<bq_size q]"

definition bq_inv :: "'a bounded_queue \<Rightarrow> bool" where
  "bq_inv q \<longleftrightarrow>
     length (bq_data q) = unat (bq_capacity q) \<and>
     bq_head q < bq_capacity q \<and> bq_tail q < bq_capacity q \<and>
     (bq_is_empty q \<longrightarrow> bq_head q = bq_tail q) \<and>
     (\<forall>i < bq_size q. bq_slot q i \<noteq> None)"

abbreviation bq_cap :: "'a bounded_queue \<Rightarrow> nat" where
  "bq_cap q \<equiv> unat (bq_capacity q)"

text \<open>Positions of the ring: offsets below the capacity address different slots.\<close>

lemma ring_inj_le:
  assumes "i \<le> j" "j < n" "(h + i) mod n = (h + j) mod (n::nat)"
  shows "i = j"
proof -
  have "n dvd (h + j) - (h + i)"
    using assms by (subst mod_eq_dvd_iff_nat [symmetric]) simp_all
  then have "n dvd j - i" by simp
  moreover have "j - i < n" using assms(2) by simp
  ultimately show ?thesis
    using assms(1) by (metis dvd_imp_le le_antisym diff_is_0_eq gr0I not_le)
qed

lemma ring_inj:
  assumes "i < n" "j < n" "(h + i) mod n = (h + j) mod (n::nat)"
  shows "i = j"
  using ring_inj_le [of i j n h] ring_inj_le [of j i n h] assms by (cases "i \<le> j") auto

lemma ring_succ: "t < n \<Longrightarrow> Suc t mod n = (if Suc t = n then 0 else Suc (t::nat))"
  by auto


lemma bq_inv_nat:
  assumes "bq_inv q"
  shows "unat (bq_head q) < bq_cap q" "unat (bq_tail q) < bq_cap q" "0 < bq_cap q"
    "bq_capacity q \<noteq> 0" "length (bq_data q) = bq_cap q"
  using assms by (auto simp: bq_inv_def word_less_unat)

lemma bq_size_le: "bq_inv q \<Longrightarrow> bq_size q \<le> bq_cap q"
  using bq_inv_nat [of q] by (auto simp: bq_size_def word_less_unat)

lemma bq_tail_size:
  assumes "bq_inv q"
  shows "unat (bq_tail q) = (unat (bq_head q) + bq_size q) mod bq_cap q"
proof -
  note n = bq_inv_nat [OF assms]
  have e: "bq_is_empty q \<Longrightarrow> bq_head q = bq_tail q" using assms by (simp add: bq_inv_def)
  show ?thesis
  proof (cases "bq_head q < bq_tail q \<or> bq_is_empty q")
    case True
    then show ?thesis using n e by (auto simp: bq_size_def word_less_unat)
  next
    case False
    then have "unat (bq_head q) + bq_size q = unat (bq_tail q) + bq_cap q"
      using n by (simp add: bq_size_def)
    then show ?thesis using n by simp
  qed
qed

lemma bq_size_zero: "bq_inv q \<Longrightarrow> bq_size q = 0 \<longleftrightarrow> bq_is_empty q"
  using bq_inv_nat [of q] by (auto simp: bq_size_def word_less_unat)

lemma bq_size_full: "bq_inv q \<Longrightarrow> bq_size q = bq_cap q \<longleftrightarrow> bq_full q"
  using bq_inv_nat [of q] by (auto simp: bq_size_def bq_full_def word_cmp_nat)

lemma bq_list_length [simp]: "length (bq_list q) = bq_size q"
  by (simp add: bq_list_def)

lemma bq_next_index:
  assumes "bq_inv q" "a < bq_capacity q"
  shows "unat ((a + 1) mod bq_capacity q) = Suc (unat a) mod bq_cap q"
  using assms by (simp add: unat_mod unat_inc_less)

text \<open>One push on a queue that is not full: the written slot is the one after the last.\<close>

definition bq_pushed :: "'a bounded_queue \<Rightarrow> 'a \<Rightarrow> 'a bounded_queue" where
  "bq_pushed q x =
     q\<lparr>bq_data := (bq_data q)[unat (bq_tail q) := Some x],
       bq_tail := (bq_tail q + 1) mod bq_capacity q, bq_is_empty := False\<rparr>"

lemma bq_push_eq:
  assumes "bq_inv q" "\<not> bq_full q"
  shows "bq_push q x = Inr (True, bq_pushed q x)"
  using assms bq_inv_nat [OF assms(1)]
  by (simp add: bq_push_def mem_write_ok bq_pushed_def upd_conv_take_nth_drop Let_def)

lemma bq_pushed_size:
  assumes "bq_inv q" "\<not> bq_full q"
  shows "bq_size (bq_pushed q x) = Suc (bq_size q)"
proof -
  note n = bq_inv_nat [OF assms(1)]
  have t: "unat ((bq_tail q + 1) mod bq_capacity q) = Suc (unat (bq_tail q)) mod bq_cap q"
    by (rule bq_next_index) (use assms in \<open>auto simp: bq_inv_def\<close>)
  have e: "bq_is_empty q \<longrightarrow> bq_head q = bq_tail q" using assms by (simp add: bq_inv_def)
  show ?thesis
    using n t e assms(2)
    by (auto simp: bq_size_def bq_pushed_def bq_full_def word_cmp_nat ring_succ)
qed

lemma bq_pushed_slot:
  assumes "bq_inv q" "\<not> bq_full q" "i \<le> bq_size q"
  shows "bq_slot (bq_pushed q x) i = (if i = bq_size q then Some x else bq_slot q i)"
proof -
  note n = bq_inv_nat [OF assms(1)]
  have lt: "bq_size q < bq_cap q"
    using bq_size_le [OF assms(1)] bq_size_full [OF assms(1)] assms(2) by auto
  have "i \<noteq> bq_size q \<Longrightarrow> (unat (bq_head q) + i) mod bq_cap q \<noteq> unat (bq_tail q)"
    unfolding bq_tail_size [OF assms(1)]
    using ring_inj [of i "bq_cap q" "bq_size q" "unat (bq_head q)"] lt assms(3) by auto
  moreover have "(unat (bq_head q) + bq_size q) mod bq_cap q = unat (bq_tail q)"
    by (rule bq_tail_size [OF assms(1), symmetric])
  ultimately show ?thesis
    using n by (auto simp: bq_slot_def bq_pushed_def)
qed

lemma bq_pushed_inv:
  assumes "bq_inv q" "\<not> bq_full q"
  shows "bq_inv (bq_pushed q x)"
proof -
  have "bq_capacity q \<noteq> 0" using bq_inv_nat [OF assms(1)] by simp
  then have "(bq_tail q + 1) mod bq_capacity q < bq_capacity q"
    by (simp add: word_mod_less_divisor word_neq_0_conv)
  moreover have "\<forall>i < Suc (bq_size q). bq_slot (bq_pushed q x) i \<noteq> None"
    using assms bq_pushed_slot [OF assms] by (auto simp: less_Suc_eq_le bq_inv_def)
  ultimately show ?thesis
    using assms(1) bq_pushed_size [OF assms, of x]
    by (simp add: bq_inv_def) (simp add: bq_pushed_def)
qed

lemma bq_pushed_list:
  assumes "bq_inv q" "\<not> bq_full q"
  shows "bq_list (bq_pushed q x) = bq_list q @ [x]"
  using bq_pushed_slot [OF assms] by (simp add: bq_list_def bq_pushed_size [OF assms])

text \<open>One pop on a queue that is not empty: every slot moves one place to the front.\<close>

definition bq_popped :: "'a bounded_queue \<Rightarrow> 'a bounded_queue" where
  "bq_popped q =
     (let h = (bq_head q + 1) mod bq_capacity q
      in q\<lparr>bq_head := h, bq_is_empty := bq_is_empty q \<or> bq_tail q = h\<rparr>)"

lemma bq_pop_eq: "bq_inv q \<Longrightarrow> bq_pop q = Inr (True, bq_popped q)"
  using bq_inv_nat(4) [of q] by (simp add: bq_pop_def bq_popped_def Let_def)

lemma bq_popped_size:
  assumes "bq_inv q" "\<not> bq_is_empty q"
  shows "bq_size (bq_popped q) = bq_size q - 1"
proof -
  note n = bq_inv_nat [OF assms(1)]
  have h: "unat ((bq_head q + 1) mod bq_capacity q) = Suc (unat (bq_head q)) mod bq_cap q"
    by (rule bq_next_index) (use assms in \<open>auto simp: bq_inv_def\<close>)
  show ?thesis
    using n h assms(2)
    by (auto simp: bq_size_def bq_popped_def Let_def word_cmp_nat ring_succ)
qed

lemma bq_popped_slot: "bq_inv q \<Longrightarrow> bq_slot (bq_popped q) i = bq_slot q (Suc i)"
  using bq_next_index [of q "bq_head q"]
  by (simp add: bq_slot_def bq_popped_def Let_def bq_inv_def mod_add_left_eq)

lemma bq_popped_inv:
  assumes "bq_inv q" "\<not> bq_is_empty q"
  shows "bq_inv (bq_popped q)"
proof -
  have "bq_capacity q \<noteq> 0" using bq_inv_nat [OF assms(1)] by simp
  then have "(bq_head q + 1) mod bq_capacity q < bq_capacity q"
    by (simp add: word_mod_less_divisor word_neq_0_conv)
  moreover have "\<forall>i < bq_size q - 1. bq_slot (bq_popped q) i \<noteq> None"
    using assms(1) by (simp add: bq_popped_slot bq_inv_def)
  ultimately show ?thesis
    using assms bq_popped_size [OF assms]
    by (simp add: bq_inv_def) (auto simp: bq_popped_def Let_def)
qed

lemma bq_popped_list:
  assumes "bq_inv q" "\<not> bq_is_empty q"
  shows "bq_list (bq_popped q) = tl (bq_list q)"
proof -
  have "bq_size q = Suc (bq_size q - 1)" using assms bq_size_zero [of q] by simp
  then have "[0..<bq_size q] = 0 # map Suc [0..<bq_size q - 1]"
    by (metis map_Suc_upt upt_conv_Cons zero_less_Suc)
  then show ?thesis
    using assms by (simp add: bq_list_def bq_popped_size bq_popped_slot o_def)
qed

lemma bq_front_eq:
  assumes "bq_inv q" "\<not> bq_is_empty q"
  shows "bq_front q = Inr (hd (bq_list q))"
proof -
  note n = bq_inv_nat [OF assms(1)]
  have pos: "0 < bq_size q" using assms bq_size_zero [of q] by simp
  then obtain v where v: "bq_slot q 0 = Some v" using assms by (auto simp: bq_inv_def)
  have "hd (bq_list q) = v" using pos v by (simp add: bq_list_def hd_map)
  moreover have "take 1 (drop (unat (bq_head q)) (bq_data q)) = [Some v]"
    using n v by (simp add: bq_slot_def take_Suc hd_drop_conv_nth)
  ultimately show ?thesis using n by (simp add: bq_front_def mem_read_ok)
qed

lemma bq_list_Cons: "bq_inv q \<Longrightarrow> bq_list q = x # xs \<Longrightarrow> \<not> bq_is_empty q"
  using bq_size_zero [of q] bq_list_length [of q] by auto

interpretation bq: bounded_fifo bq_new bq_push bq_front bq_pop bq_empty bq_full bq_list bq_cap bq_inv
proof (unfold_locales, goal_cases)
  case (1 c)
  then show ?case
    by (simp add: bq_inv_def bq_new_def bq_list_def bq_size_def word_neq_0_conv)
next
  case (2 q)
  then show ?case by (simp add: bq_size_le)
next
  case (3 q)
  then show ?case using bq_size_zero [of q] by (simp add: bq_empty_def flip: length_0_conv)
next
  case (4 q)
  then show ?case by (simp add: bq_size_full)
next
  case (5 q x)
  then show ?case by (simp add: bq_size_full bq_push_def)
next
  case (6 q x)
  then have "\<not> bq_full q" using bq_size_full [of q] by simp
  with 6 show ?case by (simp add: bq_push_eq bq_pushed_inv bq_pushed_list) (simp add: bq_pushed_def)
next
  case (7 q x xs)
  then have "\<not> bq_is_empty q" by (rule bq_list_Cons)
  with 7 show ?case by (simp add: bq_front_eq)
next
  case (8 q x xs)
  then have "\<not> bq_is_empty q" by (rule bq_list_Cons)
  with 8 show ?case by (simp add: bq_pop_eq bq_popped_inv bq_popped_list) (simp add: bq_popped_def Let_def)
qed


section \<open>Properties\<close>

text \<open>C25. For every non-zero capacity and every sequence of pushes and guarded takes, the ring
  buffer never leaves the defined semantics and answers exactly like a first-in first-out list
  bounded by the capacity: a push is refused exactly when the list is full, a take returns the
  oldest element, and the elements held at the end are the list's.\<close>

theorem bounded_queue_refines_fifo:
  fixes ops :: "'a queue_op list"
  assumes "c \<noteq> 0"
  shows "\<exists>q. run_queue bq_push bq_front bq_pop bq_empty (bq_new c) ops =
      Inr (fst (run_fifo (unat c) [] ops), q) \<and>
    bq_list q = snd (run_fifo (unat c) [] ops) \<and> bq_inv q"
proof -
  have "bq_inv (bq_new c :: 'a bounded_queue)" "bq_list (bq_new c :: 'a bounded_queue) = []"
    "bq_cap (bq_new c :: 'a bounded_queue) = unat c"
    using bq.new_ok [OF assms] by blast+
  then show ?thesis using bq.run_queue_refines [of "bq_new c" ops] by auto
qed

theorem bounded_queue_refines_fifo_witness:
  "(2::uint32) \<noteq> 0 \<and>
   (\<exists>q. run_queue bq_push bq_front bq_pop bq_empty (bq_new 2)
        [Push 10, Push 20, Push 30, Take, Push (40::nat), Take, Take, Take] =
      Inr ([Pushed True, Pushed True, Pushed False, Got (Some 10), Pushed True,
            Got (Some 20), Got (Some 40), Got None], q) \<and>
    bq_list q = [] \<and> bq_inv q)"
  using bounded_queue_refines_fifo
    [of 2 "[Push 10, Push 20, Push 30, Take, Push (40::nat), Take, Take, Take]"]
  by simp

text \<open>A queue built with capacity zero (the flag \<open>task_queue_length\<close> set to 0) is not
  an empty-forever queue: the first push passes the \<open>full()\<close> test and writes outside the
  zero-length array.\<close>

lemma bounded_queue_zero_capacity: "bq_push (bq_new 0) v = Inl OutOfBounds"
  by (simp add: bq_push_def bq_new_def bq_full_def mem_write_def)

text \<open>\<open>pop()\<close> has no guard: on an empty queue of capacity at least two it answers
  \<open>true\<close> and moves the head past the tail, after which one accepted push makes the queue
  report full and \<open>front()\<close> reads a slot that was never written.\<close>

lemma bounded_queue_pop_empty:
  fixes v :: 'a
  assumes "1 < c"
  shows "\<exists>q1 q2. bq_pop (bq_new c) = Inr (True, q1) \<and> bq_push q1 v = Inr (True, q2) \<and>
    bq_full q2 \<and> bq_front q2 = Inl UninitRead"
proof -
  have c: "c \<noteq> 0" "1 < unat c" using assms by (auto simp: word_less_unat)
  then have m: "(1::uint32) mod c = 1" by (simp add: word_eq_unat unat_mod)
  from c(2) obtain n where "unat c = Suc (Suc n)"
    by (elim less_natE) auto
  then have n: "replicate (unat c) None = None # None # replicate n (None :: 'a option)"
    by (simp only: replicate_Suc)
  let ?q1 = "(bq_new c)\<lparr>bq_head := 1\<rparr> :: 'a bounded_queue"
  let ?q2 = "?q1\<lparr>bq_data := Some v # None # replicate n None, bq_tail := 1, bq_is_empty := False\<rparr>"
  have "bq_pop (bq_new c) = Inr (True, ?q1)"
    using c(1) m by (simp add: bq_pop_def bq_new_def Let_def)
  moreover have "bq_push ?q1 v = Inr (True, ?q2)"
    unfolding bq_push_def bq_new_def bq_full_def n
    using c(1) m by (simp add: mem_write_def)
  moreover have "bq_full ?q2 \<and> bq_front ?q2 = Inl UninitRead"
    by (simp add: bq_full_def bq_front_def mem_read_def)
  ultimately show ?thesis by blast
qed

lemma bounded_queue_pop_empty_witness:
  "(1::uint32) < 4 \<and> (\<exists>q1 q2. bq_pop (bq_new 4) = Inr (True, q1) \<and>
    bq_push q1 (7::nat) = Inr (True, q2) \<and> bq_full q2 \<and> bq_front q2 = Inl UninitRead)"
  using bounded_queue_pop_empty [of 4 "7::nat"] by simp

end
