(* ===== verification/Smart_Runtime.thy ===== *)
theory Smart_Runtime
  imports Smart_Flags Bounded_Queue
begin

text \<open>
  The task lists of the scheduler: the process-wide list of \<open>src/smart_runtime.cpp\<close> and the
  per-thread ring buffer of \<open>src/smart_thread.cpp\<close>, with the operations that move
  coroutines between them, the start-up and the shut-down of the runtime.
\<close>

section \<open>The process-wide task list\<close>

type_synonym coro = nat  \<comment> \<open>the address of a \<open>SmartCoro\<close>\<close>

datatype pthread = Smart_pthread nat | Epoller_pthread | Timer_pthread

record smart_runtime =
  rt_threads_num :: uint32
  rt_task_list :: "coro list"
  rt_tids :: "pthread option list"       \<comment> \<open>\<open>tids_\<close>: \<open>None\<close> until created\<close>
  rt_epoller_tid :: "pthread option"
  rt_timer_tid :: "pthread option"

definition SmartRuntime_new :: smart_runtime where
  "SmartRuntime_new =
     \<lparr>rt_threads_num = 0, rt_task_list = [], rt_tids = [], rt_epoller_tid = None, rt_timer_tid = None\<rparr>"

definition rt_push_task :: "smart_runtime \<Rightarrow> coro \<Rightarrow> int \<times> smart_runtime" where
  "rt_push_task rt coro = (0, rt\<lparr>rt_task_list := rt_task_list rt @ [coro]\<rparr>)"

text \<open>
  \<open>get_tasks\<close>: the loop moves an iterator (here the rest of the list from the iterator on)
  while it is not at the end and the count is below the batch size; the range before the
  iterator is then spliced to the end of \<open>tasks\<close>.
\<close>

fun get_tasks_scan :: "'c list \<Rightarrow> uint32 \<Rightarrow> uint32 \<Rightarrow> 'c list \<times> uint32" where
  "get_tasks_scan [] i batch_size = ([], i)"
| "get_tasks_scan (x # iter) i batch_size =
     (if i < batch_size then get_tasks_scan iter (i + 1) batch_size else (x # iter, i))"

definition rt_get_tasks ::
  "smart_runtime \<Rightarrow> uint32 \<Rightarrow> coro list \<Rightarrow> int \<times> coro list \<times> smart_runtime" where
  "rt_get_tasks rt batch_size tasks =
     (let l = rt_task_list rt;
          (iter, i) = get_tasks_scan l 0 batch_size;
          moved = take (length l - length iter) l
      in (sint i, tasks @ moved, rt\<lparr>rt_task_list := iter\<rparr>))"

text \<open>The condition \<open>wait_on_task_list\<close> waits for.\<close>

definition rt_wait_ready :: "smart_runtime \<Rightarrow> bool" where
  "rt_wait_ready rt \<longleftrightarrow> rt_task_list rt \<noteq> []"

lemma get_tasks_scan_eq:
  "i \<le> batch_size \<Longrightarrow>
   get_tasks_scan l i batch_size =
     (drop (unat batch_size - unat i) l, i + of_nat (min (unat batch_size - unat i) (length l)))"
proof (induction l i batch_size rule: get_tasks_scan.induct)
  case (2 x iter i batch_size)
  show ?case
  proof (cases "i < batch_size")
    case True
    have i1: "unat (i + 1) = Suc (unat i)" using True by (rule unat_inc_less)
    have "unat batch_size - unat i = Suc (unat batch_size - Suc (unat i))"
      using True by (simp add: word_less_unat)
    moreover have "i + 1 \<le> batch_size" using True by (rule inc_le)
    ultimately show ?thesis
      using 2 True i1 by (simp add: add.assoc)
  next
    case False
    with 2 have "i = batch_size" by simp
    then show ?thesis by simp
  qed
qed simp

lemma rt_get_tasks_eq:
  "rt_get_tasks rt batch_size tasks =
     (sint (of_nat (min (unat batch_size) (length (rt_task_list rt))) :: uint32),
      tasks @ take (unat batch_size) (rt_task_list rt),
      rt\<lparr>rt_task_list := drop (unat batch_size) (rt_task_list rt)\<rparr>)"
proof -
  have "take (length l - (length l - n)) l = take n l" for l :: "coro list" and n
    by (cases "n \<le> length l") simp_all
  then show ?thesis
    using get_tasks_scan_eq [of 0 batch_size "rt_task_list rt"]
    by (simp add: rt_get_tasks_def Let_def)
qed


section \<open>The queue of a thread\<close>

text \<open>
  The deferred callback of a thread with its argument. The argument of the two epoll callbacks
  is the \<open>EPollItem\<close> on the stack of a coroutine, identified here by that coroutine.
\<close>

datatype delay_cb =
    Add_back_to_queue coro
  | Enable_epoll_reading coro
  | Enable_epoll_writing coro
  | Destroy_coro coro

record smart_thread =
  th_main_coro :: coro
  th_current_coro :: coro
  th_task_queue :: "coro bounded_queue"
  th_delay_callback :: "delay_cb option"

definition SmartThread_new :: "flags \<Rightarrow> coro \<Rightarrow> smart_thread" where
  "SmartThread_new fl main_coro =
     \<lparr>th_main_coro = main_coro, th_current_coro = main_coro,
      th_task_queue = bq_new (ucast (FLAGS_task_queue_length fl)), th_delay_callback = None\<rparr>"

definition th_take_front ::
  "smart_thread \<Rightarrow> smart_runtime \<Rightarrow> (coro option \<times> smart_thread \<times> smart_runtime) res" where
  "th_take_front th rt =
     bind_res (bq_front (th_task_queue th)) (\<lambda>coro.
     bind_res (bq_pop (th_task_queue th)) (\<lambda>(_, q).
     Inr (Some coro, th\<lparr>th_task_queue := q\<rparr>, rt)))"

definition th_get_task ::
  "flags \<Rightarrow> smart_thread \<Rightarrow> smart_runtime \<Rightarrow> (coro option \<times> smart_thread \<times> smart_runtime) res" where
  "th_get_task fl th rt =
     (if bq_empty (th_task_queue th)
      then let (ret, tmp_list, rt') = rt_get_tasks rt (ucast (FLAGS_acquire_tasks_batch_size fl)) []
        in if ret = 0 then Inr (None, th, rt')
           else bind_res (push_all bq_push (th_task_queue th) tmp_list) (\<lambda>q.
             th_take_front (th\<lparr>th_task_queue := q\<rparr>) rt')
      else th_take_front th rt)"

definition th_push_task ::
  "smart_thread \<Rightarrow> smart_runtime \<Rightarrow> coro \<Rightarrow> (int \<times> smart_thread \<times> smart_runtime) res" where
  "th_push_task th rt coro =
     bind_res (bq_push (th_task_queue th) coro) (\<lambda>(success, q).
       let th' = th\<lparr>th_task_queue := q\<rparr> in
       if \<not> success then let (r, rt') = rt_push_task rt coro in Inr (r, th', rt')
       else Inr (0, th', rt))"

text \<open>
  The destructor: the loop deletes the coroutines the queue still holds, then the main
  coroutine. It returns the addresses it deletes, in order; \<open>None\<close> would be a loop that does
  not end.
\<close>

partial_function (option) th_drain :: "coro bounded_queue \<Rightarrow> coro list \<Rightarrow> coro list res option" where
  "th_drain q deleted =
     (if bq_empty q then Some (Inr deleted)
      else case bq_front q of
        Inl u \<Rightarrow> Some (Inl u)
      | Inr c \<Rightarrow> (case bq_pop q of
          Inl u \<Rightarrow> Some (Inl u)
        | Inr (_, q') \<Rightarrow> th_drain q' (deleted @ [c])))"

definition SmartThread_delete :: "smart_thread \<Rightarrow> coro list res option" where
  "SmartThread_delete th =
     map_option (\<lambda>r. bind_res r (\<lambda>deleted. Inr (deleted @ [th_main_coro th])))
       (th_drain (th_task_queue th) [])"

section \<open>Start-up and shut-down of the runtime\<close>

fun init_threads :: "nat \<Rightarrow> nat \<Rightarrow> pthread option list \<Rightarrow> pthread option list" where
  "init_threads i 0 tids = tids"
| "init_threads i (Suc n) tids = init_threads (Suc i) n (tids[i := Some (Smart_pthread i)])"

text \<open>
  \<open>SmartRuntime::init\<close>: the value of \<open>std::thread::hardware_concurrency()\<close> is an argument.
\<close>

definition SmartRuntime_init :: "flags \<Rightarrow> uint32 \<Rightarrow> smart_runtime" where
  "SmartRuntime_init fl hardware_concurrency =
     (let value = SmartRuntime_new;
          n = (if FLAGS_runtime_threads_num fl = 0 then hardware_concurrency
               else ucast (FLAGS_runtime_threads_num fl));
          tids = init_threads 0 (unat n) (replicate (unat n) None)
      in value\<lparr>rt_threads_num := n, rt_tids := tids,
           rt_epoller_tid := Some Epoller_pthread, rt_timer_tid := Some Timer_pthread\<rparr>)"

text \<open>\<open>~SmartRuntime\<close>: the threads it joins, in order, and the coroutines it deletes.\<close>

definition SmartRuntime_delete :: "smart_runtime \<Rightarrow> pthread option list \<times> coro list" where
  "SmartRuntime_delete rt =
     (map (\<lambda>i. rt_tids rt ! i) [0..<unat (rt_threads_num rt)] @ [rt_timer_tid rt, rt_timer_tid rt],
      rt_task_list rt)"

text \<open>
  The instance: \<open>pthread_once\<close> runs \<open>init\<close> at the first call, and \<open>exit_clean\<close>, registered with
  \<open>atexit\<close>, deletes the instance. The flag of \<open>pthread_once\<close> is not reset, so a later call returns
  the deleted object.
\<close>

record runtime_global =
  rg_once :: bool                           \<comment> \<open>\<open>once_control_\<close>\<close>
  rg_value :: "smart_runtime option"        \<comment> \<open>\<open>*value_\<close>, \<open>None\<close> when there is no object\<close>

definition get_instance :: "flags \<Rightarrow> uint32 \<Rightarrow> runtime_global \<Rightarrow> (smart_runtime \<times> runtime_global) res" where
  "get_instance fl hardware_concurrency g =
     (let g' = (if rg_once g then g else \<lparr>rg_once = True, rg_value = Some (SmartRuntime_init fl hardware_concurrency)\<rparr>)
      in case rg_value g' of None \<Rightarrow> Inl UseAfterFree | Some v \<Rightarrow> Inr (v, g'))"

definition exit_clean :: "runtime_global \<Rightarrow> (pthread option list \<times> coro list) option \<times> runtime_global" where
  "exit_clean g = (map_option SmartRuntime_delete (rg_value g), g\<lparr>rg_value := None\<rparr>)"

lemma get_instance_once:
  assumes "get_instance fl hw g = Inr (v, g1)"
  shows "get_instance fl' hw' g1 = Inr (v, g1)" "get_instance fl' hw' (snd (exit_clean g1)) = Inl UseAfterFree"
  using assms by (auto simp: get_instance_def exit_clean_def Let_def split: option.splits if_splits)

section \<open>What a thread gets\<close>

text \<open>
  The specification of \<open>get_task\<close> over plain lists: the head of the own queue; when that is
  empty, the first of a batch from the process-wide list, of which at most the capacity of the
  own queue is kept.
\<close>

definition abs_get_task :: "nat \<Rightarrow> nat \<Rightarrow> 'c list \<Rightarrow> 'c list \<Rightarrow> 'c option \<times> 'c list \<times> 'c list" where
  "abs_get_task batch cap q l =
     (case q of c # cs \<Rightarrow> (Some c, cs, l)
      | [] \<Rightarrow> (case take batch l of [] \<Rightarrow> (None, [], l)
              | c # cs \<Rightarrow> (Some c, take (cap - 1) cs, drop batch l)))"

abbreviation th_queue :: "smart_thread \<Rightarrow> coro list" where
  "th_queue th \<equiv> bq_list (th_task_queue th)"

abbreviation th_cap :: "smart_thread \<Rightarrow> nat" where
  "th_cap th \<equiv> bq_cap (th_task_queue th)"

abbreviation batch_of :: "flags \<Rightarrow> nat" where
  "batch_of fl \<equiv> unat (ucast (FLAGS_acquire_tasks_batch_size fl) :: uint32)"

definition th_inv :: "smart_thread \<Rightarrow> bool" where
  "th_inv th \<longleftrightarrow> bq_inv (th_task_queue th)"

lemma th_take_front_ok:
  assumes "th_inv th" "th_queue th = c # cs"
  shows "\<exists>q. th_take_front th rt = Inr (Some c, th\<lparr>th_task_queue := q\<rparr>, rt) \<and>
    bq_inv q \<and> bq_list q = cs \<and> bq_cap q = th_cap th"
  using bq.front_ok [of "th_task_queue th" c cs] bq.pop_ok [of "th_task_queue th" c cs] assms
  by (auto simp: th_take_front_def th_inv_def)

lemma get_count_zero:
  "sint (of_nat (min (unat b) n) :: uint32) = 0 \<longleftrightarrow> unat b = 0 \<or> n = 0"
  for b :: uint32
proof -
  have "min (unat b) n < 2 ^ 32"
    by (rule le_less_trans [OF min.cobounded1]) (use unsigned_less [of b] in simp)
  then have "unat (of_nat (min (unat b) n) :: uint32) = min (unat b) n"
    by (simp add: unat_of_nat)
  then show ?thesis by (metis min_0L min_0R min_def signed_eq_0_iff unat_0 unat_eq_zero)
qed

lemma th_get_task_own:
  assumes "th_inv th" "th_queue th = c # cs"
  shows "\<exists>q. th_get_task fl th rt = Inr (Some c, th\<lparr>th_task_queue := q\<rparr>, rt) \<and>
    bq_inv q \<and> bq_list q = cs \<and> bq_cap q = th_cap th"
  using th_take_front_ok [OF assms] bq.empty_iff [of "th_task_queue th"] assms
  by (simp add: th_get_task_def th_inv_def)

lemma th_get_task_none:
  assumes "th_inv th" "th_queue th = []" "take (batch_of fl) (rt_task_list rt) = []"
  shows "th_get_task fl th rt = Inr (None, th, rt)"
proof -
  have "batch_of fl = 0 \<or> length (rt_task_list rt) = 0" using assms(3) by auto
  then have "drop (batch_of fl) (rt_task_list rt) = rt_task_list rt" by auto
  moreover have "sint (of_nat (min (batch_of fl) (length (rt_task_list rt))) :: uint32) = 0"
    using \<open>batch_of fl = 0 \<or> _\<close> by (simp only: get_count_zero)
  ultimately show ?thesis
    using assms bq.empty_iff [of "th_task_queue th"]
    by (simp add: th_get_task_def th_inv_def rt_get_tasks_eq)
qed

lemma th_get_task_batch:
  assumes "th_inv th" "th_queue th = []" "take (batch_of fl) (rt_task_list rt) = c # cs"
  shows "\<exists>q. th_get_task fl th rt =
      Inr (Some c, th\<lparr>th_task_queue := q\<rparr>, rt\<lparr>rt_task_list := drop (batch_of fl) (rt_task_list rt)\<rparr>) \<and>
    bq_inv q \<and> bq_list q = take (th_cap th - 1) cs \<and> bq_cap q = th_cap th"
proof -
  have nz: "sint (of_nat (min (batch_of fl) (length (rt_task_list rt))) :: uint32) \<noteq> 0"
    unfolding get_count_zero by (metis assms(3) list.distinct(1) list.size(3) length_0_conv take_0 take_Nil)
  have inv: "bq_inv (th_task_queue th)" using assms(1) by (simp add: th_inv_def)
  obtain q where q: "push_all bq_push (th_task_queue th) (c # cs) = Inr q" "bq_inv q"
      "bq_cap q = th_cap th" "bq_list q = take (th_cap th) (c # cs)"
    using bq.push_all_contents [OF inv, of "c # cs"] assms(2) by auto
  have "0 < th_cap th" using bq_inv_nat(3) [OF inv] .
  then have l: "bq_list q = c # take (th_cap th - 1) cs" using q(4) by (cases "th_cap th") auto
  let ?th = "th\<lparr>th_task_queue := q\<rparr>"
  have "th_inv ?th" "th_queue ?th = c # take (th_cap th - 1) cs" using q l by (simp_all add: th_inv_def)
  from th_take_front_ok [OF this] show ?thesis
    using nz q assms bq.empty_iff [OF inv]
    by (simp add: th_get_task_def rt_get_tasks_eq del: push_all.simps)
qed

lemma th_get_task_ok:
  assumes "th_inv th"
    and "abs_get_task (batch_of fl) (th_cap th) (th_queue th) (rt_task_list rt) = (r, q', l')"
  shows "\<exists>q. th_get_task fl th rt = Inr (r, th\<lparr>th_task_queue := q\<rparr>, rt\<lparr>rt_task_list := l'\<rparr>) \<and>
    bq_inv q \<and> bq_cap q = th_cap th \<and> bq_list q = q'"
proof (cases "th_queue th")
  case (Cons c cs)
  with th_get_task_own [OF assms(1) Cons, of fl rt] assms(2) show ?thesis
    by (auto simp: abs_get_task_def)
next
  case Nil
  show ?thesis
  proof (cases "take (batch_of fl) (rt_task_list rt)")
    case N: Nil
    with th_get_task_none [OF assms(1) Nil N] assms Nil show ?thesis
      by (auto simp: abs_get_task_def th_inv_def intro!: exI [of _ "th_task_queue th"])
  next
    case (Cons c cs)
    with th_get_task_batch [OF assms(1) Nil Cons] assms(2) Nil show ?thesis
      by (auto simp: abs_get_task_def)
  qed
qed

lemma th_push_task_ok:
  assumes "th_inv th"
  shows "\<exists>q l'. th_push_task th rt c = Inr (0, th\<lparr>th_task_queue := q\<rparr>, rt\<lparr>rt_task_list := l'\<rparr>) \<and>
    bq_inv q \<and> bq_cap q = th_cap th \<and>
    (if length (th_queue th) < th_cap th then bq_list q = th_queue th @ [c] \<and> l' = rt_task_list rt
     else bq_list q = th_queue th \<and> l' = rt_task_list rt @ [c])"
proof -
  have inv: "bq_inv (th_task_queue th)" using assms by (simp add: th_inv_def)
  then show ?thesis
  proof (cases rule: bq.push_cases [where x = c, case_names pushed refused])
    case (pushed q)
    then show ?thesis
      by (auto simp: th_push_task_def intro!: exI [of _ q] exI [of _ "rt_task_list rt"])
  next
    case refused
    then show ?thesis
      using inv
      by (auto simp: th_push_task_def rt_push_task_def intro!: exI [of _ "th_task_queue th"])
  qed
qed


section \<open>A pool of tasks\<close>

text \<open>
  What the scheduler relies on: taking a task never fails and never invents or duplicates one,
  adding a task keeps all others. A pool is lossless when taking one task drops no other.
\<close>

datatype pool_op = Pool_get | Pool_put coro

fun run_pool ::
  "('s \<Rightarrow> (coro option \<times> 's) res) \<Rightarrow> ('s \<Rightarrow> coro \<Rightarrow> 's res) \<Rightarrow> 's \<Rightarrow> pool_op list \<Rightarrow> (coro list \<times> 's) res"
where
  "run_pool get put s [] = Inr ([], s)"
| "run_pool get put s (Pool_get # ops) =
     bind_res (get s) (\<lambda>(r, s'). bind_res (run_pool get put s' ops) (\<lambda>(cs, s'').
       Inr (case r of None \<Rightarrow> cs | Some c \<Rightarrow> c # cs, s'')))"
| "run_pool get put s (Pool_put c # ops) = bind_res (put s c) (\<lambda>s'. run_pool get put s' ops)"

fun puts_of :: "pool_op list \<Rightarrow> coro list" where
  "puts_of [] = []"
| "puts_of (Pool_get # ops) = puts_of ops"
| "puts_of (Pool_put c # ops) = c # puts_of ops"

locale task_pool =
  fixes get :: "'s \<Rightarrow> (coro option \<times> 's) res"
    and put :: "'s \<Rightarrow> coro \<Rightarrow> 's res"
    and tasks :: "'s \<Rightarrow> coro multiset"
    and invar :: "'s \<Rightarrow> bool"
  assumes get_ok: "invar s \<Longrightarrow> \<exists>r s'. get s = Inr (r, s') \<and> invar s' \<and>
      (case r of None \<Rightarrow> tasks s' = tasks s | Some c \<Rightarrow> add_mset c (tasks s') \<subseteq># tasks s)"
    and put_ok: "invar s \<Longrightarrow> \<exists>s'. put s c = Inr s' \<and> invar s' \<and> tasks s' = add_mset c (tasks s)"
begin

lemma run_pool_sub:
  assumes "invar s"
  shows "\<exists>cs s'. run_pool get put s ops = Inr (cs, s') \<and> invar s' \<and>
    mset cs + tasks s' \<subseteq># tasks s + mset (puts_of ops)"
  using assms
proof (induction ops arbitrary: s rule: puts_of.induct)
  case (2 ops)
  from get_ok [OF "2.prems"] obtain r s' where g: "get s = Inr (r, s')" "invar s'"
      "case r of None \<Rightarrow> tasks s' = tasks s | Some c \<Rightarrow> add_mset c (tasks s') \<subseteq># tasks s" by blast
  from "2.IH" [OF g(2)] obtain cs s'' where ih: "run_pool get put s' ops = Inr (cs, s'')" "invar s''"
      "mset cs + tasks s'' \<subseteq># tasks s' + mset (puts_of ops)" by blast
  show ?case
  proof (cases r)
    case None
    with g ih show ?thesis by simp
  next
    case (Some c)
    have "add_mset c (mset cs + tasks s'') \<subseteq># add_mset c (tasks s') + mset (puts_of ops)"
      using ih(3) by simp
    also have "\<dots> \<subseteq># tasks s + mset (puts_of ops)"
      using g(3) Some by (simp add: mset_subset_eq_mono_add_right_cancel)
    finally show ?thesis using g ih Some by simp
  qed
next
  case (3 c ops)
  then obtain s' where p: "put s c = Inr s'" "invar s'" "tasks s' = add_mset c (tasks s)"
    using put_ok by blast
  with "3.IH" [OF p(2)] show ?case by simp
qed simp

end

locale lossless_pool = task_pool +
  assumes get_exact: "invar s \<Longrightarrow> get s = Inr (Some c, s') \<Longrightarrow> tasks s = add_mset c (tasks s')"
begin

lemma run_pool_exact:
  assumes "invar s" "run_pool get put s ops = Inr (cs, s')"
  shows "mset cs + tasks s' = tasks s + mset (puts_of ops)"
  using assms
proof (induction ops arbitrary: s cs rule: puts_of.induct)
  case (2 ops)
  from get_ok [OF "2.prems"(1)] obtain r s1 where g: "get s = Inr (r, s1)" "invar s1"
      "case r of None \<Rightarrow> tasks s1 = tasks s | Some c \<Rightarrow> add_mset c (tasks s1) \<subseteq># tasks s" by blast
  with "2.prems" obtain cs' where r: "run_pool get put s1 ops = Inr (cs', s')"
      "cs = (case r of None \<Rightarrow> cs' | Some c \<Rightarrow> c # cs')"
    by (auto simp: bind_res_Inr_iff split: prod.splits)
  have "mset cs' + tasks s' = tasks s1 + mset (puts_of ops)" using "2.IH" [OF g(2) r(1)] .
  moreover have "tasks s = (case r of None \<Rightarrow> tasks s1 | Some c \<Rightarrow> add_mset c (tasks s1))"
    using g "2.prems"(1) get_exact by (auto split: option.splits)
  ultimately show ?case using r(2) by (auto split: option.splits)
next
  case (3 c ops)
  then obtain s1 where p: "put s c = Inr s1" "invar s1" "tasks s1 = add_mset c (tasks s)"
    using put_ok by blast
  with "3.IH" [OF p(2)] "3.prems" show ?case by simp
qed simp

end

text \<open>The pool of one thread: its own queue and the process-wide list.\<close>

definition pool_get ::
  "flags \<Rightarrow> smart_thread \<times> smart_runtime \<Rightarrow> (coro option \<times> smart_thread \<times> smart_runtime) res" where
  "pool_get fl = (\<lambda>(th, rt). th_get_task fl th rt)"

definition pool_put :: "smart_thread \<times> smart_runtime \<Rightarrow> coro \<Rightarrow> (smart_thread \<times> smart_runtime) res" where
  "pool_put = (\<lambda>(th, rt) c. bind_res (th_push_task th rt c) (\<lambda>(_, th', rt'). Inr (th', rt')))"

definition pool_tasks :: "smart_thread \<times> smart_runtime \<Rightarrow> coro multiset" where
  "pool_tasks = (\<lambda>(th, rt). mset (th_queue th) + mset (rt_task_list rt))"

definition pool_inv :: "smart_thread \<times> smart_runtime \<Rightarrow> bool" where
  "pool_inv = (\<lambda>(th, rt). th_inv th)"

lemma mset_take_drop: "mset (take n xs) + mset (drop n xs) = mset xs"
  by (metis append_take_drop_id mset_append)

lemma mset_take_sub: "mset (take n xs) \<subseteq># mset xs"
  by (metis mset_subset_eq_add_left mset_take_drop)

lemma abs_get_task_sub:
  assumes "abs_get_task b cap q l = (r, q', l')"
  shows "case r of None \<Rightarrow> mset q' + mset l' = mset q + mset l
    | Some c \<Rightarrow> add_mset c (mset q' + mset l') \<subseteq># mset q + mset l"
proof (cases q)
  case (Cons c cs)
  with assms show ?thesis by (auto simp: abs_get_task_def)
next
  case Nil
  show ?thesis
  proof (cases "take b l")
    case (Cons c cs)
    have "mset l = add_mset c (mset cs) + mset (drop b l)"
      using mset_take_drop [of b l] Cons by simp
    with Nil Cons assms show ?thesis by (auto simp: abs_get_task_def mset_take_sub)
  qed (use assms Nil in \<open>auto simp: abs_get_task_def\<close>)
qed

lemma abs_get_task_exact:
  assumes "abs_get_task b cap q l = (Some c, q', l')" "b \<le> cap"
  shows "mset q + mset l = add_mset c (mset q' + mset l')"
proof (cases q)
  case (Cons c cs)
  with assms show ?thesis by (auto simp: abs_get_task_def)
next
  case Nil
  show ?thesis
  proof (cases "take b l")
    case (Cons c' cs)
    have "length (take b l) \<le> b" by simp
    then have "take (cap - 1) cs = cs" using Cons assms(2) by simp
    moreover have "mset l = add_mset c' (mset cs) + mset (drop b l)"
      using mset_take_drop [of b l] Cons by simp
    ultimately show ?thesis using Nil Cons assms(1) by (simp add: abs_get_task_def)
  qed (use assms Nil in \<open>auto simp: abs_get_task_def\<close>)
qed

lemma pool_get_ok:
  assumes "th_inv th"
  shows "\<exists>r th' rt'. pool_get fl (th, rt) = Inr (r, th', rt') \<and> th_inv th' \<and> th_cap th' = th_cap th \<and>
    abs_get_task (batch_of fl) (th_cap th) (th_queue th) (rt_task_list rt) =
      (r, th_queue th', rt_task_list rt')"
proof -
  obtain r q' l' where
    a: "abs_get_task (batch_of fl) (th_cap th) (th_queue th) (rt_task_list rt) = (r, q', l')"
    by (cases "abs_get_task (batch_of fl) (th_cap th) (th_queue th) (rt_task_list rt)")
  from th_get_task_ok [OF assms a] show ?thesis
    by (auto simp: pool_get_def th_inv_def a)
qed

lemma pool_get_sub:
  assumes "pool_inv s"
  shows "\<exists>r s'. pool_get fl s = Inr (r, s') \<and> pool_inv s' \<and> th_cap (fst s') = th_cap (fst s) \<and>
    (case r of None \<Rightarrow> pool_tasks s' = pool_tasks s | Some c \<Rightarrow> add_mset c (pool_tasks s') \<subseteq># pool_tasks s)"
proof -
  obtain th rt where s: "s = (th, rt)" by (cases s)
  with assms have "th_inv th" by (simp add: pool_inv_def)
  from pool_get_ok [OF this, of fl rt] obtain r th' rt' where
    g: "pool_get fl (th, rt) = Inr (r, th', rt')" "th_inv th'" "th_cap th' = th_cap th"
    and a: "abs_get_task (batch_of fl) (th_cap th) (th_queue th) (rt_task_list rt) =
      (r, th_queue th', rt_task_list rt')" by blast
  show ?thesis
    using g abs_get_task_sub [OF a] s by (simp add: pool_inv_def pool_tasks_def split: option.splits)
qed

lemma pool_get_exact:
  assumes "pool_inv s" "batch_of fl \<le> th_cap (fst s)" "pool_get fl s = Inr (Some c, s')"
  shows "pool_tasks s = add_mset c (pool_tasks s')"
proof -
  obtain th rt where s: "s = (th, rt)" by (cases s)
  with assms have "th_inv th" by (simp add: pool_inv_def)
  from pool_get_ok [OF this, of fl rt] obtain th' rt' where
    g: "s' = (th', rt')"
    and a: "abs_get_task (batch_of fl) (th_cap th) (th_queue th) (rt_task_list rt) =
      (Some c, th_queue th', rt_task_list rt')" using assms(3) s by auto
  show ?thesis
    using abs_get_task_exact [OF a] assms(2) s g by (simp add: pool_tasks_def)
qed

lemma pool_put_ok:
  assumes "pool_inv s"
  shows "\<exists>s'. pool_put s c = Inr s' \<and> pool_inv s' \<and> th_cap (fst s') = th_cap (fst s) \<and>
    pool_tasks s' = add_mset c (pool_tasks s)"
proof -
  obtain th rt where s: "s = (th, rt)" by (cases s)
  with assms have "th_inv th" by (simp add: pool_inv_def)
  from th_push_task_ok [OF this, of rt c] show ?thesis
    by (auto simp: s pool_put_def pool_inv_def th_inv_def pool_tasks_def split: if_splits)
qed

interpretation pool: task_pool "pool_get fl" pool_put pool_tasks pool_inv for fl
proof (unfold_locales, goal_cases)
  case (1 s)
  then show ?case using pool_get_sub [of s fl] by blast
next
  case (2 s c)
  then show ?case using pool_put_ok [of s c] by blast
qed

interpretation lpool: lossless_pool "pool_get fl" pool_put pool_tasks
  "\<lambda>p. pool_inv p \<and> batch_of fl \<le> th_cap (fst p)" for fl
proof (unfold_locales, goal_cases)
  case (1 s)
  then show ?case using pool_get_sub [of s fl] by metis
next
  case (2 s c)
  then show ?case using pool_put_ok [of s c] by metis
next
  case (3 s c s')
  then show ?case using pool_get_exact by blast
qed


section \<open>The destructor of a thread\<close>

lemma th_drain_all:
  assumes "bq_inv q" "bq_list q = cs"
  shows "th_drain q deleted = Some (Inr (deleted @ cs))"
  using assms
proof (induction cs arbitrary: q deleted)
  case Nil
  then show ?case using bq.empty_iff [of q] by (subst th_drain.simps) simp
next
  case (Cons c cs)
  obtain q' where "bq_pop q = Inr (True, q')" "bq_inv q'" "bq_list q' = cs"
    using bq.pop_ok [OF Cons.prems] by blast
  with Cons.IH [of q' "deleted @ [c]"] bq.front_ok [OF Cons.prems] bq.empty_iff [of q] Cons.prems
  show ?case by (subst th_drain.simps) simp
qed

lemma init_threads_eq:
  "i + n = length tids \<Longrightarrow> init_threads i n tids = take i tids @ map (Some \<circ> Smart_pthread) [i..<length tids]"
proof (induction n arbitrary: i tids)
  case (Suc n)
  have "init_threads i (Suc n) tids =
      take (Suc i) (tids[i := Some (Smart_pthread i)]) @ map (Some \<circ> Smart_pthread) [Suc i..<length tids]"
    using Suc by simp
  also have "take (Suc i) (tids[i := Some (Smart_pthread i)]) = take i tids @ [Some (Smart_pthread i)]"
    using Suc.prems by (simp add: take_Suc_conv_app_nth)
  finally show ?case using Suc.prems by (simp add: upt_conv_Cons)
qed simp

lemma SmartThread_new_ok:
  assumes "ucast (FLAGS_task_queue_length fl) \<noteq> (0 :: uint32)"
  shows "bq_inv (th_task_queue (SmartThread_new fl m))" "th_queue (SmartThread_new fl m) = []"
    "th_cap (SmartThread_new fl m) = unat (ucast (FLAGS_task_queue_length fl) :: uint32)"
proof -
  let ?q = "bq_new (ucast (FLAGS_task_queue_length fl)) :: coro bounded_queue"
  have "bq_inv ?q \<and> bq_list ?q = [] \<and> bq_cap ?q = unat (ucast (FLAGS_task_queue_length fl) :: uint32)"
    using assms by (rule bq.new_ok)
  then show "bq_inv (th_task_queue (SmartThread_new fl m))" "th_queue (SmartThread_new fl m) = []"
    "th_cap (SmartThread_new fl m) = unat (ucast (FLAGS_task_queue_length fl) :: uint32)"
    by (simp_all add: SmartThread_new_def)
qed

lemma default_thread:
  "bq_inv (th_task_queue (SmartThread_new default_flags m))" "th_queue (SmartThread_new default_flags m) = []"
  "th_cap (SmartThread_new default_flags m) = 25" "batch_of default_flags = 10"
  using SmartThread_new_ok [of default_flags m] by (simp_all add: default_flags_def)

section \<open>Properties\<close>

text \<open>C26. Taking a task refines its specification over lists for every setting of the flags: a
  thread takes the head of its own queue; if that is empty it takes a batch from the
  process-wide list, of which it keeps what fits its queue and runs the first; it gets nothing
  exactly when both are empty or the batch size is zero. It never leaves the defined semantics.\<close>

theorem get_task_refines:
  assumes "bq_inv (th_task_queue th)"
  shows "\<exists>r th' rt'. th_get_task fl th rt = Inr (r, th', rt') \<and> bq_inv (th_task_queue th') \<and>
    (r, th_queue th', rt_task_list rt') =
      abs_get_task (batch_of fl) (th_cap th) (th_queue th) (rt_task_list rt)"
  using pool_get_ok [of th fl rt] assms by (auto simp: pool_get_def th_inv_def)

definition example_runtime :: smart_runtime where
  "example_runtime = SmartRuntime_new\<lparr>rt_task_list := [5, 6, 7]\<rparr>"

theorem get_task_refines_witness:
  "\<exists>r th' rt'. th_get_task default_flags (SmartThread_new default_flags 0) example_runtime = Inr (r, th', rt') \<and>
    bq_inv (th_task_queue th') \<and> (r, th_queue th', rt_task_list rt') = (Some 5, [6, 7], [])"
  using get_task_refines [OF default_thread(1), of default_flags 0 example_runtime]
  by (simp add: default_thread abs_get_task_def example_runtime_def)

text \<open>Whatever the flags, a sequence of \<open>get_task\<close> and \<open>push_task\<close> calls of a thread never
  fails, and every coroutine it hands out or still holds was in the pool or was pushed, no more
  often than it was there: no coroutine is duplicated or invented.\<close>

lemma pool_never_duplicates:
  assumes "bq_inv (th_task_queue th)"
  shows "\<exists>cs s'. run_pool (pool_get fl) pool_put (th, rt) ops = Inr (cs, s') \<and>
    mset cs + pool_tasks s' \<subseteq># pool_tasks (th, rt) + mset (puts_of ops)"
  using pool.run_pool_sub [of "(th, rt)" fl ops] assms by (auto simp: pool_inv_def th_inv_def)

lemma pool_never_duplicates_witness:
  "\<exists>cs s'. run_pool (pool_get default_flags) pool_put
       (SmartThread_new default_flags 0, SmartRuntime_new) [Pool_put 4, Pool_get] = Inr (cs, s') \<and>
    mset cs + pool_tasks s' \<subseteq># pool_tasks (SmartThread_new default_flags 0, SmartRuntime_new) + {#4#}"
  using pool_never_duplicates [OF default_thread(1), of default_flags 0 SmartRuntime_new "[Pool_put 4, Pool_get]"]
  by (simp add: numeral_eq_Suc)

text \<open>C27. When the batch size is at most the length of the thread's queue (10 and 25 by
  default), no coroutine is lost either: what is handed out and what is still held is exactly
  what was there and what was pushed.\<close>

theorem pool_lossless:
  assumes "bq_inv (th_task_queue th)" "batch_of fl \<le> th_cap th"
    and "run_pool (pool_get fl) pool_put (th, rt) ops = Inr (cs, s')"
  shows "mset cs + pool_tasks s' = pool_tasks (th, rt) + mset (puts_of ops)"
  using lpool.run_pool_exact [of "(th, rt)" fl ops cs s'] assms by (simp add: pool_inv_def th_inv_def)

theorem pool_lossless_witness:
  "\<exists>s'. run_pool (pool_get default_flags) pool_put
       (SmartThread_new default_flags 0, SmartRuntime_new) [Pool_put 4, Pool_get] = Inr ([4], s') \<and>
    mset [4] + pool_tasks s' = pool_tasks (SmartThread_new default_flags 0, SmartRuntime_new) + {#4#}"
proof -
  let ?s = "(SmartThread_new default_flags 0, SmartRuntime_new)"
  have i: "bq_inv (th_task_queue (fst ?s))" "batch_of default_flags \<le> th_cap (fst ?s)"
    using default_thread by simp_all
  obtain s' where "run_pool (pool_get default_flags) pool_put ?s [Pool_put 4, Pool_get] = Inr ([4], s')"
    by (simp add: pool_put_def th_push_task_def SmartThread_new_def default_flags_def
        bq_new_def bq_push_def bq_full_def mem_write_def pool_get_def th_get_task_def bq_empty_def
        th_take_front_def bq_front_def mem_read_def bq_pop_def)
  with pool_lossless [of "fst ?s" default_flags "snd ?s" "[Pool_put 4, Pool_get]" "[4]" s'] i
  show ?thesis by auto
qed

text \<open>C28. With a batch size above the length of the thread's queue coroutines are lost: the
  loop in \<open>get_task\<close> ignores what \<open>push\<close> answers. A thread with an empty queue that finds
  more coroutines than its queue can hold drops all those of the batch that do not fit; they are
  in neither list afterwards.\<close>

theorem get_task_loses_tasks:
  assumes "bq_inv (th_task_queue th)" "th_queue th = []"
    and "th_cap th < batch_of fl" "th_cap th < length (rt_task_list rt)"
  shows "\<exists>th' rt'. th_get_task fl th rt = Inr (Some (hd (rt_task_list rt)), th', rt') \<and>
    mset (rt_task_list rt) =
      add_mset (hd (rt_task_list rt)) (mset (th_queue th') + mset (rt_task_list rt')) +
      mset (drop (th_cap th) (take (batch_of fl) (rt_task_list rt))) \<and>
    drop (th_cap th) (take (batch_of fl) (rt_task_list rt)) \<noteq> []"
proof -
  let ?l = "rt_task_list rt" and ?b = "batch_of fl" and ?c = "th_cap th"
  have pos: "0 < ?c" using bq_inv_nat(3) [OF assms(1)] .
  obtain x xs where l: "?l = x # xs" using assms(4) by (cases ?l) auto
  then have tk: "take ?b ?l = x # take (?b - 1) xs" using assms(3) by (cases ?b) auto
  obtain q where q: "th_get_task fl th rt =
      Inr (Some x, th\<lparr>th_task_queue := q\<rparr>, rt\<lparr>rt_task_list := drop ?b ?l\<rparr>)"
      "bq_list q = take (?c - 1) (take (?b - 1) xs)"
    using th_get_task_batch [OF _ assms(2) tk] assms(1) by (auto simp: th_inv_def)
  have "drop ?c (take ?b ?l) = drop (?c - 1) (take (?b - 1) xs)"
    using tk pos by (cases ?c) auto
  then have "mset ?l = add_mset x (mset (take (?c - 1) (take (?b - 1) xs))) +
      mset (drop ?c (take ?b ?l)) + mset (drop ?b ?l)"
    using mset_take_drop [of ?b ?l] tk mset_take_drop [of "?c - 1" "take (?b - 1) xs"] by simp
  moreover have "drop ?c (take ?b ?l) \<noteq> []" using assms(3,4) by simp
  ultimately show ?thesis using q l by simp
qed

definition small_queue_flags :: flags where
  "small_queue_flags = default_flags\<lparr>FLAGS_task_queue_length := 2\<rparr>"

theorem get_task_loses_tasks_witness:
  "\<exists>th' rt'. th_get_task small_queue_flags (SmartThread_new small_queue_flags 0) example_runtime =
      Inr (Some 5, th', rt') \<and>
    mset [5, 6, 7] = add_mset 5 (mset (th_queue th') + mset (rt_task_list rt')) + {#7#}"
proof -
  let ?th = "SmartThread_new small_queue_flags 0"
  have "bq_inv (th_task_queue ?th)" "th_queue ?th = []" "th_cap ?th = 2"
    using SmartThread_new_ok [of small_queue_flags 0] by (simp_all add: small_queue_flags_def)
  moreover have "batch_of small_queue_flags = 10"
    by (simp add: small_queue_flags_def default_flags_def)
  ultimately show ?thesis
    using get_task_loses_tasks [of ?th small_queue_flags example_runtime]
    by (simp add: example_runtime_def numeral_eq_Suc)
qed

text \<open>C29. The destructor of a thread ends, stays inside the defined semantics and deletes each
  coroutine its queue still holds, oldest first, and then the main coroutine.\<close>

theorem SmartThread_delete_all:
  assumes "bq_inv (th_task_queue th)"
  shows "SmartThread_delete th = Some (Inr (th_queue th @ [th_main_coro th]))"
  using th_drain_all [OF assms refl, of "[]"] by (simp add: SmartThread_delete_def)

theorem SmartThread_delete_all_witness:
  "bq_inv (th_task_queue (SmartThread_new default_flags 3)) \<and>
   SmartThread_delete (SmartThread_new default_flags 3) = Some (Inr [3])"
  using SmartThread_delete_all [OF default_thread(1), of 3] default_thread
  by (simp add: SmartThread_new_def)

text \<open>Shut-down of a runtime built by \<open>init\<close>: the destructor joins every scheduler thread
  that was created, but joins the timer thread twice and the epoll thread never.\<close>

lemma runtime_delete_joins:
  "fst (SmartRuntime_delete (SmartRuntime_init fl hw)) =
     map (Some \<circ> Smart_pthread) [0..<unat (rt_threads_num (SmartRuntime_init fl hw))] @
     [Some Timer_pthread, Some Timer_pthread] \<and>
   rt_epoller_tid (SmartRuntime_init fl hw) = Some Epoller_pthread \<and>
   Some Epoller_pthread \<notin> set (fst (SmartRuntime_delete (SmartRuntime_init fl hw)))"
proof -
  let ?n = "unat (rt_threads_num (SmartRuntime_init fl hw))"
  have "rt_tids (SmartRuntime_init fl hw) = map (Some \<circ> Smart_pthread) [0..<?n]"
    using init_threads_eq [of 0 ?n "replicate ?n None"]
    by (simp add: SmartRuntime_init_def Let_def del: init_threads.simps)
  then have "map (\<lambda>i. rt_tids (SmartRuntime_init fl hw) ! i) [0..<?n] = map (Some \<circ> Smart_pthread) [0..<?n]"
    by (simp add: list_eq_iff_nth_eq)
  moreover have "rt_timer_tid (SmartRuntime_init fl hw) = Some Timer_pthread"
    "rt_epoller_tid (SmartRuntime_init fl hw) = Some Epoller_pthread"
    by (simp_all add: SmartRuntime_init_def Let_def)
  ultimately show ?thesis by (auto simp: SmartRuntime_delete_def)
qed

end
