(* ===== verification/Scheduler.thy ===== *)
theory Scheduler
  imports Smart_Runtime
begin

text \<open>
  The coroutine scheduler: \<open>SmartThread::main_loop\<close>, \<open>yield\<close>, \<open>switch_to\<close>,
  \<open>coro_runner\<close> and the deferred callbacks of \<open>src/smart_thread.cpp\<close>, with
  \<open>smart_routine_start\<close>, \<open>smart_routine_yield\<close> and \<open>smart_routine_resume\<close> of
  \<open>src/smart_routine.cpp\<close>, as a machine of several threads whose steps interleave.

  A coroutine that is not running holds a context: where its stack continues when it is jumped
  to. The machine records for each saved context the stack it belongs to, so that a context
  stored in the wrong coroutine object, a jump to a context whose owner still runs and a jump
  to a freed stack are visible.
\<close>

section \<open>State\<close>

datatype fcontext =
    Entry coro             \<comment> \<open>made by \<open>make_fcontext\<close>: the start of \<open>coro_runner\<close>\<close>
  | After_yield coro       \<comment> \<open>in \<open>yield\<close>, after \<open>switch_to\<close>\<close>
  | After_loop nat coro    \<comment> \<open>in \<open>main_loop\<close> of the given \<open>this\<close>, after \<open>switch_to\<close>\<close>

primrec stack_of :: "fcontext \<Rightarrow> coro" where
  "stack_of (Entry p) = p"
| "stack_of (After_yield p) = p"
| "stack_of (After_loop this p) = p"

record smart_coro =
  co_fn :: bool                          \<comment> \<open>\<open>fn_\<close> is not null\<close>
  co_fcontext :: "fcontext option"       \<comment> \<open>\<open>None\<close>: stale, the stack is running\<close>

datatype pc =
    Waiting                \<comment> \<open>in \<open>init\<close>, waiting on the task list\<close>
  | At_loop nat coro       \<comment> \<open>head of \<open>main_loop\<close> of \<open>this\<close>, on the given stack\<close>
  | Landed fcontext        \<comment> \<open>\<open>jump_fcontext\<close> has just arrived\<close>
  | In_user coro           \<comment> \<open>in the entry function of the coroutine on that stack\<close>

record sys =
  sy_threads :: "nat \<Rightarrow> smart_thread"
  sy_pc :: "nat \<Rightarrow> pc"
  sy_runtime :: smart_runtime
  sy_coros :: "coro \<rightharpoonup> smart_coro"
  sy_frames :: "coro \<Rightarrow> nat \<times> coro"   \<comment> \<open>locals \<open>tls_st\<close> and \<open>curr_coro\<close> of \<open>coro_runner\<close>\<close>
  sy_next :: coro                        \<comment> \<open>the next address \<open>new SmartCoro\<close> returns\<close>
  sy_waiting :: "coro list"              \<comment> \<open>coroutines whose epoll item is enabled\<close>

section \<open>Operations\<close>

definition set_thread :: "nat \<Rightarrow> smart_thread \<Rightarrow> sys \<Rightarrow> sys" where
  "set_thread t th s = s\<lparr>sy_threads := (sy_threads s)(t := th)\<rparr>"

definition set_pc :: "nat \<Rightarrow> pc \<Rightarrow> sys \<Rightarrow> sys" where
  "set_pc t p s = s\<lparr>sy_pc := (sy_pc s)(t := p)\<rparr>"

definition set_delay :: "nat \<Rightarrow> delay_cb option \<Rightarrow> sys \<Rightarrow> sys" where
  "set_delay t cb s = set_thread t (sy_threads s t\<lparr>th_delay_callback := cb\<rparr>) s"

definition sys_push_task :: "nat \<Rightarrow> coro \<Rightarrow> sys \<Rightarrow> sys res" where
  "sys_push_task t coro s =
     bind_res (th_push_task (sy_threads s t) (sy_runtime s) coro) (\<lambda>(_, th, rt).
       Inr ((set_thread t th s)\<lparr>sy_runtime := rt\<rparr>))"

definition sys_get_task :: "flags \<Rightarrow> nat \<Rightarrow> sys \<Rightarrow> (coro option \<times> sys) res" where
  "sys_get_task fl t s =
     bind_res (th_get_task fl (sy_threads s t) (sy_runtime s)) (\<lambda>(r, th, rt).
       Inr (r, (set_thread t th s)\<lparr>sy_runtime := rt\<rparr>))"

text \<open>
  \<open>switch_to\<close> of the thread object \<open>this\<close>, called on thread \<open>t\<close>: the continuation
  \<open>here\<close> is saved in the object \<open>this->current_coro_\<close>, and control arrives at the context of
  \<open>next_coro\<close>.
\<close>

definition switch_to :: "nat \<Rightarrow> nat \<Rightarrow> fcontext \<Rightarrow> coro \<Rightarrow> sys \<Rightarrow> sys res" where
  "switch_to t this here next_coro s =
     (let th = sy_threads s this; cur = th_current_coro th in
      case sy_coros s cur of None \<Rightarrow> Inl UseAfterFree
      | Some ocur \<Rightarrow> (case sy_coros s next_coro of None \<Rightarrow> Inl UseAfterFree
      | Some onext \<Rightarrow> (case co_fcontext onext of None \<Rightarrow> Inl StaleContext
      | Some k \<Rightarrow>
          if sy_coros s (stack_of k) = None then Inl UseAfterFree
          else Inr (set_pc t (Landed k) (set_thread this (th\<lparr>th_current_coro := next_coro\<rparr>)
            (s\<lparr>sy_coros := (sy_coros s)(cur \<mapsto> ocur\<lparr>co_fcontext := Some here\<rparr>,
                                      next_coro \<mapsto> onext\<lparr>co_fcontext := None\<rparr>)\<rparr>))))))"

definition destroy_coro :: "coro \<Rightarrow> sys \<Rightarrow> sys res" where
  [simp]: "destroy_coro c s =
     (if sy_coros s c = None then Inl UseAfterFree else Inr (s\<lparr>sy_coros := (sy_coros s)(c := None)\<rparr>))"

fun exec_callback :: "nat \<Rightarrow> delay_cb \<Rightarrow> sys \<Rightarrow> sys res" where
  "exec_callback t (Add_back_to_queue c) s = sys_push_task t c s"
| "exec_callback t (Enable_epoll_reading c) s =
     (if sy_coros s c = None then Inl UseAfterFree else Inr (s\<lparr>sy_waiting := sy_waiting s @ [c]\<rparr>))"
| "exec_callback t (Enable_epoll_writing c) s =
     (if sy_coros s c = None then Inl UseAfterFree else Inr (s\<lparr>sy_waiting := sy_waiting s @ [c]\<rparr>))"
| "exec_callback t (Destroy_coro c) s = destroy_coro c s"

definition run_delay_callback :: "nat \<Rightarrow> nat \<Rightarrow> sys \<Rightarrow> sys res" where
  "run_delay_callback t this s =
     (case th_delay_callback (sy_threads s this) of None \<Rightarrow> Inr s
      | Some cb \<Rightarrow> bind_res (exec_callback t cb s) (\<lambda>s'. Inr (set_delay this None s')))"

text \<open>\<open>init\<close>: the thread leaves \<open>wait_on_task_list\<close> for \<open>main_loop\<close>.\<close>

definition leave_wait :: "nat \<Rightarrow> sys \<Rightarrow> sys res" where
  "leave_wait t s = Inr (set_pc t (At_loop t (th_current_coro (sy_threads s t))) s)"

text \<open>One round of \<open>main_loop\<close> up to the jump; without a task the thread sleeps and stays.\<close>

definition main_loop_round :: "flags \<Rightarrow> nat \<Rightarrow> nat \<Rightarrow> coro \<Rightarrow> sys \<Rightarrow> sys res" where
  "main_loop_round fl t this stack s =
     bind_res (sys_get_task fl this s) (\<lambda>(r, s').
       case r of None \<Rightarrow> Inr s'
       | Some coro \<Rightarrow> switch_to t this (After_loop this stack) coro s')"

text \<open>After the entry function: the end of \<open>coro_runner\<close>, with the locals it kept.\<close>

definition coro_runner_end :: "nat \<Rightarrow> coro \<Rightarrow> sys \<Rightarrow> sys res" where
  "coro_runner_end t stack s =
     (let (tls_st, curr_coro) = sy_frames s stack
      in Inr (set_pc t (At_loop tls_st stack) (set_delay tls_st (Some (Destroy_coro curr_coro)) s)))"

text \<open>The start of \<open>coro_runner\<close>, up to the call of the entry function.\<close>

definition coro_runner_begin :: "nat \<Rightarrow> coro \<Rightarrow> sys \<Rightarrow> sys res" where
  "coro_runner_begin t stack s =
     bind_res (run_delay_callback t t s) (\<lambda>s'.
       let curr_coro = th_current_coro (sy_threads s' t);
           s'' = s'\<lparr>sy_frames := (sy_frames s')(stack := (t, curr_coro))\<rparr>
       in case sy_coros s'' curr_coro of None \<Rightarrow> Inl UseAfterFree
          | Some oc \<Rightarrow> if co_fn oc then Inr (set_pc t (In_user stack) s'') else coro_runner_end t stack s'')"

text \<open>What runs where a jump arrives.\<close>

fun land :: "nat \<Rightarrow> fcontext \<Rightarrow> sys \<Rightarrow> sys res" where
  "land t (Entry p) s = coro_runner_begin t p s"
| "land t (After_yield p) s = Inr (set_pc t (In_user p) s)"
| "land t (After_loop this p) s =
     bind_res (run_delay_callback t this s) (\<lambda>s'. Inr (set_pc t (At_loop this p) s'))"

definition th_yield :: "flags \<Rightarrow> nat \<Rightarrow> coro \<Rightarrow> bool \<Rightarrow> delay_cb option \<Rightarrow> sys \<Rightarrow> sys res" where
  "th_yield fl t stack with_callback runner_callback s =
     (let s1 = (if with_callback then set_delay t runner_callback s else s) in
      bind_res (sys_get_task fl t s1) (\<lambda>(r, s2).
        case r of Some coro \<Rightarrow> switch_to t t (After_yield stack) coro s2
        | None \<Rightarrow> switch_to t t (After_yield stack) (th_main_coro (sy_threads s2 t)) s2))"

datatype wait_kind = By_yield | By_read | By_write

primrec wait_callback :: "wait_kind \<Rightarrow> coro \<Rightarrow> delay_cb" where
  "wait_callback By_yield c = Add_back_to_queue c"
| "wait_callback By_read c = Enable_epoll_reading c"
| "wait_callback By_write c = Enable_epoll_writing c"

text \<open>
  \<open>smart_routine_yield\<close>, and the blocking part of \<open>smart_read\<close>, \<open>smart_accept\<close>,
  \<open>smart_read_until\<close> (reading) and \<open>smart_write\<close>, \<open>smart_connect\<close> (writing).
\<close>

definition smart_routine_wait :: "flags \<Rightarrow> nat \<Rightarrow> coro \<Rightarrow> wait_kind \<Rightarrow> sys \<Rightarrow> sys res" where
  "smart_routine_wait fl t stack w s =
     th_yield fl t stack True (Some (wait_callback w (th_current_coro (sy_threads s t)))) s"

definition smart_routine_resume :: "nat option \<Rightarrow> coro \<Rightarrow> sys \<Rightarrow> sys res" where
  "smart_routine_resume tls coro s =
     (case tls of Some t \<Rightarrow> sys_push_task t coro s
      | None \<Rightarrow> Inr (s\<lparr>sy_runtime := snd (rt_push_task (sy_runtime s) coro)\<rparr>))"

definition smart_routine_start :: "nat option \<Rightarrow> sys \<Rightarrow> sys res" where
  "smart_routine_start tls s =
     (let coro = sy_next s
      in smart_routine_resume tls coro
           (s\<lparr>sy_coros := (sy_coros s)(coro \<mapsto> \<lparr>co_fn = True, co_fcontext = Some (Entry coro)\<rparr>),
              sy_next := Suc coro\<rparr>))"

text \<open>
  The epoll thread completes the operation a coroutine waits for: \<open>resume_read_coro\<close> and
  \<open>resume_write_coro\<close> disable the item and resume the coroutine; that thread has no
  \<open>tls_smart_thread\<close>.
\<close>

definition resume_io_coro :: "coro \<Rightarrow> sys \<Rightarrow> sys res" where
  "resume_io_coro c s =
     smart_routine_resume None c (s\<lparr>sy_waiting := remove1 c (sy_waiting s)\<rparr>)"

section \<open>Steps of the machine\<close>

datatype event =
    Wake nat | Loop nat | Land nat | Wait nat wait_kind | Return nat
  | Start nat | Start_outside | Io_done coro

fun enabled :: "nat \<Rightarrow> event \<Rightarrow> sys \<Rightarrow> bool" where
  "enabled n (Wake t) s = (t < n \<and> sy_pc s t = Waiting \<and> rt_wait_ready (sy_runtime s))"
| "enabled n (Loop t) s = (t < n \<and> (case sy_pc s t of At_loop _ _ \<Rightarrow> True | _ \<Rightarrow> False))"
| "enabled n (Land t) s = (t < n \<and> (case sy_pc s t of Landed _ \<Rightarrow> True | _ \<Rightarrow> False))"
| "enabled n (Wait t w) s = (t < n \<and> (case sy_pc s t of In_user _ \<Rightarrow> True | _ \<Rightarrow> False))"
| "enabled n (Return t) s = (t < n \<and> (case sy_pc s t of In_user _ \<Rightarrow> True | _ \<Rightarrow> False))"
| "enabled n (Start t) s = (t < n \<and> (case sy_pc s t of In_user _ \<Rightarrow> True | _ \<Rightarrow> False))"
| "enabled n Start_outside s = True"
| "enabled n (Io_done c) s = (c \<in> set (sy_waiting s))"

fun perform :: "flags \<Rightarrow> event \<Rightarrow> sys \<Rightarrow> sys res" where
  "perform fl (Wake t) s = leave_wait t s"
| "perform fl (Loop t) s =
     (case sy_pc s t of At_loop this p \<Rightarrow> main_loop_round fl t this p s | _ \<Rightarrow> Inr s)"
| "perform fl (Land t) s = (case sy_pc s t of Landed k \<Rightarrow> land t k s | _ \<Rightarrow> Inr s)"
| "perform fl (Wait t w) s =
     (case sy_pc s t of In_user p \<Rightarrow> smart_routine_wait fl t p w s | _ \<Rightarrow> Inr s)"
| "perform fl (Return t) s = (case sy_pc s t of In_user p \<Rightarrow> coro_runner_end t p s | _ \<Rightarrow> Inr s)"
| "perform fl (Start t) s = smart_routine_start (Some t) s"
| "perform fl Start_outside s = smart_routine_start None s"
| "perform fl (Io_done c) s = resume_io_coro c s"

definition sys_init :: "flags \<Rightarrow> nat \<Rightarrow> sys" where
  "sys_init fl n =
     \<lparr>sy_threads = (\<lambda>t. SmartThread_new fl t), sy_pc = (\<lambda>_. Waiting), sy_runtime = SmartRuntime_new,
      sy_coros = (\<lambda>c. if c < n then Some \<lparr>co_fn = False, co_fcontext = Some (Entry c)\<rparr> else None),
      sy_frames = (\<lambda>_. (0, 0)), sy_next = n, sy_waiting = []\<rparr>"

inductive sys_step :: "flags \<Rightarrow> nat \<Rightarrow> sys \<Rightarrow> sys res \<Rightarrow> bool" for fl :: flags and n :: nat where
  event: "enabled n ev s \<Longrightarrow> sys_step fl n s (perform fl ev s)"

inductive_simps sys_step_iff: "sys_step fl n s r"

text \<open>A run of given events; it stops with \<open>None\<close> at an event that is not enabled.\<close>

fun sys_run :: "flags \<Rightarrow> nat \<Rightarrow> event list \<Rightarrow> sys \<Rightarrow> sys res option" where
  "sys_run fl n [] s = Some (Inr s)"
| "sys_run fl n (ev # evs) s =
     (if enabled n ev s
      then (case perform fl ev s of Inl u \<Rightarrow> Some (Inl u) | Inr s' \<Rightarrow> sys_run fl n evs s')
      else None)"

end
