(* ===== verification/Scheduler_Safety.thy ===== *)
theory Scheduler_Safety
  imports Scheduler
begin

text \<open>
  Safety of the scheduler with one scheduler thread, next to the epoll thread and to any number
  of threads that start coroutines from outside: an invariant of every reachable state, by one
  lemma per operation. Its consequences, and what goes wrong with the deferred callbacks and
  with several threads, are stated at the end.
\<close>

section \<open>Where a coroutine can be\<close>

definition uniq :: "'a multiset \<Rightarrow> bool" where
  "uniq M \<longleftrightarrow> (\<forall>c. count M c \<le> 1)"

lemma uniq_sub: "M' \<subseteq># M \<Longrightarrow> uniq M \<Longrightarrow> uniq M'"
  unfolding uniq_def by (meson le_trans mset_subset_eq_count)

lemma uniq_add [simp]: "uniq (add_mset c M) \<longleftrightarrow> c \<notin># M \<and> uniq M"
proof -
  have "count (add_mset c M) x \<le> 1 \<longleftrightarrow> (if x = c then count M c = 0 else count M x \<le> 1)" for x
    by simp
  then show ?thesis unfolding uniq_def not_in_iff by (metis le_zero_eq zero_le)
qed

lemma uniq_empty [simp]: "uniq {#}"
  by (simp add: uniq_def)

text \<open>The coroutine a deferred callback will hand to a queue or to epoll.\<close>

fun pending :: "delay_cb option \<Rightarrow> coro multiset" where
  "pending (Some (Add_back_to_queue c)) = {#c#}"
| "pending (Some (Enable_epoll_reading c)) = {#c#}"
| "pending (Some (Enable_epoll_writing c)) = {#c#}"
| "pending _ = {#}"

abbreviation thr :: "sys \<Rightarrow> smart_thread" where
  "thr s \<equiv> sy_threads s 0"

abbreviation cur_of :: "sys \<Rightarrow> coro" where
  "cur_of s \<equiv> th_current_coro (sy_threads s 0)"

abbreviation main_of :: "sys \<Rightarrow> coro" where
  "main_of s \<equiv> th_main_coro (sy_threads s 0)"

abbreviation delay_of :: "sys \<Rightarrow> delay_cb option" where
  "delay_of s \<equiv> th_delay_callback (sy_threads s 0)"

definition ready_tasks :: "sys \<Rightarrow> coro multiset" where
  "ready_tasks s = mset (th_queue (thr s)) + mset (rt_task_list (sy_runtime s))"

definition tokens :: "sys \<Rightarrow> coro multiset" where
  "tokens s = ready_tasks s + mset (sy_waiting s) + pending (delay_of s)"

text \<open>A coroutine that can be jumped to: its own object holds a context of its own stack.\<close>

definition parked :: "sys \<Rightarrow> coro \<Rightarrow> bool" where
  "parked s c \<longleftrightarrow> (\<exists>oc. sy_coros s c = Some oc \<and> co_fn oc \<and>
     (co_fcontext oc = Some (Entry c) \<or> co_fcontext oc = Some (After_yield c) \<and> sy_frames s c = (0, c)))"

definition main_saved :: "sys \<Rightarrow> bool" where
  "main_saved s \<longleftrightarrow> (\<exists>oc. sy_coros s (main_of s) = Some oc \<and>
     co_fcontext oc = Some (After_loop 0 (main_of s)))"

definition at_loop :: "sys \<Rightarrow> bool" where
  "at_loop s \<longleftrightarrow> sy_pc s 0 = At_loop 0 (cur_of s)"

definition destroy_ok :: "sys \<Rightarrow> bool" where
  "destroy_ok s \<longleftrightarrow> (\<forall>d. delay_of s = Some (Destroy_coro d) \<longrightarrow>
     sy_coros s d \<noteq> None \<and> d \<noteq> main_of s \<and> d \<notin># tokens s \<and> (d = cur_of s \<longrightarrow> at_loop s))"

definition user_frame :: "sys \<Rightarrow> bool" where
  "user_frame s \<longleftrightarrow> cur_of s \<noteq> main_of s \<and> sy_frames s (cur_of s) = (0, cur_of s) \<and>
     (\<exists>oc. sy_coros s (cur_of s) = Some oc \<and> co_fn oc)"

fun pc_ok :: "sys \<Rightarrow> pc \<Rightarrow> bool" where
  "pc_ok s Waiting = (cur_of s = main_of s)"
| "pc_ok s (At_loop this p) = (this = 0 \<and> p = cur_of s)"
| "pc_ok s (In_user p) = (p = cur_of s \<and> user_frame s)"
| "pc_ok s (Landed (Entry p)) =
     (p = cur_of s \<and> p \<noteq> main_of s \<and> (\<exists>oc. sy_coros s p = Some oc \<and> co_fn oc))"
| "pc_ok s (Landed (After_yield p)) = (p = cur_of s \<and> user_frame s)"
| "pc_ok s (Landed (After_loop this p)) = (this = 0 \<and> p = main_of s \<and> cur_of s = main_of s)"

definition sched_inv :: "sys \<Rightarrow> bool" where
  "sched_inv s \<longleftrightarrow>
     th_inv (thr s) \<and> uniq (tokens s) \<and>
     (\<forall>c. c \<in># tokens s \<longrightarrow> parked s c \<and> c \<noteq> cur_of s \<and> c \<noteq> main_of s) \<and>
     sy_coros s (cur_of s) \<noteq> None \<and> sy_coros s (main_of s) \<noteq> None \<and>
     (cur_of s \<noteq> main_of s \<longrightarrow> main_saved s) \<and>
     destroy_ok s \<and> pc_ok s (sy_pc s 0) \<and>
     (\<forall>c \<ge> sy_next s. sy_coros s c = None)"

lemmas sched_defs = sched_inv_def destroy_ok_def user_frame_def main_saved_def at_loop_def
lemmas sys_updates = set_thread_def set_pc_def set_delay_def

section \<open>The operations\<close>

text \<open>Taking and adding tasks, in terms of the multiset of tasks that are ready.\<close>

text \<open>Everything but the task lists is as before.\<close>

definition same_coros :: "sys \<Rightarrow> sys \<Rightarrow> bool" where
  "same_coros s s' \<longleftrightarrow> sy_frames s' = sy_frames s \<and> sy_next s' = sy_next s \<and> sy_coros s' = sy_coros s \<and>
     sy_pc s' = sy_pc s \<and> cur_of s' = cur_of s \<and> main_of s' = main_of s"

lemma same_coros_simps:
  assumes "same_coros s s'"
  shows "sy_frames s' = sy_frames s" "sy_next s' = sy_next s" "sy_coros s' = sy_coros s"
    "sy_pc s' = sy_pc s" "cur_of s' = cur_of s" "main_of s' = main_of s" "parked s' = parked s"
    "main_saved s' = main_saved s" "user_frame s' = user_frame s" "at_loop s' = at_loop s"
  using assms
  by (auto simp: same_coros_def parked_def main_saved_def user_frame_def at_loop_def fun_eq_iff)

lemma same_coros_pc:
  assumes "same_coros s s'"
  shows "pc_ok s' p = pc_ok s p"
  by (cases "(s', p)" rule: pc_ok.cases) (simp_all add: same_coros_simps [OF assms])

lemma sys_get_task_ok:
  assumes "th_inv (thr s)"
  obtains r s' where "sys_get_task fl 0 s = Inr (r, s')" "same_coros s s'" "th_inv (thr s')"
    "delay_of s' = delay_of s" "sy_waiting s' = sy_waiting s"
    "case r of None \<Rightarrow> tokens s' = tokens s | Some c \<Rightarrow> add_mset c (tokens s') \<subseteq># tokens s"
proof -
  obtain r q' l where a: "abs_get_task (batch_of fl) (th_cap (thr s)) (th_queue (thr s))
      (rt_task_list (sy_runtime s)) = (r, q', l)"
    by (cases "abs_get_task (batch_of fl) (th_cap (thr s)) (th_queue (thr s)) (rt_task_list (sy_runtime s))")
  from th_get_task_ok [OF assms a] obtain q where
    q: "th_get_task fl (thr s) (sy_runtime s) =
      Inr (r, thr s\<lparr>th_task_queue := q\<rparr>, sy_runtime s\<lparr>rt_task_list := l\<rparr>)" "bq_inv q" "bq_list q = q'" by blast
  define s' where "s' = (set_thread 0 (thr s\<lparr>th_task_queue := q\<rparr>) s)\<lparr>sy_runtime := sy_runtime s\<lparr>rt_task_list := l\<rparr>\<rparr>"
  have t: "ready_tasks s' = mset q' + mset l" "sy_waiting s' = sy_waiting s" "delay_of s' = delay_of s"
    using q(3) by (simp_all add: s'_def sys_updates ready_tasks_def)
  have "case r of None \<Rightarrow> tokens s' = tokens s | Some c \<Rightarrow> add_mset c (tokens s') \<subseteq># tokens s"
  proof (cases r)
    case None
    then show ?thesis using abs_get_task_sub [OF a] t by (simp add: tokens_def ready_tasks_def)
  next
    case (Some c)
    let ?rest = "mset (sy_waiting s) + pending (delay_of s)"
    have "add_mset c (mset q' + mset l) + ?rest \<subseteq># ready_tasks s + ?rest"
      using abs_get_task_sub [OF a] Some by (simp add: ready_tasks_def)
    then show ?thesis using Some t by (simp add: tokens_def ac_simps)
  qed
  then show thesis
    by (rule that [where r = r and s' = s', rotated 5])
      (use q t in \<open>simp_all add: sys_get_task_def s'_def sys_updates same_coros_def th_inv_def\<close>)
qed

lemma sys_push_task_ok:
  assumes "th_inv (thr s)"
  obtains s' where "sys_push_task 0 c s = Inr s'" "same_coros s s'" "th_inv (thr s')"
    "delay_of s' = delay_of s" "sy_waiting s' = sy_waiting s" "tokens s' = add_mset c (tokens s)"
proof -
  obtain q l where p: "th_push_task (thr s) (sy_runtime s) c =
      Inr (0, thr s\<lparr>th_task_queue := q\<rparr>, sy_runtime s\<lparr>rt_task_list := l\<rparr>)" "bq_inv q"
    and m: "if length (th_queue (thr s)) < th_cap (thr s)
      then bq_list q = th_queue (thr s) @ [c] \<and> l = rt_task_list (sy_runtime s)
      else bq_list q = th_queue (thr s) \<and> l = rt_task_list (sy_runtime s) @ [c]"
    using th_push_task_ok [OF assms, of "sy_runtime s" c] by blast
  define s' where "s' = (set_thread 0 (thr s\<lparr>th_task_queue := q\<rparr>) s)\<lparr>sy_runtime := sy_runtime s\<lparr>rt_task_list := l\<rparr>\<rparr>"
  have "mset (bq_list q) + mset l = add_mset c (ready_tasks s)"
    using m by (simp add: ready_tasks_def split: if_splits)
  then have "tokens s' = add_mset c (tokens s)"
    by (simp add: s'_def sys_updates tokens_def ready_tasks_def)
  then show thesis
    by (rule that [where s' = s', rotated 5])
      (use p in \<open>simp_all add: sys_push_task_def s'_def sys_updates same_coros_def th_inv_def\<close>)
qed

text \<open>
  A jump. The coroutine that leaves may already be announced in the deferred callback; then
  the continuation it saves must be one of its own stack.
\<close>

lemma switch_to_inv:
  assumes inv: "th_inv (thr s)" "uniq (tokens s)"
    and tok: "\<And>c. c \<in># tokens s \<Longrightarrow> c \<noteq> next_coro \<and> c \<noteq> main_of s \<and>
      (parked s c \<and> c \<noteq> cur_of s \<or>
       c = cur_of s \<and> here = After_yield c \<and> sy_frames s c = (0, c) \<and> co_fn ocur)"
    and cur: "sy_coros s (cur_of s) = Some ocur"
    and ne: "next_coro \<noteq> cur_of s"
    and target: "next_coro = main_of s \<and> main_saved s \<or> next_coro \<noteq> main_of s \<and> parked s next_coro"
    and main: "sy_coros s (main_of s) \<noteq> None"
      "if cur_of s = main_of s then here = After_loop 0 (main_of s) else main_saved s"
    and des: "\<And>d. delay_of s = Some (Destroy_coro d) \<Longrightarrow>
      sy_coros s d \<noteq> None \<and> d \<noteq> main_of s \<and> d \<notin># tokens s \<and> d \<noteq> next_coro"
    and fresh: "\<forall>c \<ge> sy_next s. sy_coros s c = None"
  shows "\<exists>s'. switch_to 0 0 here next_coro s = Inr s' \<and> sched_inv s'"
proof -
  obtain onext k where k: "sy_coros s next_coro = Some onext" "co_fcontext onext = Some k"
      "stack_of k = next_coro"
    using target by (auto simp: parked_def main_saved_def)
  define s' where "s' = set_pc 0 (Landed k) (set_thread 0 (thr s\<lparr>th_current_coro := next_coro\<rparr>)
     (s\<lparr>sy_coros := (sy_coros s)(cur_of s \<mapsto> ocur\<lparr>co_fcontext := Some here\<rparr>,
        next_coro \<mapsto> onext\<lparr>co_fcontext := None\<rparr>)\<rparr>))"
  have sw: "switch_to 0 0 here next_coro s = Inr s'"
    using cur k by (simp add: switch_to_def s'_def Let_def)
  have [simp]: "thr s' = thr s\<lparr>th_current_coro := next_coro\<rparr>" "tokens s' = tokens s"
    "sy_frames s' = sy_frames s" "sy_next s' = sy_next s" "sy_pc s' 0 = Landed k"
    "sy_coros s' = (sy_coros s)(cur_of s \<mapsto> ocur\<lparr>co_fcontext := Some here\<rparr>,
        next_coro \<mapsto> onext\<lparr>co_fcontext := None\<rparr>)"
    by (simp_all add: s'_def sys_updates tokens_def ready_tasks_def)
  have p: "parked s' c \<and> c \<noteq> next_coro \<and> c \<noteq> main_of s" if "c \<in># tokens s" for c
    using tok [OF that] by (auto simp: parked_def)
  have m: "main_saved s'" if "next_coro \<noteq> main_of s"
    using that main ne by (auto simp: main_saved_def split: if_splits)
  have d: "destroy_ok s'"
    using des by (auto simp: destroy_ok_def)
  have "pc_ok s' (Landed k)"
    using target k ne by (cases k) (auto simp: parked_def main_saved_def user_frame_def)
  moreover have "\<forall>c \<ge> sy_next s. sy_coros s' c = None"
    using fresh cur k(1) by (metis (no_types, lifting) \<open>sy_coros s' = _\<close> fun_upd_apply option.distinct(1))
  ultimately have "sched_inv s'"
    using inv p m d main(1) cur by (auto simp: sched_inv_def th_inv_def)
  with sw show ?thesis by blast
qed


lemma sched_invD:
  assumes "sched_inv s"
  shows "th_inv (thr s)" "uniq (tokens s)" "sy_coros s (main_of s) \<noteq> None"
    "\<And>c. c \<in># tokens s \<Longrightarrow> parked s c \<and> c \<noteq> cur_of s \<and> c \<noteq> main_of s"
    "cur_of s \<noteq> main_of s \<Longrightarrow> main_saved s" "destroy_ok s" "pc_ok s (sy_pc s 0)"
    "\<forall>c \<ge> sy_next s. sy_coros s c = None" "\<exists>oc. sy_coros s (cur_of s) = Some oc"
  using assms by (auto simp: sched_inv_def)

lemma same_tokens_inv:
  assumes "sched_inv s" "same_coros s s'" "th_inv (thr s')" "tokens s' = tokens s" "delay_of s' = delay_of s"
  shows "sched_inv s'"
  using assms(1,3-) by (simp add: sched_inv_def destroy_ok_def same_coros_simps [OF assms(2)] same_coros_pc [OF assms(2)])

lemma get_token:
  assumes "add_mset c N \<subseteq># M" "uniq M"
  shows "c \<in># M" "c \<notin># N" "uniq N" "\<And>x. x \<in># N \<Longrightarrow> x \<in># M"
  using uniq_sub [OF assms] mset_subset_eqD [OF assms(1)] by auto

lemma main_loop_round_inv:
  assumes inv: "sched_inv s" and pc: "sy_pc s 0 = At_loop this p"
  shows "\<exists>s'. main_loop_round fl 0 this p s = Inr s' \<and> sched_inv s'"
proof -
  note D = sched_invD [OF inv]
  have p: "this = 0" "p = cur_of s" using D(7) pc by simp_all
  obtain r s1 where g: "sys_get_task fl 0 s = Inr (r, s1)" "same_coros s s1" "th_inv (thr s1)"
    "delay_of s1 = delay_of s" "sy_waiting s1 = sy_waiting s"
    and r: "case r of None \<Rightarrow> tokens s1 = tokens s | Some c \<Rightarrow> add_mset c (tokens s1) \<subseteq># tokens s"
    by (rule sys_get_task_ok [OF D(1)])
  note [simp] = same_coros_simps [OF g(2)]
  show ?thesis
  proof (cases r)
    case None
    then show ?thesis using g p same_tokens_inv [OF inv g(2,3)] r by (simp add: main_loop_round_def)
  next
    case (Some c)
    then have "add_mset c (tokens s1) \<subseteq># tokens s" using r by simp
    note cs = get_token [OF this D(2)]
    obtain oc where oc: "sy_coros s (cur_of s) = Some oc" using D(9) by blast
    have "\<exists>s'. switch_to 0 0 (After_loop 0 (cur_of s)) c s1 = Inr s' \<and> sched_inv s'"
    proof (rule switch_to_inv [where ocur = oc])
      show "x \<noteq> c \<and> x \<noteq> main_of s1 \<and> (parked s1 x \<and> x \<noteq> cur_of s1 \<or>
         x = cur_of s1 \<and> After_loop 0 (cur_of s) = After_yield x \<and> sy_frames s1 x = (0, x) \<and> co_fn oc)"
        if "x \<in># tokens s1" for x
        using that D(4) [OF cs(4) [OF that]] cs(2) by auto
      show "sy_coros s1 d \<noteq> None \<and> d \<noteq> main_of s1 \<and> d \<notin># tokens s1 \<and> d \<noteq> c"
        if "delay_of s1 = Some (Destroy_coro d)" for d
        using that D(6) cs(1,4) g(4) by (auto simp: destroy_ok_def)
      show "c \<noteq> cur_of s1" "c = main_of s1 \<and> main_saved s1 \<or> c \<noteq> main_of s1 \<and> parked s1 c"
        using D(4) [OF cs(1)] by simp_all
    qed (use g(3) cs(3) oc D in \<open>simp_all\<close>)
    then show ?thesis using g Some p by (simp add: main_loop_round_def)
  qed
qed

lemma smart_routine_wait_inv:
  assumes inv: "sched_inv s" and pc: "sy_pc s 0 = In_user p"
  shows "\<exists>s'. smart_routine_wait fl 0 p w s = Inr s' \<and> sched_inv s'"
proof -
  note D = sched_invD [OF inv]
  have p: "p = cur_of s" "user_frame s" using D(7) pc by simp_all
  then obtain oc where oc: "sy_coros s (cur_of s) = Some oc" "co_fn oc" "cur_of s \<noteq> main_of s"
      "sy_frames s (cur_of s) = (0, cur_of s)"
    by (auto simp: user_frame_def)
  define s0 where "s0 = set_delay 0 (Some (wait_callback w (cur_of s))) s"
  have s0: "same_coros s s0" "th_inv (thr s0)" "delay_of s0 = Some (wait_callback w (cur_of s))"
    using D(1) by (simp_all add: s0_def sys_updates same_coros_def th_inv_def)
  have pend: "pending (Some (wait_callback w c)) = {#c#}" for c by (cases w) simp_all
  have t0: "tokens s0 = add_mset (cur_of s) (ready_tasks s + mset (sy_waiting s))"
    by (simp add: tokens_def s0 pend) (simp add: ready_tasks_def s0_def sys_updates)
  have sub: "ready_tasks s + mset (sy_waiting s) \<subseteq># tokens s" by (simp add: tokens_def)
  have u0: "uniq (tokens s0)" using D(4) uniq_sub [OF sub D(2)] mset_subset_eqD [OF sub] by (auto simp: t0)
  have m0: "c = cur_of s \<or> c \<in># tokens s" if "c \<in># tokens s0" for c
    using that mset_subset_eqD [OF sub] by (auto simp: t0)
  obtain r s1 where g: "sys_get_task fl 0 s0 = Inr (r, s1)" "same_coros s0 s1" "th_inv (thr s1)"
    "delay_of s1 = delay_of s0" "sy_waiting s1 = sy_waiting s0"
    and r: "case r of None \<Rightarrow> tokens s1 = tokens s0 | Some c \<Rightarrow> add_mset c (tokens s1) \<subseteq># tokens s0"
    by (rule sys_get_task_ok [OF s0(2)])
  note [simp] = same_coros_simps [OF g(2)] same_coros_simps [OF s0(1)]
  define nxt where "nxt = (case r of Some c \<Rightarrow> c | None \<Rightarrow> main_of s)"
  have cur1: "cur_of s \<in># tokens s1" using g(4) by (simp add: tokens_def s0 pend)
  have nxt: "nxt \<notin># tokens s1 \<and> uniq (tokens s1) \<and> (\<forall>c. c \<in># tokens s1 \<longrightarrow> c \<in># tokens s0) \<and>
    (nxt = main_of s \<or> nxt \<in># tokens s0)"
  proof (cases r)
    case None
    then show ?thesis using r u0 m0 [of "main_of s"] D(4) [of "main_of s"] oc(3) by (auto simp: nxt_def)
  next
    case (Some c)
    then have "add_mset c (tokens s1) \<subseteq># tokens s0" using r by simp
    from get_token [OF this u0] Some show ?thesis by (auto simp: nxt_def)
  qed
  then have ne: "nxt \<noteq> cur_of s" using cur1 by auto
  have "\<exists>s'. switch_to 0 0 (After_yield (cur_of s)) nxt s1 = Inr s' \<and> sched_inv s'"
  proof (rule switch_to_inv [where ocur = oc])
    show "x \<noteq> nxt \<and> x \<noteq> main_of s1 \<and> (parked s1 x \<and> x \<noteq> cur_of s1 \<or>
       x = cur_of s1 \<and> After_yield (cur_of s) = After_yield x \<and> sy_frames s1 x = (0, x) \<and> co_fn oc)"
      if "x \<in># tokens s1" for x
      using that nxt m0 [of x] D(4) [of x] oc by auto
    show "sy_coros s1 d \<noteq> None \<and> d \<noteq> main_of s1 \<and> d \<notin># tokens s1 \<and> d \<noteq> nxt"
      if "delay_of s1 = Some (Destroy_coro d)" for d
      using that g(4) s0(3) by (cases w) simp_all
    show "nxt = main_of s1 \<and> main_saved s1 \<or> nxt \<noteq> main_of s1 \<and> parked s1 nxt"
      using nxt ne m0 [of nxt] D(4) [of nxt] D(5) oc(3) by auto
  qed (use g(3) nxt ne oc D in \<open>simp_all\<close>)
  then show ?thesis
    using g(1) p by (simp add: smart_routine_wait_def th_yield_def s0_def [symmetric] nxt_def split: option.splits)
qed


text \<open>The deferred callback, run where a jump arrives.\<close>

lemma set_delay_None:
  "same_coros s (set_delay 0 None s)" "th_inv (thr (set_delay 0 None s)) = th_inv (thr s)"
  "delay_of (set_delay 0 None s) = None"
  "tokens (set_delay 0 None s) = ready_tasks s + mset (sy_waiting s)"
  by (simp_all add: sys_updates same_coros_def th_inv_def tokens_def ready_tasks_def)

lemma delay_done_inv:
  assumes inv: "sched_inv s" and c: "delay_of s = Some cb" "pending (delay_of s) = {#c#}"
    and s': "same_coros s s'" "th_inv (thr s')" "ready_tasks s' + mset (sy_waiting s') = tokens s"
  shows "sched_inv (set_delay 0 None s')"
proof -
  note N = set_delay_None [of s']
  have "same_coros s (set_delay 0 None s')" using s'(1) N(1) by (simp add: same_coros_def)
  note S = same_coros_simps [OF this] same_coros_pc [OF this]
  show ?thesis
    using sched_invD [OF inv] s' N by (auto simp: sched_inv_def destroy_ok_def S)
qed

lemma run_delay_callback_inv:
  assumes inv: "sched_inv s" and pc: "\<not> at_loop s"
  shows "\<exists>s'. run_delay_callback 0 0 s = Inr s' \<and> sched_inv s' \<and> delay_of s' = None \<and>
    sy_pc s' = sy_pc s \<and> sy_frames s' = sy_frames s \<and> cur_of s' = cur_of s \<and> main_of s' = main_of s \<and>
    sy_coros s' (cur_of s) = sy_coros s (cur_of s)"
proof (cases "delay_of s")
  case None
  with inv show ?thesis by (simp add: run_delay_callback_def)
next
  case (Some cb)
  note D = sched_invD [OF inv]
  have wait: "\<exists>s'. run_delay_callback 0 0 s = Inr s' \<and> sched_inv s' \<and> delay_of s' = None \<and>
    sy_pc s' = sy_pc s \<and> sy_frames s' = sy_frames s \<and> cur_of s' = cur_of s \<and> main_of s' = main_of s \<and>
    sy_coros s' (cur_of s) = sy_coros s (cur_of s)"
    if c: "pending (delay_of s) = {#c#}" and e: "exec_callback 0 cb s = Inr s1" "same_coros s s1" "th_inv (thr s1)"
      "ready_tasks s1 + mset (sy_waiting s1) = tokens s" for c s1
    using delay_done_inv [OF inv Some c e(2,3,4)] set_delay_None [of s1] e(1) Some
      same_coros_simps [OF e(2)] same_coros_simps [OF set_delay_None(1) [of s1]]
    by (simp add: run_delay_callback_def)
  have ne: "sy_coros s c \<noteq> None" if "pending (delay_of s) = {#c#}" for c
    using D(4) [of c] that by (auto simp: tokens_def parked_def)
  have epoll: "same_coros s (s\<lparr>sy_waiting := sy_waiting s @ [c]\<rparr>)"
    "th_inv (thr (s\<lparr>sy_waiting := sy_waiting s @ [c]\<rparr>))"
    "pending (delay_of s) = {#c#} \<Longrightarrow> ready_tasks (s\<lparr>sy_waiting := sy_waiting s @ [c]\<rparr>) +
       mset (sy_waiting (s\<lparr>sy_waiting := sy_waiting s @ [c]\<rparr>)) = tokens s" for c
    using D(1) by (simp_all add: same_coros_def tokens_def ready_tasks_def)
  show ?thesis
  proof (cases cb)
    case (Add_back_to_queue c)
    then have p: "pending (delay_of s) = {#c#}" using Some by simp
    obtain s1 where s1: "sys_push_task 0 c s = Inr s1" "same_coros s s1" "th_inv (thr s1)"
      "delay_of s1 = delay_of s" "sy_waiting s1 = sy_waiting s" "tokens s1 = add_mset c (tokens s)"
      by (rule sys_push_task_ok [OF D(1)])
    have "ready_tasks s1 + mset (sy_waiting s1) = tokens s"
      using s1(4,6) p by (simp add: tokens_def)
    with wait [OF p _ s1(2,3)] s1(1) Add_back_to_queue show ?thesis by simp
  next
    case (Enable_epoll_reading c)
    then have p: "pending (delay_of s) = {#c#}" using Some by simp
    with wait [OF p _ epoll(1,2)] epoll(3) [OF p] ne [OF p] Enable_epoll_reading show ?thesis by auto
  next
    case (Enable_epoll_writing c)
    then have p: "pending (delay_of s) = {#c#}" using Some by simp
    with wait [OF p _ epoll(1,2)] epoll(3) [OF p] ne [OF p] Enable_epoll_writing show ?thesis by auto
  next
    case (Destroy_coro d)
    have d: "sy_coros s d \<noteq> None" "d \<noteq> main_of s" "d \<notin># tokens s" "d \<noteq> cur_of s"
      using D(6) Some Destroy_coro pc by (auto simp: destroy_ok_def)
    define s1 where "s1 = set_delay 0 None (s\<lparr>sy_coros := (sy_coros s)(d := None)\<rparr>)"
    have [simp]: "thr s1 = thr s\<lparr>th_delay_callback := None\<rparr>" "sy_coros s1 = (sy_coros s)(d := None)"
      "sy_frames s1 = sy_frames s" "sy_pc s1 = sy_pc s" "sy_next s1 = sy_next s"
      by (simp_all add: s1_def sys_updates)
    have t: "tokens s1 = tokens s"
      using Some Destroy_coro by (simp add: tokens_def ready_tasks_def s1_def sys_updates)
    have "pc_ok s1 (sy_pc s 0)"
      using D(7) d(4) by (cases "(s, sy_pc s 0)" rule: pc_ok.cases) (auto simp: user_frame_def)
    then have "sched_inv s1"
      using D d t by (auto simp: sched_inv_def destroy_ok_def th_inv_def parked_def main_saved_def)
    then show ?thesis
      using Some Destroy_coro d by (auto simp: run_delay_callback_def s1_def sys_updates)
  qed
qed


lemma set_pc_same:
  "thr (set_pc 0 p s) = thr s" "sy_coros (set_pc 0 p s) = sy_coros s" "sy_frames (set_pc 0 p s) = sy_frames s"
  "sy_next (set_pc 0 p s) = sy_next s" "tokens (set_pc 0 p s) = tokens s" "sy_pc (set_pc 0 p s) 0 = p"
  "sy_runtime (set_pc 0 p s) = sy_runtime s" "sy_waiting (set_pc 0 p s) = sy_waiting s"
  by (simp_all add: set_pc_def tokens_def ready_tasks_def)

lemma set_pc_ok: "pc_ok (set_pc 0 p s) p' = pc_ok s p'"
  by (cases "(s, p')" rule: pc_ok.cases) (simp_all add: set_pc_same user_frame_def)

lemma set_pc_inv:
  assumes "sched_inv s" "pc_ok s p"
    and "delay_of s = Some (Destroy_coro (cur_of s)) \<Longrightarrow> p = At_loop 0 (cur_of s)"
  shows "sched_inv (set_pc 0 p s)"
  using assms sched_invD [OF assms(1)]
  by (auto simp: sched_inv_def set_pc_same set_pc_ok parked_def main_saved_def destroy_ok_def at_loop_def)

lemma land_inv:
  assumes inv: "sched_inv s" and pc: "sy_pc s 0 = Landed k"
  shows "\<exists>s'. land 0 k s = Inr s' \<and> sched_inv s'"
proof -
  note D = sched_invD [OF inv]
  have nl: "\<not> at_loop s" using pc by (simp add: at_loop_def)
  then have nd: "delay_of s \<noteq> Some (Destroy_coro (cur_of s))" using D(6) by (auto simp: destroy_ok_def)
  obtain s1 where s1: "run_delay_callback 0 0 s = Inr s1" "sched_inv s1" "delay_of s1 = None"
      "sy_pc s1 = sy_pc s" "sy_frames s1 = sy_frames s" "cur_of s1 = cur_of s" "main_of s1 = main_of s"
      "sy_coros s1 (cur_of s) = sy_coros s (cur_of s)"
    using run_delay_callback_inv [OF inv nl] by blast
  show ?thesis
  proof (cases k)
    case (Entry p)
    then obtain oc where p: "p = cur_of s" "p \<noteq> main_of s" "sy_coros s p = Some oc" "co_fn oc"
      using D(7) pc by auto
    define s2 where "s2 = s1\<lparr>sy_frames := (sy_frames s1)(p := (0, p))\<rparr>"
    have [simp]: "thr s2 = thr s1" "sy_coros s2 = sy_coros s1" "sy_frames s2 = (sy_frames s1)(p := (0, p))"
      "sy_pc s2 = sy_pc s1" "sy_next s2 = sy_next s1" "tokens s2 = tokens s1"
      by (simp_all add: s2_def tokens_def ready_tasks_def)
    note D1 = sched_invD [OF s1(2)]
    have "sched_inv s2"
      using s1(2-) p pc Entry D1
      by (auto simp: sched_inv_def parked_def main_saved_def destroy_ok_def)
    moreover have "pc_ok s2 (In_user p)" using p s1 by (simp add: user_frame_def)
    ultimately have "sched_inv (set_pc 0 (In_user p) s2)"
      using s1(3) by (intro set_pc_inv) simp_all
    moreover have "land 0 k s = Inr (set_pc 0 (In_user p) s2)"
      using Entry p s1 by (simp add: coro_runner_begin_def Let_def s2_def)
    ultimately show ?thesis by blast
  next
    case (After_yield p)
    then have "pc_ok s (In_user p)" using D(7) pc by simp
    then show ?thesis using set_pc_inv [OF inv] nd After_yield by simp
  next
    case (After_loop this p)
    then have "this = 0" "pc_ok s1 (At_loop 0 p)" using D(7) pc s1 by auto
    then show ?thesis using set_pc_inv [OF s1(2)] s1 After_loop by simp
  qed
qed

lemma coro_runner_end_inv:
  assumes inv: "sched_inv s" and pc: "sy_pc s 0 = In_user p"
  shows "\<exists>s'. coro_runner_end 0 p s = Inr s' \<and> sched_inv s'"
proof -
  note D = sched_invD [OF inv]
  have p: "p = cur_of s" "cur_of s \<noteq> main_of s" "sy_frames s (cur_of s) = (0, cur_of s)"
    using D(7) pc by (auto simp: user_frame_def)
  define s1 where "s1 = set_pc 0 (At_loop 0 p) (set_delay 0 (Some (Destroy_coro p)) s)"
  have [simp]: "thr s1 = thr s\<lparr>th_delay_callback := Some (Destroy_coro p)\<rparr>" "sy_coros s1 = sy_coros s"
    "sy_frames s1 = sy_frames s" "sy_next s1 = sy_next s" "sy_pc s1 0 = At_loop 0 p"
    by (simp_all add: s1_def sys_updates)
  have sub: "tokens s1 \<subseteq># tokens s"
    by (simp add: s1_def tokens_def ready_tasks_def sys_updates)
  have "sched_inv s1"
    using D p uniq_sub [OF sub] mset_subset_eqD [OF sub]
    by (auto simp: sched_inv_def th_inv_def parked_def main_saved_def destroy_ok_def at_loop_def)
  then show ?thesis using p by (simp add: coro_runner_end_def s1_def)
qed

text \<open>A new token for a coroutine that is parked and nowhere else.\<close>

lemma add_token_inv:
  assumes inv: "sched_inv s" and c: "c \<notin># tokens s" "parked s c" "c \<noteq> cur_of s" "c \<noteq> main_of s"
      "delay_of s \<noteq> Some (Destroy_coro c)"
    and s': "same_coros s s'" "th_inv (thr s')" "delay_of s' = delay_of s" "tokens s' = add_mset c (tokens s)"
  shows "sched_inv s'"
  using sched_invD [OF inv] c s'
  by (auto simp: sched_inv_def destroy_ok_def same_coros_simps [OF s'(1)] same_coros_pc [OF s'(1)])

lemma resume_inv:
  assumes inv: "sched_inv s" and c: "c \<notin># tokens s" "parked s c" "c \<noteq> cur_of s" "c \<noteq> main_of s"
      "delay_of s \<noteq> Some (Destroy_coro c)" and tls: "tls = None \<or> tls = Some 0"
  shows "\<exists>s'. smart_routine_resume tls c s = Inr s' \<and> sched_inv s'"
proof (cases tls)
  case None
  let ?s = "s\<lparr>sy_runtime := snd (rt_push_task (sy_runtime s) c)\<rparr>"
  have "same_coros s ?s" "th_inv (thr ?s)" "delay_of ?s = delay_of s" "tokens ?s = add_mset c (tokens s)"
    using sched_invD(1) [OF inv]
    by (simp_all add: same_coros_def rt_push_task_def tokens_def ready_tasks_def)
  then have "sched_inv ?s" by (rule add_token_inv [OF inv c])
  then show ?thesis using None by (simp add: smart_routine_resume_def)
next
  case (Some t)
  obtain s1 where s1: "sys_push_task 0 c s = Inr s1" "same_coros s s1" "th_inv (thr s1)"
      "delay_of s1 = delay_of s" "sy_waiting s1 = sy_waiting s" "tokens s1 = add_mset c (tokens s)"
    by (rule sys_push_task_ok [OF sched_invD(1) [OF inv]])
  with add_token_inv [OF inv c s1(2-4,6)] Some tls show ?thesis by (simp add: smart_routine_resume_def)
qed

lemma smart_routine_start_inv:
  assumes inv: "sched_inv s" and tls: "tls = None \<or> tls = Some 0"
  shows "\<exists>s'. smart_routine_start tls s = Inr s' \<and> sched_inv s'"
proof -
  note D = sched_invD [OF inv]
  let ?c = "sy_next s"
  define s1 where "s1 = s\<lparr>sy_coros := (sy_coros s)(?c \<mapsto> \<lparr>co_fn = True, co_fcontext = Some (Entry ?c)\<rparr>),
    sy_next := Suc ?c\<rparr>"
  have [simp]: "thr s1 = thr s" "sy_frames s1 = sy_frames s" "sy_pc s1 = sy_pc s" "tokens s1 = tokens s"
      "sy_coros s1 = (sy_coros s)(?c \<mapsto> \<lparr>co_fn = True, co_fcontext = Some (Entry ?c)\<rparr>)"
      "sy_next s1 = Suc ?c"
    by (simp_all add: s1_def tokens_def ready_tasks_def)
  have n: "sy_coros s ?c = None" using D(8) by simp
  have c: "?c \<notin># tokens s" "?c \<noteq> cur_of s" "?c \<noteq> main_of s" "delay_of s \<noteq> Some (Destroy_coro ?c)"
    using n D(3,6,9) D(4) [of ?c] by (auto simp: parked_def destroy_ok_def)
  have "pc_ok s1 (sy_pc s 0)"
    using D(7) c(2) by (cases "(s, sy_pc s 0)" rule: pc_ok.cases) (auto simp: user_frame_def)
  then have "sched_inv s1"
    using D c by (auto simp: sched_inv_def parked_def main_saved_def destroy_ok_def at_loop_def)
  moreover have "parked s1 ?c" by (simp add: parked_def)
  ultimately have "\<exists>s'. smart_routine_resume tls ?c s1 = Inr s' \<and> sched_inv s'"
    using c tls by (intro resume_inv) simp_all
  then show ?thesis by (simp add: smart_routine_start_def Let_def s1_def)
qed

lemma resume_io_coro_inv:
  assumes inv: "sched_inv s" and w: "c \<in> set (sy_waiting s)"
  shows "\<exists>s'. resume_io_coro c s = Inr s' \<and> sched_inv s'"
proof -
  note D = sched_invD [OF inv]
  define s1 where "s1 = s\<lparr>sy_waiting := remove1 c (sy_waiting s)\<rparr>"
  have sc: "same_coros s s1" "thr s1 = thr s" by (simp_all add: s1_def same_coros_def)
  have t: "tokens s = add_mset c (tokens s1)"
    using w by (simp add: s1_def tokens_def ready_tasks_def)
  have c: "parked s c" "c \<noteq> cur_of s" "c \<noteq> main_of s" "c \<notin># tokens s1" "uniq (tokens s1)"
    using D(2) D(4) [of c] by (auto simp: t)
  have "sched_inv s1"
    using D c t by (auto simp: sched_inv_def destroy_ok_def same_coros_simps [OF sc(1)] same_coros_pc [OF sc(1)] sc(2))
  moreover have "delay_of s \<noteq> Some (Destroy_coro c)" using D(6) t by (auto simp: destroy_ok_def)
  ultimately have "\<exists>s'. smart_routine_resume None c s1 = Inr s' \<and> sched_inv s'"
    using c same_coros_simps [OF sc(1)] sc(2) by (intro resume_inv) simp_all
  then show ?thesis by (simp add: resume_io_coro_def s1_def)
qed

section \<open>Every step keeps the invariant\<close>

lemma perform_inv:
  assumes inv: "sched_inv s" and en: "enabled 1 ev s"
  shows "\<exists>s'. perform fl ev s = Inr s' \<and> sched_inv s'"
proof (cases ev)
  case (Wake t)
  with en have t: "t = 0" "sy_pc s 0 = Waiting" by auto
  moreover have "delay_of s \<noteq> Some (Destroy_coro (cur_of s))"
    using sched_invD(6) [OF inv] t(2) by (auto simp: destroy_ok_def at_loop_def)
  ultimately show ?thesis using set_pc_inv [OF inv, of "At_loop 0 (cur_of s)"] Wake
    by (simp add: leave_wait_def)
next
  case (Loop t)
  with en main_loop_round_inv [OF inv] show ?thesis by (cases "sy_pc s 0") auto
next
  case (Land t)
  with en land_inv [OF inv] show ?thesis by (cases "sy_pc s 0") auto
next
  case (Wait t w)
  with en smart_routine_wait_inv [OF inv] show ?thesis by (cases "sy_pc s 0") auto
next
  case (Return t)
  with en coro_runner_end_inv [OF inv] show ?thesis by (cases "sy_pc s 0") auto
next
  case (Start t)
  with en smart_routine_start_inv [OF inv, of "Some 0"] show ?thesis by (auto split: pc.splits)
next
  case Start_outside
  with smart_routine_start_inv [OF inv, of None] show ?thesis by simp
next
  case (Io_done c)
  with en resume_io_coro_inv [OF inv] show ?thesis by simp
qed

lemma sys_init_inv:
  assumes "ucast (FLAGS_task_queue_length fl) \<noteq> (0 :: uint32)"
  shows "sched_inv (sys_init fl 1)"
proof -
  have "th_inv (SmartThread_new fl 0)" "th_queue (SmartThread_new fl 0) = []"
    using SmartThread_new_ok [OF assms, of 0] by (simp_all add: th_inv_def)
  then show ?thesis
    by (simp add: sched_inv_def sys_init_def tokens_def ready_tasks_def destroy_ok_def)
      (simp add: SmartThread_new_def SmartRuntime_new_def)
qed

definition sched_init :: "flags \<Rightarrow> sys \<Rightarrow> bool" where
  "sched_init fl s \<longleftrightarrow> ucast (FLAGS_task_queue_length fl) \<noteq> (0 :: uint32) \<and> s = sys_init fl 1"

definition sched_step :: "flags \<Rightarrow> sys \<Rightarrow> sys \<Rightarrow> bool" where
  "sched_step fl s s' \<longleftrightarrow> sys_step fl 1 s (Inr s')"

interpretation sched: inv_system "sched_init fl" "sched_step fl" sched_inv for fl
proof (unfold_locales, goal_cases)
  case (1 s)
  then show ?case using sys_init_inv by (auto simp: sched_init_def)
next
  case (2 s s')
  then obtain ev where "enabled 1 ev s" "perform fl ev s = Inr s'"
    by (auto simp: sched_step_def sys_step_iff)
  with perform_inv [OF 2(1), of ev fl] show ?case by simp
qed


lemma sys_run_reaches:
  assumes "reaches (sched_init fl) (sched_step fl) s" "sys_run fl 1 evs s = Some (Inr s')"
  shows "reaches (sched_init fl) (sched_step fl) s'"
  using assms
proof (induction evs arbitrary: s)
  case (Cons ev evs)
  then obtain s1 where "enabled 1 ev s" "perform fl ev s = Inr s1" "sys_run fl 1 evs s1 = Some (Inr s')"
    by (auto split: if_splits sum.splits)
  moreover from this have "sched_step fl s s1"
    by (metis sched_step_def sys_step.event)
  ultimately show ?case using Cons by (blast intro: reaches.next_state)
qed simp

section \<open>Coroutines that are in no place any more\<close>

definition live :: "sys \<Rightarrow> coro set" where
  "live s = set_mset (tokens s) \<union> {cur_of s, main_of s}"

definition lost :: "sys \<Rightarrow> coro \<Rightarrow> bool" where
  "lost s d \<longleftrightarrow> d < sy_next s \<and> d \<in> dom (sy_coros s) \<and> d \<notin> live s \<and> delay_of s \<noteq> Some (Destroy_coro d)"

text \<open>What a step may change about a coroutine that is not live.\<close>

definition keeps_dead :: "sys \<Rightarrow> sys \<Rightarrow> bool" where
  "keeps_dead s s' \<longleftrightarrow> sy_next s \<le> sy_next s' \<and>
     (\<forall>d. d \<in> live s' \<longrightarrow> d \<in> live s \<or> sy_next s \<le> d) \<and>
     (\<forall>d. delay_of s' = Some (Destroy_coro d) \<longrightarrow> d \<in> live s \<or> delay_of s = Some (Destroy_coro d)) \<and>
     dom (sy_coros s) - {d. delay_of s = Some (Destroy_coro d)} \<subseteq> dom (sy_coros s')"

lemma keeps_dead_refl [simp]: "keeps_dead s s"
  by (auto simp: keeps_dead_def)

lemma keeps_dead_lost:
  assumes "keeps_dead s s'" "lost s d"
  shows "lost s' d"
proof -
  have "d \<in> dom (sy_coros s')" "d \<notin> live s'" "delay_of s' \<noteq> Some (Destroy_coro d)"
    using assms unfolding keeps_dead_def lost_def by (blast, auto)
  then show ?thesis using assms by (auto simp: keeps_dead_def lost_def)
qed

lemma switch_to_keeps:
  assumes "switch_to 0 0 here c s = Inr s'"
  shows "sy_next s' = sy_next s" "live s' \<subseteq> insert c (live s)" "delay_of s' = delay_of s"
    "dom (sy_coros s) \<subseteq> dom (sy_coros s')"
  using assms
  by (auto simp: switch_to_def Let_def sys_updates live_def tokens_def ready_tasks_def
      split: option.splits if_splits)

lemma get_task_keeps:
  assumes "th_inv (thr s)" "sys_get_task fl 0 s = Inr (r, s')"
  shows "sy_next s' = sy_next s" "live s' \<subseteq> live s" "delay_of s' = delay_of s" "sy_coros s' = sy_coros s"
    "main_of s' = main_of s" "cur_of s' = cur_of s" "\<And>c. r = Some c \<Longrightarrow> c \<in> live s"
proof -
  obtain r1 s1 where g: "sys_get_task fl 0 s = Inr (r1, s1)" "same_coros s s1" "th_inv (thr s1)"
    "delay_of s1 = delay_of s" "sy_waiting s1 = sy_waiting s"
    and t: "case r1 of None \<Rightarrow> tokens s1 = tokens s | Some c \<Rightarrow> add_mset c (tokens s1) \<subseteq># tokens s"
    by (rule sys_get_task_ok [OF assms(1)])
  have e: "r1 = r" "s1 = s'" using g(1) assms(2) by simp_all
  note S = same_coros_simps [OF g(2)]
  show "sy_next s' = sy_next s" "delay_of s' = delay_of s" "sy_coros s' = sy_coros s"
    "main_of s' = main_of s" "cur_of s' = cur_of s"
    using S g e by simp_all
  show "live s' \<subseteq> live s"
    using t S e by (auto simp: live_def split: option.splits dest: mset_subset_eqD)
  show "c \<in> live s" if "r = Some c" for c
    using t e that by (auto simp: live_def dest: mset_subset_eqD)
qed


lemma push_task_keeps:
  assumes "th_inv (thr s)" "sys_push_task 0 c s = Inr s'"
  shows "sy_next s' = sy_next s" "live s' \<subseteq> insert c (live s)" "delay_of s' = delay_of s"
    "sy_coros s' = sy_coros s"
proof -
  obtain s1 where g: "sys_push_task 0 c s = Inr s1" "same_coros s s1" "th_inv (thr s1)"
    "delay_of s1 = delay_of s" "sy_waiting s1 = sy_waiting s" "tokens s1 = add_mset c (tokens s)"
    by (rule sys_push_task_ok [OF assms(1)])
  then show "sy_next s' = sy_next s" "live s' \<subseteq> insert c (live s)" "delay_of s' = delay_of s"
    "sy_coros s' = sy_coros s"
    using assms(2) same_coros_simps [OF g(2)] by (auto simp: live_def)
qed

lemma run_delay_keeps:
  assumes "th_inv (thr s)" "run_delay_callback 0 0 s = Inr s'"
  shows "keeps_dead s s'"
proof (cases "delay_of s")
  case None
  with assms show ?thesis by (simp add: run_delay_callback_def)
next
  case (Some cb)
  then obtain s1 where e: "exec_callback 0 cb s = Inr s1" "s' = set_delay 0 None s1"
    using assms(2) by (auto simp: run_delay_callback_def bind_res_Inr_iff)
  have l: "live s' \<subseteq> live s1" "delay_of s' = None" "sy_next s' = sy_next s1" "sy_coros s' = sy_coros s1"
    by (auto simp: e(2) live_def sys_updates tokens_def ready_tasks_def)
  have K: "keeps_dead s s'" if "c \<in> live s" "live s1 \<subseteq> insert c (live s)" "sy_next s1 = sy_next s"
    "sy_coros s1 = sy_coros s" for c
    using that l unfolding keeps_dead_def by auto
  have E: "live (s\<lparr>sy_waiting := sy_waiting s @ [c]\<rparr>) \<subseteq> insert c (live s)" for c
    by (auto simp: live_def tokens_def ready_tasks_def)
  show ?thesis
  proof (cases cb)
    case (Add_back_to_queue c)
    then have "c \<in> live s" using Some by (simp add: live_def tokens_def)
    then show ?thesis
      by (rule K) (use push_task_keeps [OF assms(1), of c s1] e(1) Add_back_to_queue in simp_all)
  next
    case (Enable_epoll_reading c)
    then have "c \<in> live s" using Some by (simp add: live_def tokens_def)
    then show ?thesis
      by (rule K) (use e(1) E [of c] Enable_epoll_reading in \<open>auto split: if_splits\<close>)
  next
    case (Enable_epoll_writing c)
    then have "c \<in> live s" using Some by (simp add: live_def tokens_def)
    then show ?thesis
      by (rule K) (use e(1) E [of c] Enable_epoll_writing in \<open>auto split: if_splits\<close>)
  next
    case (Destroy_coro d)
    then have s1: "s1 = s\<lparr>sy_coros := (sy_coros s)(d := None)\<rparr>" using e(1) by (simp split: if_splits)
    then have "live s1 = live s" by (simp add: live_def tokens_def ready_tasks_def)
    then show ?thesis using s1 l Some Destroy_coro by (auto simp: keeps_dead_def)
  qed
qed

lemma resume_keeps:
  assumes "th_inv (thr s)" "tls = None \<or> tls = Some 0" "smart_routine_resume tls c s = Inr s'"
  shows "sy_next s' = sy_next s" "live s' \<subseteq> insert c (live s)" "delay_of s' = delay_of s"
    "sy_coros s' = sy_coros s"
proof -
  have "sy_next s' = sy_next s \<and> live s' \<subseteq> insert c (live s) \<and> delay_of s' = delay_of s \<and>
    sy_coros s' = sy_coros s"
  proof (cases tls)
    case None
    with assms(3) show ?thesis
      by (auto simp: smart_routine_resume_def rt_push_task_def live_def tokens_def ready_tasks_def)
  next
    case (Some t)
    with assms push_task_keeps [OF assms(1), of c s'] show ?thesis by (simp add: smart_routine_resume_def)
  qed
  then show "sy_next s' = sy_next s" "live s' \<subseteq> insert c (live s)" "delay_of s' = delay_of s"
    "sy_coros s' = sy_coros s" by blast+
qed

lemma set_delay_keeps:
  "live (set_delay 0 cb s) \<subseteq> live s \<union> set_mset (pending cb)" "delay_of (set_delay 0 cb s) = cb"
  "sy_next (set_delay 0 cb s) = sy_next s" "sy_coros (set_delay 0 cb s) = sy_coros s"
  "th_inv (thr (set_delay 0 cb s)) = th_inv (thr s)"
  by (auto simp: live_def sys_updates tokens_def ready_tasks_def th_inv_def)

lemma wait_keeps:
  assumes i: "th_inv (thr s)" "smart_routine_wait fl 0 p w s = Inr s'"
  shows "keeps_dead s s'"
proof -
  let ?s0 = "set_delay 0 (Some (wait_callback w (cur_of s))) s"
  obtain r s1 where g: "sys_get_task fl 0 ?s0 = Inr (r, s1)"
    and sw: "(case r of Some c \<Rightarrow> switch_to 0 0 (After_yield p) c s1
        | None \<Rightarrow> switch_to 0 0 (After_yield p) (main_of s1) s1) = Inr s'"
    using i(2) by (auto simp: smart_routine_wait_def th_yield_def bind_res_Inr_iff)
  have "th_inv (thr ?s0)" using i(1) by (simp add: set_delay_keeps)
  note G = get_task_keeps [OF this g]
  have l0: "live ?s0 \<subseteq> live s"
    by (rule subset_trans [OF set_delay_keeps(1)]) (cases w; simp add: live_def)
  have m: "main_of s1 \<in> live s1" by (simp add: live_def)
  obtain c where c: "switch_to 0 0 (After_yield p) c s1 = Inr s'" "c \<in> live ?s0"
    using sw G(2,7) m by (cases r) auto
  note S = switch_to_keeps [OF c(1)]
  have "\<forall>d. delay_of s' \<noteq> Some (Destroy_coro d)" using S(3) G(3) by (cases w) (simp_all add: set_delay_keeps)
  moreover have "live s' \<subseteq> live s" using S(2) G(2) c(2) l0 by blast
  moreover have "dom (sy_coros s) \<subseteq> dom (sy_coros s')" "sy_next s' = sy_next s"
    using S(1,4) G(1,4) by (simp_all add: set_delay_keeps)
  ultimately show ?thesis unfolding keeps_dead_def by auto
qed

lemma set_pc_keeps: "keeps_dead s (set_pc 0 p s') = keeps_dead s s'"
  by (simp add: keeps_dead_def live_def set_pc_same)

lemma loop_keeps:
  assumes i: "th_inv (thr s)" "main_loop_round fl 0 0 p s = Inr s'"
  shows "keeps_dead s s'"
proof -
  obtain r s1 where g: "sys_get_task fl 0 s = Inr (r, s1)"
    and sw: "(case r of None \<Rightarrow> Inr s1 | Some c \<Rightarrow> switch_to 0 0 (After_loop 0 p) c s1) = Inr s'"
    using i(2) by (auto simp: main_loop_round_def bind_res_Inr_iff)
  note G = get_task_keeps [OF i(1) g]
  show ?thesis
  proof (cases r)
    case None
    with sw G show ?thesis by (auto simp: keeps_dead_def)
  next
    case (Some c)
    then have "switch_to 0 0 (After_loop 0 p) c s1 = Inr s'" using sw by simp
    from switch_to_keeps [OF this] G Some show ?thesis by (auto simp: keeps_dead_def)
  qed
qed

lemma land_keeps:
  assumes i: "sched_inv s" "sy_pc s 0 = Landed k" "land 0 k s = Inr s'"
  shows "keeps_dead s s'"
proof -
  note D = sched_invD [OF i(1)]
  have R: "keeps_dead s s1" if "run_delay_callback 0 0 s = Inr s1" for s1
    using run_delay_keeps [OF D(1) that] .
  show ?thesis
  proof (cases k)
    case (Entry p)
    then obtain s1 where s1: "run_delay_callback 0 0 s = Inr s1" "cur_of s1 = cur_of s"
        "sy_coros s1 (cur_of s) = sy_coros s (cur_of s)"
      using run_delay_callback_inv [OF i(1)] i(2) by (auto simp: at_loop_def)
    obtain oc where "sy_coros s (cur_of s) = Some oc" "co_fn oc" using D(7) i(2) Entry by auto
    then have "s' = set_pc 0 (In_user p) (s1\<lparr>sy_frames := (sy_frames s1)(p := (0, cur_of s))\<rparr>)"
      using i(3) Entry s1 by (simp add: coro_runner_begin_def Let_def)
    moreover have "keeps_dead s (s1\<lparr>sy_frames := (sy_frames s1)(p := (0, cur_of s))\<rparr>) = keeps_dead s s1"
      by (simp add: keeps_dead_def live_def tokens_def ready_tasks_def)
    ultimately show ?thesis using R [OF s1(1)] by (simp add: set_pc_keeps)
  next
    case (After_yield p)
    then show ?thesis using i(3) by (auto simp: set_pc_keeps)
  next
    case (After_loop this p)
    then have "this = 0" using D(7) i(2) by simp
    with After_loop i(3) show ?thesis by (auto simp: bind_res_Inr_iff set_pc_keeps R)
  qed
qed

lemma start_keeps:
  assumes "th_inv (thr s)" "tls = None \<or> tls = Some 0" "smart_routine_start tls s = Inr s'"
  shows "keeps_dead s s'"
proof -
  let ?s1 = "s\<lparr>sy_coros := (sy_coros s)(sy_next s \<mapsto> \<lparr>co_fn = True, co_fcontext = Some (Entry (sy_next s))\<rparr>),
     sy_next := Suc (sy_next s)\<rparr>"
  have "smart_routine_resume tls (sy_next s) ?s1 = Inr s'" "th_inv (thr ?s1)"
    using assms by (simp_all add: smart_routine_start_def Let_def)
  from resume_keeps [OF this(2) assms(2) this(1)] show ?thesis
    by (auto simp: keeps_dead_def live_def tokens_def ready_tasks_def split: if_splits)
qed

lemma perform_keeps:
  assumes inv: "sched_inv s" and en: "enabled 1 ev s" and r: "perform fl ev s = Inr s'"
  shows "keeps_dead s s'"
proof (cases ev)
  case (Wake t)
  with en r show ?thesis by (auto simp: leave_wait_def set_pc_keeps)
next
  case (Loop t)
  with en r loop_keeps [OF sched_invD(1) [OF inv]] sched_invD(7) [OF inv] show ?thesis
    by (cases "sy_pc s 0") auto
next
  case (Land t)
  with en r land_keeps [OF inv] show ?thesis by (cases "sy_pc s 0") auto
next
  case (Wait t w)
  with en r wait_keeps [OF sched_invD(1) [OF inv]] show ?thesis by (cases "sy_pc s 0") auto
next
  case (Return t)
  then obtain p where p: "sy_pc s 0 = In_user p" "t = 0" using en by (cases "sy_pc s 0") auto
  then have f: "sy_frames s p = (0, cur_of s)" using sched_invD(7) [OF inv] by (simp add: user_frame_def)
  have "s' = set_pc 0 (At_loop 0 p) (set_delay 0 (Some (Destroy_coro (cur_of s))) s)"
    using r Return p f by (simp add: coro_runner_end_def)
  moreover have "keeps_dead s (set_delay 0 (Some (Destroy_coro (cur_of s))) s)"
    using set_delay_keeps(1) [of "Some (Destroy_coro (cur_of s))" s]
    by (auto simp: keeps_dead_def set_delay_keeps(2-)) (simp add: live_def)
  ultimately show ?thesis by (simp add: set_pc_keeps)
next
  case (Start t)
  with en r start_keeps [OF sched_invD(1) [OF inv], of "Some 0"] show ?thesis by (auto split: pc.splits)
next
  case Start_outside
  with r start_keeps [OF sched_invD(1) [OF inv], of None] show ?thesis by simp
next
  case (Io_done c)
  let ?s1 = "s\<lparr>sy_waiting := remove1 c (sy_waiting s)\<rparr>"
  have "tokens ?s1 \<subseteq># tokens s" by (simp add: tokens_def ready_tasks_def)
  then have "live ?s1 \<subseteq> live s" using set_mset_mono by (fastforce simp: live_def)
  moreover have "c \<in> live s" using en Io_done by (simp add: live_def tokens_def)
  moreover have "smart_routine_resume None c ?s1 = Inr s'" "th_inv (thr ?s1)"
    using r Io_done sched_invD(1) [OF inv] by (simp_all add: resume_io_coro_def)
  ultimately show ?thesis
    using resume_keeps [of ?s1 None c s'] by (auto simp: keeps_dead_def)
qed

lemma lost_forever:
  assumes "(sched_step fl)\<^sup>*\<^sup>* s t" "sched_inv s" "lost s d"
  shows "lost t d"
  using assms
proof (induction rule: rtranclp_induct)
  case (step t u)
  then obtain ev where "enabled 1 ev t" "perform fl ev t = Inr u"
    by (auto simp: sched_step_def sys_step_iff)
  moreover have "sched_inv t" using step sched.rtranclp_inv by blast
  ultimately show ?case using step perform_keeps keeps_dead_lost by blast
qed


section \<open>Properties\<close>

abbreviation sched_reaches :: "flags \<Rightarrow> sys \<Rightarrow> bool" where
  "sched_reaches fl \<equiv> reaches (sched_init fl) (sched_step fl)"

lemma reaches_sched_inv: "sched_reaches fl s \<Longrightarrow> sched_inv s"
  by (rule sched.reaches_inv)

lemma default_start: "sched_reaches default_flags (sys_init default_flags 1)"
  by (rule reaches.start) (simp add: sched_init_def default_flags_def)

text \<open>A run in which one coroutine is started, gets the thread and is in its entry function.\<close>

definition one_running :: "event list" where
  "one_running = [Start_outside, Wake 0, Loop 0, Land 0]"

definition default_run :: "nat \<Rightarrow> event list \<Rightarrow> sys res option" where
  "default_run n evs = sys_run default_flags n evs (sys_init default_flags n)"

lemma default_run_reaches: "default_run 1 evs = Some (Inr s) \<Longrightarrow> sched_reaches default_flags s"
  unfolding default_run_def by (rule sys_run_reaches [OF default_start])

lemma one_running_state:
  obtains s where "default_run 1 one_running = Some (Inr s)" "sy_pc s 0 = In_user 1" "cur_of s = 1"
    "sched_reaches default_flags s"
proof -
  have "case default_run 1 one_running of Some (Inr s) \<Rightarrow> sy_pc s 0 = In_user 1 \<and> cur_of s = 1 | _ \<Rightarrow> False"
    by code_simp
  then show thesis
    using that default_run_reaches by (auto split: option.splits sum.splits)
qed

text \<open>C4. One scheduler thread is memory safe: in every state it can reach, whatever the
  coroutines do (start others, yield, block on I/O, return) and however the epoll thread and
  outside threads interleave with it, no step uses a deleted coroutine or stack, jumps to the
  context of a running coroutine, or accesses the task queue out of bounds.\<close>

theorem scheduler_memory_safe:
  assumes "sched_reaches fl s"
  shows "\<not> sys_step fl 1 s (Inl u)"
proof
  assume "sys_step fl 1 s (Inl u)"
  then obtain ev where ev: "enabled 1 ev s" "perform fl ev s = Inl u"
    by (auto simp: sys_step_iff)
  with perform_inv [OF reaches_sched_inv [OF assms] ev(1), of fl] show False by simp
qed

theorem scheduler_memory_safe_witness:
  "\<exists>s. sched_reaches default_flags s \<and> sy_pc s 0 = In_user 1 \<and>
    \<not> sys_step default_flags 1 s (Inl UseAfterFree) \<and> \<not> sys_step default_flags 1 s (Inl StaleContext)"
  using scheduler_memory_safe one_running_state by metis

text \<open>C5. One scheduler thread never runs a coroutine twice at a time: in every reachable
  state a coroutine that is queued, waits for I/O or is announced by the deferred callback is
  so exactly once, it is neither the running nor the main coroutine, and its object holds a
  context of its own stack, saved before it became visible to the other threads.\<close>

theorem coroutine_in_one_place:
  assumes "sched_reaches fl s" "c \<in># tokens s"
  shows "count (tokens s) c = 1 \<and> c \<noteq> cur_of s \<and> c \<noteq> main_of s \<and>
    (\<exists>oc k. sy_coros s c = Some oc \<and> co_fcontext oc = Some k \<and> stack_of k = c)"
proof -
  note D = sched_invD [OF reaches_sched_inv [OF assms(1)]]
  have "count (tokens s) c \<le> 1" using D(2) by (simp add: uniq_def)
  moreover have "0 < count (tokens s) c" using assms(2) by (simp add: count_greater_zero_iff)
  ultimately have "count (tokens s) c = 1" by linarith
  with D(4) [OF assms(2)] show ?thesis by (auto simp: parked_def)
qed

theorem coroutine_in_one_place_witness:
  "\<exists>s. sched_reaches default_flags s \<and> count (tokens s) 1 = 1 \<and> 1 \<noteq> cur_of s"
proof -
  have "case default_run 1 [Start_outside] of Some (Inr s) \<Rightarrow> 1 \<in># tokens s | _ \<Rightarrow> False"
    by code_simp
  then obtain s where s: "default_run 1 [Start_outside] = Some (Inr s)" "1 \<in># tokens s"
    by (auto split: option.splits sum.splits)
  from coroutine_in_one_place [OF default_run_reaches [OF s(1)] s(2)] default_run_reaches [OF s(1)]
  show ?thesis by blast
qed

text \<open>C9. What the deferred callback promises holds when the jump arrives in a new coroutine or
  in the main loop: a coroutine that waits is then announced in the way it asked for, in the
  task lists after \<open>smart_routine_yield\<close>, with epoll after a blocking read or write.\<close>

theorem wait_announced:
  assumes "sched_reaches fl s" "sy_pc s 0 = In_user p"
    and "smart_routine_wait fl 0 p w s = Inr s1" "sy_pc s1 0 = Landed k"
    and "\<nexists>q. k = After_yield q" "land 0 k s1 = Inr s2"
  shows "if w = By_yield then p \<in># ready_tasks s2 else p \<in> set (sy_waiting s2)"
proof -
  note inv = reaches_sched_inv [OF assms(1)]
  have p: "p = cur_of s" using sched_invD(7) [OF inv] assms(2) by simp
  let ?cb = "Some (wait_callback w p)"
  let ?s0 = "set_delay 0 ?cb s"
  obtain r sg c where g: "sys_get_task fl 0 ?s0 = Inr (r, sg)"
    and sw: "switch_to 0 0 (After_yield p) c sg = Inr s1"
    using assms(3) p by (auto simp: smart_routine_wait_def th_yield_def bind_res_Inr_iff split: option.splits)
  have "th_inv (thr ?s0)" using sched_invD(1) [OF inv] by (simp add: set_delay_keeps)
  then have d: "delay_of s1 = ?cb"
    using switch_to_keeps(3) [OF sw] get_task_keeps(3) [OF _ g] by (simp add: set_delay_keeps)
  have inv1: "sched_inv s1" using smart_routine_wait_inv [OF inv assms(2), of fl w] assms(3) by simp
  then obtain sd where sd: "run_delay_callback 0 0 s1 = Inr sd" "cur_of sd = cur_of s1"
      "sy_coros sd (cur_of s1) = sy_coros s1 (cur_of s1)"
    using run_delay_callback_inv [of s1] assms(4) by (auto simp: at_loop_def)
  have "if w = By_yield then p \<in># ready_tasks sd else p \<in> set (sy_waiting sd)"
  proof (cases w)
    case By_yield
    then obtain se where e: "sys_push_task 0 p s1 = Inr se" "sd = set_delay 0 None se"
      using sd(1) d by (auto simp: run_delay_callback_def bind_res_Inr_iff)
    obtain sf where f: "sys_push_task 0 p s1 = Inr sf" "same_coros s1 sf" "th_inv (thr sf)"
      "delay_of sf = delay_of s1" "sy_waiting sf = sy_waiting s1" "tokens sf = add_mset p (tokens s1)"
      by (rule sys_push_task_ok [OF sched_invD(1) [OF inv1]])
    then have "ready_tasks se = add_mset p (ready_tasks s1)" using e(1) by (simp add: tokens_def)
    then show ?thesis using By_yield e(2) by (simp add: sys_updates ready_tasks_def)
  qed (use sd(1) d in \<open>auto simp: run_delay_callback_def bind_res_Inr_iff sys_updates split: if_splits\<close>)
  moreover have "ready_tasks s2 = ready_tasks sd \<and> sy_waiting s2 = sy_waiting sd"
  proof (cases k)
    case (Entry q)
    then have "\<exists>oc. sy_coros s1 (cur_of s1) = Some oc \<and> co_fn oc"
      using sched_invD(7) [OF inv1] assms(4) by auto
    with Entry assms(6) sd show ?thesis
      by (auto simp: coro_runner_begin_def Let_def set_pc_def ready_tasks_def)
  next
    case (After_loop this q)
    then have "this = 0" using sched_invD(7) [OF inv1] assms(4) by simp
    with After_loop assms(6) sd show ?thesis by (auto simp: set_pc_def ready_tasks_def)
  qed (use assms(5) in blast)
  ultimately show ?thesis by simp
qed

theorem wait_announced_witness:
  "\<exists>s s1 s2. sched_reaches default_flags s \<and> smart_routine_wait default_flags 0 1 By_read s = Inr s1 \<and>
    land 0 (After_loop 0 0) s1 = Inr s2 \<and> 1 \<in> set (sy_waiting s2)"
proof -
  have c: "case default_run 1 one_running of Some (Inr s) \<Rightarrow> sy_pc s 0 = In_user 1 \<and>
      (case smart_routine_wait default_flags 0 1 By_read s of Inr s1 \<Rightarrow> sy_pc s1 0 = Landed (After_loop 0 0) \<and>
        (case land 0 (After_loop 0 0) s1 of Inr s2 \<Rightarrow> True | _ \<Rightarrow> False) | _ \<Rightarrow> False) | _ \<Rightarrow> False"
    by code_simp
  then obtain s s1 s2 where s: "default_run 1 one_running = Some (Inr s)" "sy_pc s 0 = In_user 1"
      "smart_routine_wait default_flags 0 1 By_read s = Inr s1" "sy_pc s1 0 = Landed (After_loop 0 0)"
      "land 0 (After_loop 0 0) s1 = Inr s2"
    by (auto split: option.splits sum.splits)
  from wait_announced [OF default_run_reaches [OF s(1)] s(2-4) _ s(5)] s default_run_reaches [OF s(1)]
  show ?thesis by auto
qed


text \<open>C8. The callback is deferred too long when the jump arrives in a coroutine that had
  yielded: \<open>yield\<close> returns without running it. If that coroutine waits next, its own callback
  overwrites the one still pending, and the coroutine the old one announced is lost: it is
  neither deleted nor in any place, and no later step of the program runs it again.\<close>

theorem overwritten_callback_loses_coroutine:
  assumes "sched_reaches fl s" "sy_pc s 0 = In_user p" "d \<in># pending (delay_of s)"
    and "smart_routine_wait fl 0 p w s = Inr s1"
  shows "sy_coros s1 d \<noteq> None \<and> d \<notin># tokens s1 \<and> d \<notin> cur_of ` {t. (sched_step fl)\<^sup>*\<^sup>* s1 t}"
proof -
  note inv = reaches_sched_inv [OF assms(1)]
  note D = sched_invD [OF inv]
  have p: "p = cur_of s" using D(7) assms(2) by simp
  let ?s0 = "set_delay 0 (Some (wait_callback w p)) s"
  have pd: "pending (delay_of s) = {#d#}"
    using assms(3) by (cases "delay_of s" rule: pending.cases) auto
  have d: "d \<in># tokens s" "d \<notin># ready_tasks s + mset (sy_waiting s)"
    using D(2) by (auto simp: tokens_def pd)
  then have dn: "parked s d" "d \<noteq> p" "d \<noteq> main_of s" using D(4) p by auto
  have pw: "pending (Some (wait_callback w p)) = {#p#}" by (cases w) simp_all
  have "tokens ?s0 = ready_tasks s + mset (sy_waiting s) + {#p#}"
    by (simp add: tokens_def ready_tasks_def sys_updates pw)
  then have d0: "d \<notin> live ?s0"
    using d(2) dn p by (auto simp: live_def sys_updates)
  obtain r sg c where g: "sys_get_task fl 0 ?s0 = Inr (r, sg)"
    and sw: "switch_to 0 0 (After_yield p) c sg = Inr s1" "r = Some c \<or> c = main_of sg"
    using assms(4) p by (auto simp: smart_routine_wait_def th_yield_def bind_res_Inr_iff split: option.splits)
  have "th_inv (thr ?s0)" using D(1) by (simp add: set_delay_keeps)
  note G = get_task_keeps [OF this g]
  note S = switch_to_keeps [OF sw(1)]
  have "c \<in> live ?s0" using sw(2) G(5,7) by (auto simp: live_def)
  then have live1: "d \<notin> live s1" using S(2) G(2) d0 by blast
  have dom: "d \<in> dom (sy_coros s)" using dn(1) by (auto simp: parked_def)
  then have "d < sy_next s" using D(8) by (auto simp: not_le [symmetric])
  moreover have "delay_of s1 \<noteq> Some (Destroy_coro d)"
    using S(3) G(3) by (cases w) (simp_all add: set_delay_keeps)
  ultimately have "lost s1 d"
    using S(1,4) G(1,4) dom live1 by (auto simp: lost_def set_delay_keeps)
  moreover have "sched_inv s1" using smart_routine_wait_inv [OF inv assms(2), of fl w] assms(4) by simp
  ultimately have "\<forall>t. (sched_step fl)\<^sup>*\<^sup>* s1 t \<longrightarrow> d \<noteq> cur_of t"
    using lost_forever by (fastforce simp: lost_def live_def)
  then show ?thesis using \<open>lost s1 d\<close> by (auto simp: lost_def live_def)
qed

text \<open>Two coroutines that yield in turn: when the first gets the thread back, the second's
  callback is pending.\<close>

definition two_yielding :: "event list" where
  "two_yielding = [Start_outside, Start_outside, Wake 0, Loop 0, Land 0,
     Wait 0 By_yield, Land 0, Wait 0 By_yield, Land 0]"

lemma two_yielding_state:
  obtains s s1 where "sched_reaches default_flags s" "sy_pc s 0 = In_user 1"
    "delay_of s = Some (Add_back_to_queue 2)" "smart_routine_wait default_flags 0 1 By_yield s = Inr s1"
    "default_run 1 two_yielding = Some (Inr s)"
proof -
  have "case default_run 1 two_yielding of Some (Inr s) \<Rightarrow> sy_pc s 0 = In_user 1 \<and>
      delay_of s = Some (Add_back_to_queue 2) \<and>
      (case smart_routine_wait default_flags 0 1 By_yield s of Inr s1 \<Rightarrow> True | _ \<Rightarrow> False) | _ \<Rightarrow> False"
    by code_simp
  then show thesis
    using that default_run_reaches by (auto split: option.splits sum.splits)
qed

theorem overwritten_callback_loses_coroutine_witness:
  "\<exists>s s1. default_run 1 two_yielding = Some (Inr s) \<and>
    smart_routine_wait default_flags 0 1 By_yield s = Inr s1 \<and>
    sy_coros s1 2 \<noteq> None \<and> 2 \<notin> cur_of ` {t. (sched_step default_flags)\<^sup>*\<^sup>* s1 t}"
proof -
  obtain s s1 where s: "sched_reaches default_flags s" "sy_pc s 0 = In_user 1"
    "delay_of s = Some (Add_back_to_queue 2)" "smart_routine_wait default_flags 0 1 By_yield s = Inr s1"
    "default_run 1 two_yielding = Some (Inr s)"
    by (rule two_yielding_state)
  from overwritten_callback_loses_coroutine [OF s(1,2) _ s(4), of 2] s show ?thesis by simp
qed


end
