(* ===== verification/EPoll.thy ===== *)
theory EPoll
  imports Smart_Flags
begin

text \<open>
  The event loop: \<open>EPollItem\<close> (\<open>include/epoll_item.h\<close>, \<open>src/epoll_item.cpp\<close>) and
  \<open>SmartEPoller\<close> (\<open>src/smart_epoller.cpp\<close>).

  The items are objects of the stacks of waiting coroutines, so the model keeps them in a store
  from addresses, and an access to an address that is no longer there is a use after free.
  The kernel is outside the sources: \<open>epoll_ctl\<close> is an argument \<open>ctl\<close>, a function on the
  interest list (from descriptors to the registered event mask and pointer), and what
  the manual page of \<open>epoll_ctl\<close> says of it is the hypothesis \<open>epoll_ctl_spec\<close>. What
  \<open>epoll_wait\<close> returns is an argument of a round of the loop. A callback is a value that an
  argument \<open>exec\<close> runs.
\<close>

unbundle bit_operations_syntax

section \<open>Items\<close>

abbreviation EPOLLIN :: uint32 where "EPOLLIN \<equiv> 0x001"
abbreviation EPOLLPRI :: uint32 where "EPOLLPRI \<equiv> 0x002"
abbreviation EPOLLOUT :: uint32 where "EPOLLOUT \<equiv> 0x004"
abbreviation EPOLLERR :: uint32 where "EPOLLERR \<equiv> 0x008"
abbreviation EPOLLHUP :: uint32 where "EPOLLHUP \<equiv> 0x010"
abbreviation EPOLLRDHUP :: uint32 where "EPOLLRDHUP \<equiv> 0x2000"

type_synonym fd = int
type_synonym item_ptr = nat

record 'cb epoll_item =
  it_fd :: fd
  it_events :: uint32
  it_revents :: uint32
  it_read_callback :: "'cb option"
  it_write_callback :: "'cb option"
  it_close_callback :: "'cb option"
  it_error_callback :: "'cb option"
  it_watching :: bool

definition EPollItem_new :: "fd \<Rightarrow> 'cb epoll_item" where
  "EPollItem_new fd = \<lparr>it_fd = fd, it_events = 0, it_revents = 0, it_read_callback = None,
     it_write_callback = None, it_close_callback = None, it_error_callback = None, it_watching = False\<rparr>"

definition is_writing :: "'cb epoll_item \<Rightarrow> bool" where
  "is_writing it \<longleftrightarrow> it_events it AND EPOLLOUT \<noteq> 0"

definition is_reading :: "'cb epoll_item \<Rightarrow> bool" where
  "is_reading it \<longleftrightarrow> it_events it AND EPOLLIN \<noteq> 0"

definition is_disabled :: "'cb epoll_item \<Rightarrow> bool" where
  "is_disabled it \<longleftrightarrow> it_events it = 0"

definition set_read_callback :: "'cb \<Rightarrow> 'cb epoll_item \<Rightarrow> 'cb epoll_item" where
  [simp]: "set_read_callback cb it = it\<lparr>it_read_callback := Some cb\<rparr>"

definition set_write_callback :: "'cb \<Rightarrow> 'cb epoll_item \<Rightarrow> 'cb epoll_item" where
  [simp]: "set_write_callback cb it = it\<lparr>it_write_callback := Some cb\<rparr>"

definition set_close_callback :: "'cb \<Rightarrow> 'cb epoll_item \<Rightarrow> 'cb epoll_item" where
  [simp]: "set_close_callback cb it = it\<lparr>it_close_callback := Some cb\<rparr>"

definition set_error_callback :: "'cb \<Rightarrow> 'cb epoll_item \<Rightarrow> 'cb epoll_item" where
  [simp]: "set_error_callback cb it = it\<lparr>it_error_callback := Some cb\<rparr>"

definition set_revents :: "uint32 \<Rightarrow> 'cb epoll_item \<Rightarrow> 'cb epoll_item" where
  [simp]: "set_revents revents it = it\<lparr>it_revents := revents\<rparr>"

definition set_watching :: "'cb epoll_item \<Rightarrow> 'cb epoll_item" where
  [simp]: "set_watching it = it\<lparr>it_watching := True\<rparr>"

definition clear_watching :: "'cb epoll_item \<Rightarrow> 'cb epoll_item" where
  [simp]: "clear_watching it = it\<lparr>it_watching := False\<rparr>"

section \<open>The poller\<close>

datatype ctl_op = EPOLL_CTL_ADD | EPOLL_CTL_MOD | EPOLL_CTL_DEL

type_synonym epoll_event = "uint32 \<times> item_ptr option"
type_synonym interest = "fd \<rightharpoonup> uint32 \<times> item_ptr"
type_synonym epoll_ctl = "interest \<Rightarrow> ctl_op \<Rightarrow> fd \<Rightarrow> (uint32 \<times> item_ptr) option \<Rightarrow> int \<times> interest"

record 'cb epoller =
  ep_interest :: interest                    \<comment> \<open>the kernel's side of \<open>epoll_fd_\<close>\<close>
  ep_maxevents :: int
  ep_evlist :: "epoll_event list option"
  ep_ready_list :: "item_ptr list"
  ep_timeout :: int
  ep_items :: "item_ptr \<rightharpoonup> 'cb epoll_item"    \<comment> \<open>the live items\<close>

definition SmartEPoller_new :: "'cb epoller" where
  "SmartEPoller_new = \<lparr>ep_interest = (\<lambda>_. None), ep_maxevents = 10000, ep_evlist = None,
     ep_ready_list = [], ep_timeout = -1, ep_items = (\<lambda>_. None)\<rparr>"

text \<open>\<open>maxevents_\<close> is an \<open>int\<close>, the flag has 64 bits. The error of \<open>new[]\<close> for a negative
  size is the value \<open>None\<close>.\<close>

definition SmartEPoller_init :: "flags \<Rightarrow> int \<Rightarrow> ('cb, 'x) epoller_scheme \<Rightarrow> (int \<times> ('cb, 'x) epoller_scheme) option" where
  "SmartEPoller_init fl create_ret ep =
     (if create_ret < 0 then Some (-1, ep)
      else let ep1 = (if FLAGS_evlist_size fl > 0
                      then ep\<lparr>ep_maxevents := signed_take_bit 31 (FLAGS_evlist_size fl)\<rparr> else ep)
           in if ep_maxevents ep1 < 0 then None
              else Some (0, ep1\<lparr>ep_evlist := Some (replicate (nat (ep_maxevents ep1)) (0, None))\<rparr>))"

definition deref_item :: "item_ptr \<Rightarrow> ('cb, 'x) epoller_scheme \<Rightarrow> 'cb epoll_item res" where
  "deref_item p ep = (case ep_items ep p of None \<Rightarrow> Inl UseAfterFree | Some it \<Rightarrow> Inr it)"

definition put_item :: "item_ptr \<Rightarrow> 'cb epoll_item \<Rightarrow> ('cb, 'x) epoller_scheme \<Rightarrow> ('cb, 'x) epoller_scheme" where
  "put_item p it ep = ep\<lparr>ep_items := (ep_items ep)(p \<mapsto> it)\<rparr>"

definition watch_event :: "epoll_ctl \<Rightarrow> item_ptr \<Rightarrow> ('cb, 'x) epoller_scheme \<Rightarrow> (int \<times> ('cb, 'x) epoller_scheme) res" where
  "watch_event ctl p ep =
     bind_res (deref_item p ep) (\<lambda>it.
       if it_watching it then
         if is_disabled it then
           let (ret, m) = ctl (ep_interest ep) EPOLL_CTL_DEL (it_fd it) None
           in Inr (ret, put_item p (clear_watching it) (ep\<lparr>ep_interest := m\<rparr>))
         else
           let (ret, m) = ctl (ep_interest ep) EPOLL_CTL_MOD (it_fd it) (Some (it_events it, p))
           in Inr (ret, ep\<lparr>ep_interest := m\<rparr>)
       else
         let (ret, m) = ctl (ep_interest ep) EPOLL_CTL_ADD (it_fd it) (Some (it_events it, p))
         in Inr (ret, put_item p (set_watching it) (ep\<lparr>ep_interest := m\<rparr>)))"

text \<open>\<open>update\<close> ignores the result of \<open>watch_event\<close>.\<close>

definition update_events :: "epoll_ctl \<Rightarrow> (uint32 \<Rightarrow> uint32) \<Rightarrow> item_ptr \<Rightarrow> ('cb, 'x) epoller_scheme \<Rightarrow> ('cb, 'x) epoller_scheme res" where
  "update_events ctl f p ep =
     bind_res (deref_item p ep) (\<lambda>it.
     bind_res (watch_event ctl p (put_item p (it\<lparr>it_events := f (it_events it)\<rparr>) ep)) (\<lambda>(_, ep'). Inr ep'))"

definition enable_reading :: "epoll_ctl \<Rightarrow> item_ptr \<Rightarrow> ('cb, 'x) epoller_scheme \<Rightarrow> ('cb, 'x) epoller_scheme res" where
  "enable_reading ctl = update_events ctl (\<lambda>e. e OR EPOLLIN)"

definition disable_reading :: "epoll_ctl \<Rightarrow> item_ptr \<Rightarrow> ('cb, 'x) epoller_scheme \<Rightarrow> ('cb, 'x) epoller_scheme res" where
  "disable_reading ctl = update_events ctl (\<lambda>e. e AND NOT EPOLLIN)"

definition enable_writing :: "epoll_ctl \<Rightarrow> item_ptr \<Rightarrow> ('cb, 'x) epoller_scheme \<Rightarrow> ('cb, 'x) epoller_scheme res" where
  "enable_writing ctl = update_events ctl (\<lambda>e. e OR EPOLLOUT)"

definition disable_writing :: "epoll_ctl \<Rightarrow> item_ptr \<Rightarrow> ('cb, 'x) epoller_scheme \<Rightarrow> ('cb, 'x) epoller_scheme res" where
  "disable_writing ctl = update_events ctl (\<lambda>e. e AND NOT EPOLLOUT)"

definition disable_all :: "epoll_ctl \<Rightarrow> item_ptr \<Rightarrow> ('cb, 'x) epoller_scheme \<Rightarrow> ('cb, 'x) epoller_scheme res" where
  "disable_all ctl = update_events ctl (\<lambda>_. 0)"

section \<open>Dispatch\<close>

text \<open>
  One test of \<open>handle_events\<close>. The item is read anew for each test: the callback before it may
  have resumed the coroutine that owns the item.
\<close>

definition handle_one ::
  "('cb \<Rightarrow> ('cb, 'x) epoller_scheme \<Rightarrow> ('cb, 'x) epoller_scheme res) \<Rightarrow> uint32 \<Rightarrow> ('cb epoll_item \<Rightarrow> 'cb option) \<Rightarrow>
   item_ptr \<Rightarrow> ('cb, 'x) epoller_scheme \<Rightarrow> ('cb, 'x) epoller_scheme res" where
  "handle_one exec bits callback p ep =
     bind_res (deref_item p ep) (\<lambda>it.
       if it_revents it AND bits \<noteq> 0
       then (case callback it of None \<Rightarrow> Inr ep | Some cb \<Rightarrow> exec cb ep)
       else Inr ep)"

definition handle_events ::
  "('cb \<Rightarrow> ('cb, 'x) epoller_scheme \<Rightarrow> ('cb, 'x) epoller_scheme res) \<Rightarrow> item_ptr \<Rightarrow> ('cb, 'x) epoller_scheme \<Rightarrow> ('cb, 'x) epoller_scheme res" where
  "handle_events exec p ep =
     bind_res (handle_one exec EPOLLHUP it_close_callback p ep) (\<lambda>ep1.
     bind_res (handle_one exec EPOLLERR it_error_callback p ep1) (\<lambda>ep2.
     bind_res (handle_one exec (EPOLLIN OR EPOLLPRI OR EPOLLRDHUP) it_read_callback p ep2) (\<lambda>ep3.
     handle_one exec EPOLLOUT it_write_callback p ep3)))"

text \<open>The events of one \<open>epoll_wait\<close> are stored in the items, null pointers skipped.\<close>

fun collect_ready :: "epoll_event list \<Rightarrow> ('cb, 'x) epoller_scheme \<Rightarrow> ('cb, 'x) epoller_scheme res" where
  "collect_ready [] ep = Inr ep"
| "collect_ready ((events, ptr) # evs) ep =
     (case ptr of None \<Rightarrow> collect_ready evs ep
      | Some p \<Rightarrow> bind_res (deref_item p ep) (\<lambda>it.
          collect_ready evs ((put_item p (set_revents events it) ep)
            \<lparr>ep_ready_list := ep_ready_list ep @ [p]\<rparr>)))"

fun dispatch_ready ::
  "('cb \<Rightarrow> ('cb, 'x) epoller_scheme \<Rightarrow> ('cb, 'x) epoller_scheme res) \<Rightarrow> item_ptr list \<Rightarrow> ('cb, 'x) epoller_scheme \<Rightarrow> ('cb, 'x) epoller_scheme res" where
  "dispatch_ready exec [] ep = Inr ep"
| "dispatch_ready exec (p # ps) ep = bind_res (handle_events exec p ep) (dispatch_ready exec ps)"

abbreviation EINTR :: int where "EINTR \<equiv> 4"

text \<open>
  One round of \<open>eventloop\<close>: \<open>epoll_wait\<close> returned \<open>ready_num\<close> (and \<open>err\<close> in \<open>errno\<close>) and
  stored \<open>evs\<close> in \<open>evlist_\<close>. The first component is \<open>Some (-1)\<close> when the loop is left.
\<close>

definition eventloop_round ::
  "('cb \<Rightarrow> ('cb, 'x) epoller_scheme \<Rightarrow> ('cb, 'x) epoller_scheme res) \<Rightarrow> int \<Rightarrow> int \<Rightarrow> epoll_event list \<Rightarrow> ('cb, 'x) epoller_scheme \<Rightarrow>
   (int option \<times> ('cb, 'x) epoller_scheme) res" where
  "eventloop_round exec ready_num err evs ep =
     (if ready_num < 0 \<and> err \<noteq> EINTR then Inr (Some (-1), ep)
      else bind_res
        (if ready_num \<le> 0 then Inr ep
         else case ep_evlist ep of None \<Rightarrow> Inl NullDeref
           | Some evlist \<Rightarrow> bind_res (mem_write evlist 0 evs) (\<lambda>evlist'.
               bind_res (mem_read evlist' 0 (nat ready_num)) (\<lambda>ready.
                 collect_ready ready (ep\<lparr>ep_evlist := Some evlist', ep_ready_list := []\<rparr>))))
        (\<lambda>ep1. bind_res (dispatch_ready exec (ep_ready_list ep1) ep1) (\<lambda>ep2. Inr (None, ep2))))"

section \<open>The kernel's interest list follows the items\<close>

text \<open>
  What the manual page says of \<open>epoll_ctl\<close>: adding a descriptor that is registered fails
  (\<open>EEXIST\<close>), as does changing or removing one that is not (\<open>ENOENT\<close>), and adding one that
  cannot be polled (\<open>EPERM\<close>); a failed call changes nothing.
\<close>

definition epoll_ctl_spec :: "epoll_ctl \<Rightarrow> (fd \<Rightarrow> bool) \<Rightarrow> bool" where
  "epoll_ctl_spec ctl pollable \<longleftrightarrow>
     (\<forall>m fd ev. ctl m EPOLL_CTL_ADD fd (Some ev) =
        (if m fd = None \<and> pollable fd then (0, m(fd \<mapsto> ev)) else (-1, m))) \<and>
     (\<forall>m fd ev. ctl m EPOLL_CTL_MOD fd (Some ev) = (if m fd = None then (-1, m) else (0, m(fd \<mapsto> ev)))) \<and>
     (\<forall>m fd. ctl m EPOLL_CTL_DEL fd None = (if m fd = None then (-1, m) else (0, m(fd := None))))"

text \<open>An interest list that behaves so, for the concrete instances below.\<close>

fun epoll_ctl_map :: "(fd \<Rightarrow> bool) \<Rightarrow> epoll_ctl" where
  "epoll_ctl_map pollable m EPOLL_CTL_ADD fd (Some ev) =
     (if m fd = None \<and> pollable fd then (0, m(fd \<mapsto> ev)) else (-1, m))"
| "epoll_ctl_map pollable m EPOLL_CTL_MOD fd (Some ev) = (if m fd = None then (-1, m) else (0, m(fd \<mapsto> ev)))"
| "epoll_ctl_map pollable m EPOLL_CTL_DEL fd ev = (if m fd = None then (-1, m) else (0, m(fd := None)))"
| "epoll_ctl_map pollable m op fd ev = (-1, m)"

lemma epoll_ctl_map_spec: "epoll_ctl_spec (epoll_ctl_map pollable) pollable"
  by (simp add: epoll_ctl_spec_def)

definition mirrors :: "('cb, 'x) epoller_scheme \<Rightarrow> bool" where
  "mirrors ep \<longleftrightarrow>
     (\<forall>p it. ep_items ep p = Some it \<longrightarrow>
        ep_interest ep (it_fd it) = (if it_watching it then Some (it_events it, p) else None)) \<and>
     (\<forall>fd ev p. ep_interest ep fd = Some (ev, p) \<longrightarrow>
        (\<exists>it. ep_items ep p = Some it \<and> it_fd it = fd \<and> it_watching it)) \<and>
     (\<forall>p q it jt. ep_items ep p = Some it \<longrightarrow> ep_items ep q = Some jt \<longrightarrow> it_fd it = it_fd jt \<longrightarrow> p = q)"

text \<open>
  The life of the items: a coroutine constructs one for a descriptor no other coroutine waits
  on and sets its callbacks, the item is enabled and disabled, the loop stores the
  reported events, and the item is destroyed when it is no longer watched.
\<close>

inductive ep_step :: "epoll_ctl \<Rightarrow> (fd \<Rightarrow> bool) \<Rightarrow> ('cb, 'x) epoller_scheme \<Rightarrow> ('cb, 'x) epoller_scheme \<Rightarrow> bool"
  for ctl :: epoll_ctl and pollable :: "fd \<Rightarrow> bool" where
  construct: "\<lbrakk>ep_items ep p = None; pollable (it_fd it); \<not> it_watching it; it_events it = 0;
      \<forall>q jt. ep_items ep q = Some jt \<longrightarrow> it_fd jt \<noteq> it_fd it\<rbrakk>
    \<Longrightarrow> ep_step ctl pollable ep (put_item p it ep)"
| update: "\<lbrakk>update_events ctl f p ep = Inr ep'; \<forall>it. ep_items ep p = Some it \<longrightarrow> pollable (it_fd it)\<rbrakk>
    \<Longrightarrow> ep_step ctl pollable ep ep'"
| report: "ep_items ep p = Some it \<Longrightarrow> ep_step ctl pollable ep (put_item p (it\<lparr>it_revents := ev\<rparr>) ep)"
| destroy: "\<lbrakk>ep_items ep p = Some it; \<not> it_watching it\<rbrakk>
    \<Longrightarrow> ep_step ctl pollable ep (ep\<lparr>ep_items := (ep_items ep)(p := None)\<rparr>)"

definition ep_init :: "('cb, 'x) epoller_scheme \<Rightarrow> bool" where
  "ep_init ep \<longleftrightarrow> ep_items ep = (\<lambda>_. None) \<and> ep_interest ep = (\<lambda>_. None)"

lemma epoll_ctl_simps:
  assumes "epoll_ctl_spec ctl pollable"
  shows "ctl m EPOLL_CTL_ADD fd (Some ev) = (if m fd = None \<and> pollable fd then (0, m(fd \<mapsto> ev)) else (-1, m))"
    and "ctl m EPOLL_CTL_MOD fd (Some ev) = (if m fd = None then (-1, m) else (0, m(fd \<mapsto> ev)))"
    and "ctl m EPOLL_CTL_DEL fd None = (if m fd = None then (-1, m) else (0, m(fd := None)))"
  using assms unfolding epoll_ctl_spec_def by blast+

text \<open>What an update of the events does when the item and the interest list agree.\<close>

lemma update_events_mirrored:
  assumes "epoll_ctl_spec ctl pollable" "mirrors ep" "ep_items ep p = Some it" "pollable (it_fd it)"
  shows "update_events ctl f p ep = Inr
    (if it_watching it \<and> f (it_events it) = 0
     then ep\<lparr>ep_interest := (ep_interest ep)(it_fd it := None),
             ep_items := (ep_items ep)(p \<mapsto> it\<lparr>it_events := 0, it_watching := False\<rparr>)\<rparr>
     else ep\<lparr>ep_interest := (ep_interest ep)(it_fd it \<mapsto> (f (it_events it), p)),
             ep_items := (ep_items ep)(p \<mapsto> it\<lparr>it_events := f (it_events it), it_watching := True\<rparr>)\<rparr>)"
proof -
  have "ep_interest ep (it_fd it) = (if it_watching it then Some (it_events it, p) else None)"
    using assms(2,3) by (simp add: mirrors_def)
  with assms(3,4) show ?thesis
    by (cases it) (simp add: update_events_def deref_item_def watch_event_def put_item_def is_disabled_def Let_def
        epoll_ctl_simps [OF assms(1)])
qed

lemma mirrors_replace:
  assumes "mirrors ep" "ep_items ep p = Some it" "it_fd jt = it_fd it"
  shows "mirrors (ep\<lparr>ep_interest := (ep_interest ep)(it_fd it := (if it_watching jt then Some (it_events jt, p) else None)),
    ep_items := (ep_items ep)(p \<mapsto> jt)\<rparr>)"
  unfolding mirrors_def
proof (intro conjI allI impI)
  let ?ep = "ep\<lparr>ep_interest := (ep_interest ep)(it_fd it := (if it_watching jt then Some (it_events jt, p) else None)),
    ep_items := (ep_items ep)(p \<mapsto> jt)\<rparr>"
  have inj: "q = p" if "ep_items ep q = Some kt" "it_fd kt = it_fd it" for q kt
    using assms(1,2) that unfolding mirrors_def by blast
  show "ep_interest ?ep (it_fd kt) = (if it_watching kt then Some (it_events kt, q) else None)"
    if "ep_items ?ep q = Some kt" for q kt
  proof (cases "q = p")
    case False
    then have q: "ep_items ep q = Some kt" "it_fd kt \<noteq> it_fd it" using that inj by auto
    then have "ep_interest ep (it_fd kt) = (if it_watching kt then Some (it_events kt, q) else None)"
      using assms(1) unfolding mirrors_def by blast
    with q(2) show ?thesis by simp
  qed (use that assms(3) in simp)
  show "\<exists>kt. ep_items ?ep q = Some kt \<and> it_fd kt = fd \<and> it_watching kt"
    if "ep_interest ?ep fd = Some (ev, q)" for fd ev q
  proof (cases "fd = it_fd it")
    case True
    then show ?thesis using that assms(3) by (auto split: if_splits)
  next
    case False
    then have "ep_interest ep fd = Some (ev, q)" using that by simp
    then obtain kt where "ep_items ep q = Some kt" "it_fd kt = fd" "it_watching kt"
      using assms(1) unfolding mirrors_def by blast
    with False assms(2) show ?thesis by auto
  qed
  show "q = r" if "ep_items ?ep q = Some kt" "ep_items ?ep r = Some lt" "it_fd kt = it_fd lt" for q r kt lt
  proof -
    have "r = q" if "ep_items ep q = Some kt" "ep_items ep r = Some lt" "it_fd kt = it_fd lt" for q r kt lt
      using assms(1) that unfolding mirrors_def by blast
    then show ?thesis using that assms(3) inj by (auto split: if_splits)
  qed
qed

lemma mirrors_step:
  assumes "epoll_ctl_spec ctl pollable" "ep_step ctl pollable ep ep'" "mirrors ep"
  shows "mirrors ep'"
  using assms(2)
proof cases
  case (construct p it)
  have new: "ep_interest ep (it_fd it) = None"
  proof (cases "ep_interest ep (it_fd it)")
    case (Some e)
    then obtain q jt where "ep_items ep q = Some jt" "it_fd jt = it_fd it"
      using assms(3) unfolding mirrors_def by (cases e) blast
    with construct(6) show ?thesis by blast
  qed
  have old: "ep_interest ep fd \<noteq> Some (ev, p)" for fd ev
    using assms(3) construct(2) unfolding mirrors_def by fastforce
  show ?thesis
    using assms(3) new old construct(2,4,6) unfolding mirrors_def construct(1) put_item_def
    by (auto split: if_splits) metis+
next
  case (update f p)
  show ?thesis
  proof (cases "ep_items ep p")
    case None
    then show ?thesis using update by (simp add: update_events_def deref_item_def)
  next
    case (Some it)
    define jt where "jt = (if it_watching it \<and> f (it_events it) = 0
      then it\<lparr>it_events := 0, it_watching := False\<rparr> else it\<lparr>it_events := f (it_events it), it_watching := True\<rparr>)"
    have "ep' = ep\<lparr>ep_interest := (ep_interest ep)(it_fd it := (if it_watching jt then Some (it_events jt, p) else None)),
        ep_items := (ep_items ep)(p \<mapsto> jt)\<rparr>"
      using update Some update_events_mirrored [OF assms(1,3) Some, of f] by (auto simp: jt_def split: if_splits)
    moreover have "it_fd jt = it_fd it" by (simp add: jt_def)
    ultimately show ?thesis using mirrors_replace [OF assms(3) Some] by simp
  qed
next
  case (report p it ev)
  have "ep_interest ep (it_fd it) = (if it_watching it then Some (it_events it, p) else None)"
    using assms(3) report(2) unfolding mirrors_def by blast
  then have same: "(ep_interest ep)(it_fd it := (if it_watching it then Some (it_events it, p) else None)) = ep_interest ep"
    by (rule fun_upd_idem)
  have upd: "ep\<lparr>ep_interest := ep_interest ep\<rparr> = ep" by simp
  have rev: "it_watching (it\<lparr>it_revents := ev\<rparr>) = it_watching it" "it_events (it\<lparr>it_revents := ev\<rparr>) = it_events it"
    by simp_all
  show ?thesis
    using mirrors_replace [OF assms(3) report(2), of "it\<lparr>it_revents := ev\<rparr>"]
    unfolding report(1) put_item_def rev same upd by simp
next
  case (destroy p it)
  then show ?thesis using assms(3) by (fastforce simp: mirrors_def)
qed

interpretation epl: inv_system ep_init "ep_step ctl pollable" "\<lambda>ep. epoll_ctl_spec ctl pollable \<longrightarrow> mirrors ep"
  for ctl pollable
proof unfold_locales
  show "epoll_ctl_spec ctl pollable \<longrightarrow> mirrors ep" if "ep_init ep" for ep
    using that by (simp add: ep_init_def mirrors_def)
qed (blast intro: mirrors_step)


section \<open>Dispatch\<close>

text \<open>The callbacks one reported event mask runs, in order.\<close>

definition triggered :: "uint32 \<Rightarrow> 'cb option \<Rightarrow> 'cb epoll_item \<Rightarrow> 'cb list" where
  "triggered bits cb it =
     (if it_revents it AND bits \<noteq> 0 then (case cb of None \<Rightarrow> [] | Some c \<Rightarrow> [c]) else [])"

definition callbacks_of :: "'cb epoll_item \<Rightarrow> 'cb list" where
  "callbacks_of it =
     triggered EPOLLHUP (it_close_callback it) it @ triggered EPOLLERR (it_error_callback it) it @
     triggered (EPOLLIN OR EPOLLPRI OR EPOLLRDHUP) (it_read_callback it) it @
     triggered EPOLLOUT (it_write_callback it) it"

fun run_callbacks :: "('cb \<Rightarrow> ('cb, 'x) epoller_scheme \<Rightarrow> ('cb, 'x) epoller_scheme res) \<Rightarrow> 'cb list \<Rightarrow> ('cb, 'x) epoller_scheme \<Rightarrow> ('cb, 'x) epoller_scheme res" where
  "run_callbacks exec [] ep = Inr ep"
| "run_callbacks exec (cb # cbs) ep = bind_res (exec cb ep) (run_callbacks exec cbs)"

text \<open>Callbacks that succeed and leave the reported events and callbacks of an item alone.\<close>

definition same_handlers :: "'cb epoll_item \<Rightarrow> 'cb epoll_item \<Rightarrow> bool" where
  "same_handlers it jt \<longleftrightarrow> it_revents jt = it_revents it \<and>
     it_read_callback jt = it_read_callback it \<and> it_write_callback jt = it_write_callback it \<and>
     it_close_callback jt = it_close_callback it \<and> it_error_callback jt = it_error_callback it"

definition keeps_item :: "('cb \<Rightarrow> ('cb, 'x) epoller_scheme \<Rightarrow> ('cb, 'x) epoller_scheme res) \<Rightarrow> item_ptr \<Rightarrow> bool" where
  "keeps_item exec p \<longleftrightarrow> (\<forall>cb ep it. ep_items ep p = Some it \<longrightarrow>
     (\<exists>ep' it'. exec cb ep = Inr ep' \<and> ep_items ep' p = Some it' \<and> same_handlers it it'))"

lemma handle_one_step:
  assumes "keeps_item exec p" "ep_items ep p = Some it"
  shows "\<exists>ep' it'. handle_one exec bits callback p ep = Inr ep' \<and> ep_items ep' p = Some it' \<and>
    same_handlers it it' \<and>
    (\<forall>cbs. run_callbacks exec (triggered bits (callback it) it @ cbs) ep = run_callbacks exec cbs ep')"
proof (cases "it_revents it AND bits \<noteq> 0 \<and> callback it \<noteq> None")
  case True
  then obtain c where c: "callback it = Some c" by blast
  obtain ep' it' where "exec c ep = Inr ep'" "ep_items ep' p = Some it'" "same_handlers it it'"
    using assms unfolding keeps_item_def by blast
  with True c assms(2) show ?thesis
    by (intro exI [of _ ep'] exI [of _ it']) (simp add: handle_one_def deref_item_def triggered_def)
next
  case False
  with assms(2) show ?thesis
    by (intro exI [of _ ep] exI [of _ it])
      (auto simp: handle_one_def deref_item_def triggered_def same_handlers_def split: option.splits)
qed

lemma handle_events_callbacks:
  assumes "keeps_item exec p" "ep_items ep p = Some it"
  shows "handle_events exec p ep = run_callbacks exec (callbacks_of it) ep"
    and "\<exists>ep' it'. handle_events exec p ep = Inr ep' \<and> ep_items ep' p = Some it' \<and> same_handlers it it'"
proof -
  let ?in = "EPOLLIN OR EPOLLPRI OR EPOLLRDHUP"
  obtain ep1 it1 where 1: "handle_one exec EPOLLHUP it_close_callback p ep = Inr ep1" "ep_items ep1 p = Some it1"
    "same_handlers it it1"
    "\<forall>cbs. run_callbacks exec (triggered EPOLLHUP (it_close_callback it) it @ cbs) ep = run_callbacks exec cbs ep1"
    using handle_one_step [OF assms] by blast
  obtain ep2 it2 where 2: "handle_one exec EPOLLERR it_error_callback p ep1 = Inr ep2" "ep_items ep2 p = Some it2"
    "same_handlers it1 it2"
    "\<forall>cbs. run_callbacks exec (triggered EPOLLERR (it_error_callback it1) it1 @ cbs) ep1 = run_callbacks exec cbs ep2"
    using handle_one_step [OF assms(1) 1(2)] by blast
  obtain ep3 it3 where 3: "handle_one exec ?in it_read_callback p ep2 = Inr ep3" "ep_items ep3 p = Some it3"
    "same_handlers it2 it3"
    "\<forall>cbs. run_callbacks exec (triggered ?in (it_read_callback it2) it2 @ cbs) ep2 = run_callbacks exec cbs ep3"
    using handle_one_step [OF assms(1) 2(2)] by blast
  obtain ep4 it4 where 4: "handle_one exec EPOLLOUT it_write_callback p ep3 = Inr ep4" "ep_items ep4 p = Some it4"
    "same_handlers it3 it4"
    "\<forall>cbs. run_callbacks exec (triggered EPOLLOUT (it_write_callback it3) it3 @ cbs) ep3 = run_callbacks exec cbs ep4"
    using handle_one_step [OF assms(1) 3(2)] by blast
  have h: "handle_events exec p ep = Inr ep4" unfolding handle_events_def using 1(1) 2(1) 3(1) 4(1) by simp
  have cb: "callbacks_of it = triggered EPOLLHUP (it_close_callback it) it @
      triggered EPOLLERR (it_error_callback it1) it1 @ triggered ?in (it_read_callback it2) it2 @
      triggered EPOLLOUT (it_write_callback it3) it3"
    using 1(3) 2(3) 3(3) by (simp add: callbacks_of_def same_handlers_def triggered_def)
  have "run_callbacks exec (callbacks_of it) ep = run_callbacks exec [] ep4"
    unfolding cb 1(4) [rule_format] 2(4) [rule_format] 3(4) [rule_format]
    using 4(4) [rule_format, of "[]"] by simp
  with h show "handle_events exec p ep = run_callbacks exec (callbacks_of it) ep" by simp
  show "\<exists>ep' it'. handle_events exec p ep = Inr ep' \<and> ep_items ep' p = Some it' \<and> same_handlers it it'"
    using h 1(3) 2(3) 3(3) 4(2,3) by (auto simp: same_handlers_def)
qed

lemma callbacks_of_same: "same_handlers it jt \<Longrightarrow> callbacks_of jt = callbacks_of it"
  by (simp add: callbacks_of_def same_handlers_def triggered_def)

lemma same_handlers_trans: "same_handlers it jt \<Longrightarrow> same_handlers jt kt \<Longrightarrow> same_handlers it kt"
  by (simp add: same_handlers_def)

lemma run_callbacks_append:
  "run_callbacks exec (xs @ ys) ep = bind_res (run_callbacks exec xs ep) (run_callbacks exec ys)"
proof (induction xs arbitrary: ep)
  case (Cons x xs)
  then show ?case by (cases "exec x ep") simp_all
qed simp

lemma run_callbacks_keeps:
  "keeps_item exec q \<Longrightarrow> run_callbacks exec cbs ep = Inr ep' \<Longrightarrow> ep_items ep q = Some it \<Longrightarrow>
    \<exists>it'. ep_items ep' q = Some it' \<and> same_handlers it it'"
proof (induction cbs arbitrary: ep it)
  case Nil
  then show ?case by (simp add: same_handlers_def)
next
  case (Cons cb cbs)
  obtain ep1 it1 where 1: "exec cb ep = Inr ep1" "ep_items ep1 q = Some it1" "same_handlers it it1"
    using Cons.prems(1,3) unfolding keeps_item_def by blast
  from Cons.IH [OF Cons.prems(1) _ 1(2)] Cons.prems(2) 1 show ?case
    by (auto intro: same_handlers_trans)
qed

lemma dispatch_ready_callbacks:
  assumes "\<forall>p \<in> set ps. keeps_item exec p \<and> ep_items ep p = Some (its p)"
  shows "dispatch_ready exec ps ep = run_callbacks exec (concat (map (\<lambda>p. callbacks_of (its p)) ps)) ep \<and>
    (\<exists>ep'. dispatch_ready exec ps ep = Inr ep')"
  using assms
proof (induction ps arbitrary: ep its)
  case (Cons p ps)
  have p: "keeps_item exec p" "ep_items ep p = Some (its p)" using Cons.prems by auto
  obtain ep1 where ep1: "handle_events exec p ep = Inr ep1" "run_callbacks exec (callbacks_of (its p)) ep = Inr ep1"
    using handle_events_callbacks [OF p] by auto
  define its1 where "its1 q = the (ep_items ep1 q)" for q
  have its1: "ep_items ep1 q = Some (its1 q) \<and> same_handlers (its q) (its1 q)" if "q \<in> set ps" for q
    using run_callbacks_keeps [of exec q _ ep ep1 "its q", OF _ ep1(2)] that Cons.prems by (auto simp: its1_def)
  then have cb: "map (\<lambda>p. callbacks_of (its1 p)) ps = map (\<lambda>p. callbacks_of (its p)) ps"
    by (auto simp: callbacks_of_same)
  have "\<forall>q \<in> set ps. keeps_item exec q \<and> ep_items ep1 q = Some (its1 q)"
    using its1 Cons.prems by auto
  from Cons.IH [OF this, unfolded cb] ep1 show ?case
    by (simp add: run_callbacks_append) metis
qed simp

lemma collect_ready_ok:
  "distinct (map fst pes) \<Longrightarrow> \<forall>(p, e) \<in> set pes. ep_items ep p = Some (its p) \<Longrightarrow>
   \<exists>ep'. collect_ready (map (\<lambda>(p, e). (e, Some p)) pes) ep = Inr ep' \<and>
     ep_ready_list ep' = ep_ready_list ep @ map fst pes \<and>
     (\<forall>(p, e) \<in> set pes. ep_items ep' p = Some (its p\<lparr>it_revents := e\<rparr>)) \<and>
     (\<forall>q. q \<notin> fst ` set pes \<longrightarrow> ep_items ep' q = ep_items ep q) \<and>
     ep_interest ep' = ep_interest ep"
proof (induction pes arbitrary: ep)
  case (Cons pe pes)
  obtain p e where pe: "pe = (p, e)" by fastforce
  let ?ep = "(put_item p (its p\<lparr>it_revents := e\<rparr>) ep)\<lparr>ep_ready_list := ep_ready_list ep @ [p]\<rparr>"
  have p: "ep_items ep p = Some (its p)" "p \<notin> fst ` set pes" using Cons.prems pe by (force simp: image_iff)+
  have "\<forall>(q, e) \<in> set pes. ep_items ?ep q = Some (its q)"
    using Cons.prems pe p by (force simp: put_item_def image_iff)
  with Cons.IH [of ?ep] Cons.prems(1) obtain ep' where
    ep': "collect_ready (map (\<lambda>(p, e). (e, Some p)) pes) ?ep = Inr ep'"
     "ep_ready_list ep' = ep_ready_list ?ep @ map fst pes"
     "\<forall>(p, e) \<in> set pes. ep_items ep' p = Some (its p\<lparr>it_revents := e\<rparr>)"
     "\<forall>q. q \<notin> fst ` set pes \<longrightarrow> ep_items ep' q = ep_items ?ep q" "ep_interest ep' = ep_interest ?ep"
    by (auto simp: pe)
  then show ?case using p pe
    by (intro exI [of _ ep']) (auto simp: deref_item_def put_item_def)
qed simp

section \<open>Properties\<close>



text \<open>A failed registration is not noticed: when another coroutine already waits on the
  descriptor (or the descriptor cannot be polled), enabling an item leaves the kernel's interest
  list as it is, yet the item is marked as watched; no event will be reported for
  it, and disabling it takes the other coroutine's registration away.\<close>

lemma failed_registration_hidden:
  assumes "epoll_ctl_spec ctl pollable" "ep_items ep q = Some jt" "\<not> it_watching jt" "it_events jt = 0"
    and "ep_interest ep (it_fd jt) \<noteq> None \<or> \<not> pollable (it_fd jt)"
  shows "\<exists>ep'. enable_reading ctl q ep = Inr ep' \<and> ep_interest ep' = ep_interest ep \<and>
    (\<exists>jt'. ep_items ep' q = Some jt' \<and> it_watching jt' \<and> is_reading jt') \<and>
    (\<exists>ep''. disable_reading ctl q ep' = Inr ep'' \<and> ep_interest ep'' (it_fd jt) = None)"
  using assms(2-5)
  by (cases "ep_interest ep (it_fd jt)")
    (auto simp: enable_reading_def disable_reading_def update_events_def deref_item_def watch_event_def
      put_item_def epoll_ctl_simps [OF assms(1)] Let_def is_disabled_def is_reading_def)

lemma failed_registration_hidden_witness:
  "let ep = (put_item 2 (EPollItem_new 5) (SmartEPoller_new :: nat epoller))\<lparr>ep_interest := [5 \<mapsto> (EPOLLIN, 1)]\<rparr>
   in \<exists>ep'. enable_reading (epoll_ctl_map (\<lambda>_. True)) 2 ep = Inr ep' \<and> ep_interest ep' 5 = Some (EPOLLIN, 1)"
proof -
  let ?ep = "(put_item 2 (EPollItem_new 5) (SmartEPoller_new :: nat epoller))\<lparr>ep_interest := [5 \<mapsto> (EPOLLIN, 1)]\<rparr>"
  have i: "ep_items ?ep 2 = Some (EPollItem_new 5)" by (simp add: put_item_def)
  show ?thesis
    using failed_registration_hidden [OF epoll_ctl_map_spec [of "\<lambda>_. True"] i]
    by (auto simp: EPollItem_new_def put_item_def)
qed



text \<open>C33. \<open>handle_events\<close> uses the item after its callback: when the read callback resumes the
  coroutine on whose stack the item lives and that coroutine leaves the blocking call before
  \<open>handle_events\<close> goes on, the next test reads a dead object.\<close>

theorem handle_events_use_after_free:
  assumes "ep_items ep p = Some it" "it_close_callback it = None" "it_error_callback it = None"
    and "it_read_callback it = Some cb" "it_revents it AND EPOLLIN \<noteq> 0"
    and "exec cb ep = Inr ep'" "ep_items ep' p = None"
  shows "handle_events exec p ep = Inl UseAfterFree"
proof -
  have bits: "it_revents it AND (EPOLLIN OR EPOLLPRI OR EPOLLRDHUP) \<noteq> 0"
  proof
    assume z: "it_revents it AND (EPOLLIN OR EPOLLPRI OR EPOLLRDHUP) = 0"
    have "it_revents it AND EPOLLIN = (it_revents it AND (EPOLLIN OR EPOLLPRI OR EPOLLRDHUP)) AND EPOLLIN"
      by (simp add: and.assoc)
    with z assms(5) show False by simp
  qed
  have "handle_one exec (EPOLLIN OR EPOLLPRI OR EPOLLRDHUP) it_read_callback p ep = Inr ep'"
    unfolding handle_one_def deref_item_def using assms(1,4,6) bits by simp
  moreover have "handle_one exec EPOLLHUP it_close_callback p ep = Inr ep"
    "handle_one exec EPOLLERR it_error_callback p ep = Inr ep"
    using assms(1-3) by (simp_all add: handle_one_def deref_item_def)
  moreover have "handle_one exec EPOLLOUT it_write_callback p ep' = Inl UseAfterFree"
    using assms(7) by (simp add: handle_one_def deref_item_def)
  ultimately show ?thesis by (simp only: handle_events_def bind_res_simps)
qed

theorem handle_events_use_after_free_witness:
  "handle_events (\<lambda>cb ep. Inr (ep\<lparr>ep_items := (ep_items ep)(1 := None)\<rparr>)) 1
     (put_item 1 ((EPollItem_new 5)\<lparr>it_read_callback := Some (), it_revents := EPOLLIN\<rparr>) SmartEPoller_new)
   = Inl UseAfterFree"
proof -
  let ?it = "(EPollItem_new 5)\<lparr>it_read_callback := Some (), it_revents := EPOLLIN\<rparr>"
  let ?exec = "\<lambda>cb ep. Inr (ep\<lparr>ep_items := (ep_items ep)(1 := None)\<rparr>)"
  have "ep_items (put_item 1 ?it SmartEPoller_new) 1 = Some ?it" by (simp add: put_item_def)
  from handle_events_use_after_free [OF this, of "()" ?exec] show ?thesis
    by (simp add: EPollItem_new_def)
qed

text \<open>An interrupted \<open>epoll_wait\<close> dispatches the items of the previous round again, since
  \<open>ready_list_\<close> is only cleared when events arrive: if one of those items has been destroyed
  since, the round does not complete without undefined behaviour.\<close>

lemma interrupted_wait_dispatches_stale_items:
  assumes "p \<in> set (ep_ready_list ep)" "ep_items ep p = None"
    and "\<forall>cb ep1 ep2. exec cb ep1 = Inr ep2 \<longrightarrow> ep_items ep1 p = None \<longrightarrow> ep_items ep2 p = None"
  shows "\<nexists>r. eventloop_round exec (-1) EINTR evs ep = Inr r"
proof -
  have one: "handle_one exec bits callback q ep1 = Inr ep2 \<Longrightarrow> ep_items ep1 p = None \<Longrightarrow> ep_items ep2 p = None"
    for bits callback q ep1 ep2
    using assms(3) by (auto simp: handle_one_def bind_res_Inr_iff split: if_splits option.splits)
  have all: "handle_events exec q ep1 = Inr ep2 \<Longrightarrow> ep_items ep1 p = None \<Longrightarrow> ep_items ep2 p = None" for q ep1 ep2
    unfolding handle_events_def bind_res_Inr_iff using one by blast
  have "\<nexists>r. dispatch_ready exec ps ep1 = Inr r" if "p \<in> set ps" "ep_items ep1 p = None" for ps ep1
    using that
  proof (induction ps arbitrary: ep1)
    case (Cons q ps)
    show ?case
    proof (cases "q = p")
      case True
      then show ?thesis using Cons.prems
        by (simp add: handle_events_def handle_one_def deref_item_def)
    next
      case False
      with Cons.IH Cons.prems all show ?thesis by (auto simp: bind_res_Inr_iff)
    qed
  qed simp
  from this [OF assms(1,2)] show ?thesis
    by (simp add: eventloop_round_def bind_res_Inr_iff)
qed

lemma interrupted_wait_dispatches_stale_items_witness:
  "\<nexists>r. eventloop_round (\<lambda>cb. Inr) (-1) EINTR [] ((SmartEPoller_new :: nat epoller)\<lparr>ep_ready_list := [3]\<rparr>) = Inr r"
  by (rule interrupted_wait_dispatches_stale_items [where p = 3]) (simp_all add: SmartEPoller_new_def)

end
