(* ===== verification/Error_Code.thy ===== *)
theory Error_Code
  imports Smart_Prelude
begin

text \<open>
  The error codes of \<open>include/common/error_code.h\<close>. Operations of the library take an
  \<open>ErrorCode &\<close> that they may assign; the model passes it in and returns it.
\<close>

datatype code_val =
    Success | InvalidArgument | InsufficientResources | OutOfMemory | PermissionDenied
  | AddressInUse | ConnectionAborted | ExceedBufferBound

primrec code_index :: "code_val \<Rightarrow> nat" where
  "code_index Success = 0"
| "code_index InvalidArgument = 1"
| "code_index InsufficientResources = 2"
| "code_index OutOfMemory = 3"
| "code_index PermissionDenied = 4"
| "code_index AddressInUse = 5"
| "code_index ConnectionAborted = 6"
| "code_index ExceedBufferBound = 7"

definition CodeValStr :: "string list" where
  "CodeValStr = [''Success'', ''Invalid Argument'', ''Insufficient Resources'', ''Out Of Memory'',
     ''Permission Denied'', ''Address In Use'', ''Connection Aborted'', ''Exceed Buffer Bound'']"

definition ec_fail :: "code_val \<Rightarrow> bool" where
  "ec_fail ec \<longleftrightarrow> ec \<noteq> Success"

definition ec_to_string :: "code_val \<Rightarrow> string res" where
  "ec_to_string ec =
     (if code_index ec < length CodeValStr then Inr (CodeValStr ! code_index ec) else Inl OutOfBounds)"

text \<open>Every code has a message of its own.\<close>

lemma ec_to_string_inj: "ec_to_string a = ec_to_string b \<longleftrightarrow> a = b"
  by (cases a; cases b; simp add: ec_to_string_def CodeValStr_def)

end
