(* ===== verification/Buffer_Views.thy ===== *)
theory Buffer_Views
  imports Smart_Prelude
begin

text \<open>
  The views of \<open>include/common/mutable_buffer.h\<close>, \<open>include/common/const_buffer.h\<close> and
  \<open>src/common/buffer.cpp\<close>: a pointer with a size, which owns nothing. The type of pointers is a
  parameter: an offset in the block of a dynamic buffer, or the address of a block in a store, where
  two views of one address share its bytes.
\<close>

section \<open>Views\<close>

record 'p mutable_buffer =
  mb_data :: 'p
  mb_size :: size_t

record 'p const_buffer =
  cb_data :: 'p
  cb_size :: size_t

text \<open>The constructors; \<open>nullptr\<close> is \<open>None\<close>.\<close>

definition MutableBuffer_default :: "'p option mutable_buffer" where
  "MutableBuffer_default = \<lparr>mb_data = None, mb_size = 0\<rparr>"

definition MutableBuffer_new :: "'p \<Rightarrow> size_t \<Rightarrow> 'p mutable_buffer" where
  "MutableBuffer_new data sz = \<lparr>mb_data = data, mb_size = sz\<rparr>"

definition ConstBuffer_default :: "'p option const_buffer" where
  "ConstBuffer_default = \<lparr>cb_data = None, cb_size = 0\<rparr>"

definition ConstBuffer_new :: "'p \<Rightarrow> size_t \<Rightarrow> 'p const_buffer" where
  "ConstBuffer_new data sz = \<lparr>cb_data = data, cb_size = sz\<rparr>"

definition ConstBuffer_of_mutable :: "'p mutable_buffer \<Rightarrow> 'p const_buffer" where
  "ConstBuffer_of_mutable b = ConstBuffer_new (mb_data b) (mb_size b)"

text \<open>The two overloads of \<open>buffer\<close>.\<close>

definition mutable_buffer_of :: "'p \<Rightarrow> size_t \<Rightarrow> 'p mutable_buffer" where
  "mutable_buffer_of data size_in_bytes = MutableBuffer_new data size_in_bytes"

definition const_buffer_of :: "'p \<Rightarrow> size_t \<Rightarrow> 'p const_buffer" where
  "const_buffer_of data size_in_bytes = ConstBuffer_new data size_in_bytes"

section \<open>Views of a store\<close>

text \<open>
  A store maps addresses to blocks. A null or dangling pointer has no accessible bytes: what is
  read or written there is outside every object.
\<close>

type_synonym addr = nat
type_synonym store = "addr \<rightharpoonup> block"
type_synonym pointer = "addr option"

definition bytes_at :: "store \<Rightarrow> pointer \<Rightarrow> block" where
  "bytes_at h p = (case Option.bind p h of None \<Rightarrow> [] | Some blk \<Rightarrow> blk)"

definition set_bytes_at :: "store \<Rightarrow> pointer \<Rightarrow> block \<Rightarrow> store" where
  "set_bytes_at h p blk = (case p of None \<Rightarrow> h | Some a \<Rightarrow> if h a = None then h else h(a \<mapsto> blk))"

lemma bytes_at_simps [simp]:
  "bytes_at h None = []"
  "h a = None \<Longrightarrow> bytes_at h (Some a) = []"
  "h a = Some blk \<Longrightarrow> bytes_at h (Some a) = blk"
  by (simp_all add: bytes_at_def)

lemma bytes_at_set:
  "bytes_at h p \<noteq> [] \<Longrightarrow> bytes_at (set_bytes_at h p blk) p = blk"
  "p \<noteq> q \<Longrightarrow> bytes_at (set_bytes_at h p blk) q = bytes_at h q"
  by (cases p; cases q; auto simp: bytes_at_def set_bytes_at_def split: option.splits)+

lemma set_bytes_at_same: "bytes_at h p = blk \<Longrightarrow> set_bytes_at h p blk = h"
  by (cases p) (auto simp: bytes_at_def set_bytes_at_def fun_eq_iff split: option.splits)

lemma dom_set_bytes_at [simp]: "dom (set_bytes_at h p blk) = dom h"
  by (cases p) (auto simp: set_bytes_at_def split: if_splits)

text \<open>The conversion of a mutable view keeps the address and the size: both views see the same bytes.\<close>

definition view_bytes :: "store \<Rightarrow> pointer const_buffer \<Rightarrow> block" where
  "view_bytes h b = take (unat (cb_size b)) (bytes_at h (cb_data b))"

lemma ConstBuffer_of_mutable_fields [simp]:
  "cb_data (ConstBuffer_of_mutable b) = mb_data b" "cb_size (ConstBuffer_of_mutable b) = mb_size b"
  by (simp_all add: ConstBuffer_of_mutable_def ConstBuffer_new_def)

lemma mutable_buffer_of_fields [simp]:
  "mb_data (mutable_buffer_of p n) = p" "mb_size (mutable_buffer_of p n) = n"
  by (simp_all add: mutable_buffer_of_def MutableBuffer_new_def)

lemma const_buffer_of_fields [simp]:
  "cb_data (const_buffer_of p n) = p" "cb_size (const_buffer_of p n) = n"
  by (simp_all add: const_buffer_of_def ConstBuffer_new_def)

lemma default_views_empty: "ConstBuffer_of_mutable MutableBuffer_default = ConstBuffer_default"
  "view_bytes h ConstBuffer_default = []"
  by (simp_all add: ConstBuffer_of_mutable_def ConstBuffer_new_def MutableBuffer_default_def
    ConstBuffer_default_def view_bytes_def)

end
