(* ===== verification/Dynamic_Buffer.thy ===== *)
theory Dynamic_Buffer
  imports Smart_Flags Error_Code Buffer_Views
begin

text \<open>
  The growing byte buffer of \<open>include/common/dynamic_buffer.h\<close> and
  \<open>src/common/dynamic_buffer.cpp\<close>. The block that \<open>malloc\<close> returned is kept with its real
  size next to the fields of the object, so that a copy beyond it is visible. Whether
  \<open>malloc\<close> succeeds is an argument of the operations that call it.
\<close>

section \<open>The buffer and its operations\<close>

record dynamic_buffer =
  db_buffer :: "block option"
  db_read_index :: size_t
  db_write_index :: size_t
  db_capacity :: size_t
  db_max_capacity :: size_t

definition DynamicBuffer_new :: "bool \<Rightarrow> size_t \<Rightarrow> size_t \<Rightarrow> dynamic_buffer" where
  "DynamicBuffer_new ok max_capacity init_capacity =
     \<lparr>db_buffer = malloc ok (unat init_capacity), db_read_index = 0, db_write_index = 0,
      db_capacity = init_capacity, db_max_capacity = max_capacity\<rparr>"

definition DynamicBuffer_default :: "flags \<Rightarrow> bool \<Rightarrow> dynamic_buffer" where
  "DynamicBuffer_default fl ok =
     DynamicBuffer_new ok (FLAGS_max_dynamic_buffer_size fl) (FLAGS_initial_dynamic_buffer_size fl)"

text \<open>The destructor: the blocks it frees.\<close>

definition DynamicBuffer_delete :: "dynamic_buffer \<Rightarrow> block list" where
  "DynamicBuffer_delete b = (case db_buffer b of None \<Rightarrow> [] | Some blk \<Rightarrow> [blk])"

definition readable_bytes :: "dynamic_buffer \<Rightarrow> size_t" where
  "readable_bytes b = db_write_index b - db_read_index b"

definition writable_bytes :: "dynamic_buffer \<Rightarrow> size_t" where
  "writable_bytes b = db_capacity b - db_write_index b"

definition prependable_bytes :: "dynamic_buffer \<Rightarrow> size_t" where
  "prependable_bytes b = db_read_index b"

definition max_writable_bytes :: "flags \<Rightarrow> dynamic_buffer \<Rightarrow> size_t" where
  "max_writable_bytes fl b =
     (let prependable_length =
        (if prependable_bytes b \<ge> FLAGS_move_forward_threshold fl then prependable_bytes b else 0)
      in db_max_capacity b - db_capacity b + writable_bytes b + prependable_length)"

definition deref_block :: "dynamic_buffer \<Rightarrow> block res" where
  "deref_block b = (case db_buffer b of None \<Rightarrow> Inl NullDeref | Some blk \<Rightarrow> Inr blk)"

definition move_forward :: "dynamic_buffer \<Rightarrow> dynamic_buffer res" where
  "move_forward b =
     (let prependable_length = prependable_bytes b in
      bind_res (deref_block b) (\<lambda>blk.
      bind_res (mem_read blk (unat (db_read_index b)) (unat (db_capacity b - prependable_length))) (\<lambda>xs.
      bind_res (mem_write blk 0 xs) (\<lambda>blk'.
      Inr (b\<lparr>db_buffer := Some blk', db_write_index := db_write_index b - prependable_length,
             db_read_index := 0, db_capacity := db_capacity b + prependable_length\<rparr>)))))"

definition expand_capacity :: "bool \<Rightarrow> dynamic_buffer \<Rightarrow> dynamic_buffer res" where
  "expand_capacity ok b =
     (let new_capacity =
        (if db_capacity b * 2 > db_max_capacity b then db_max_capacity b else db_capacity b * 2) in
      bind_res (case malloc ok (unat new_capacity) of None \<Rightarrow> Inl NullDeref | Some new \<Rightarrow> Inr new) (\<lambda>new.
      bind_res (deref_block b) (\<lambda>blk.
      bind_res (mem_read blk 0 (unat (db_capacity b))) (\<lambda>xs.
      bind_res (mem_write new 0 xs) (\<lambda>new'.
      Inr (b\<lparr>db_buffer := Some new', db_capacity := new_capacity\<rparr>))))))"

definition append_bytes :: "dynamic_buffer \<Rightarrow> byte list \<Rightarrow> size_t \<Rightarrow> dynamic_buffer res" where
  "append_bytes b data data_length =
     bind_res (deref_block b) (\<lambda>blk.
     bind_res (mem_read data 0 (unat data_length)) (\<lambda>xs.
     bind_res (mem_write blk (unat (db_write_index b)) (map Some xs)) (\<lambda>blk'.
     Inr (b\<lparr>db_buffer := Some blk', db_write_index := db_write_index b + data_length\<rparr>))))"

definition db_append ::
  "flags \<Rightarrow> bool \<Rightarrow> dynamic_buffer \<Rightarrow> byte list \<Rightarrow> size_t \<Rightarrow> code_val \<Rightarrow> (dynamic_buffer \<times> code_val) res" where
  "db_append fl ok b data data_length ec =
     (if data_length > writable_bytes b
      then if data_length > max_writable_bytes fl b then Inr (b, ExceedBufferBound)
        else bind_res (move_forward b) (\<lambda>b1.
             bind_res (if data_length > max_writable_bytes fl b1 then expand_capacity ok b1 else Inr b1) (\<lambda>b2.
             bind_res (append_bytes b2 data data_length) (\<lambda>b3. Inr (b3, ec))))
      else bind_res (append_bytes b data data_length) (\<lambda>b3. Inr (b3, ec)))"

text \<open>\<open>consume\<close> copies into memory of the caller, \<open>data\<close>.\<close>

definition db_consume ::
  "dynamic_buffer \<Rightarrow> block \<Rightarrow> size_t \<Rightarrow> code_val \<Rightarrow> (dynamic_buffer \<times> block \<times> code_val) res" where
  "db_consume b data data_length ec =
     (if data_length > readable_bytes b then Inr (b, data, ExceedBufferBound)
      else bind_res (deref_block b) (\<lambda>blk.
           bind_res (mem_read blk (unat (db_read_index b)) (unat data_length)) (\<lambda>xs.
           bind_res (mem_write data 0 xs) (\<lambda>data'.
           Inr (b\<lparr>db_read_index := db_read_index b + data_length\<rparr>, data', ec)))))"

text \<open>The pointer of the view is an offset in the block.\<close>

definition read_buffer :: "dynamic_buffer \<Rightarrow> size_t const_buffer" where
  "read_buffer b = ConstBuffer_new (db_read_index b) (readable_bytes b)"

section \<open>What the buffer holds\<close>

text \<open>
  \<open>db_mem\<close>: the indices lie in the block, which the field \<open>capacity_\<close> covers at least.
  \<open>db_ok\<close>: the field is the size of the block and the limit is respected, as the constructor
  leaves it.
\<close>

definition db_mem :: "dynamic_buffer \<Rightarrow> bool" where
  "db_mem b \<longleftrightarrow> (\<exists>blk. db_buffer b = Some blk \<and> db_read_index b \<le> db_write_index b \<and>
     unat (db_write_index b) \<le> length blk \<and> length blk \<le> unat (db_capacity b))"

definition db_ok :: "dynamic_buffer \<Rightarrow> bool" where
  "db_ok b \<longleftrightarrow> db_mem b \<and> (\<exists>blk. db_buffer b = Some blk \<and> length blk = unat (db_capacity b)) \<and>
     db_capacity b \<le> db_max_capacity b"

definition db_content :: "dynamic_buffer \<Rightarrow> block" where
  "db_content b = (case db_buffer b of None \<Rightarrow> []
     | Some blk \<Rightarrow> take (unat (db_write_index b) - unat (db_read_index b)) (drop (unat (db_read_index b)) blk))"

abbreviation db_alloc :: "dynamic_buffer \<Rightarrow> nat" where
  "db_alloc b \<equiv> length (the (db_buffer b))"

lemma db_memE:
  assumes "db_mem b"
  obtains blk where "db_buffer b = Some blk" "unat (db_read_index b) \<le> unat (db_write_index b)"
    "unat (db_write_index b) \<le> length blk" "length blk \<le> unat (db_capacity b)"
    "unat (db_capacity b) < 2 ^ 64"
  using assms unsigned_less [of "db_capacity b"] by (auto simp: db_mem_def word_le_unat)

lemma db_content_length:
  "db_mem b \<Longrightarrow> length (db_content b) = unat (readable_bytes b)"
  by (auto simp: db_mem_def db_content_def readable_bytes_def word_le_unat unat_minus_le)

lemma DynamicBuffer_new_ok:
  "i \<le> m \<Longrightarrow> db_ok (DynamicBuffer_new True m i) \<and> db_content (DynamicBuffer_new True m i) = []"
  by (simp add: db_ok_def db_mem_def DynamicBuffer_new_def malloc_def db_content_def)

text \<open>Copying to the end of the written part, wherever there is room in the block.\<close>

lemma append_bytes_ok:
  assumes "db_mem b" "unat (db_write_index b) + unat n \<le> db_alloc b" "unat n \<le> length data"
  shows "\<exists>b'. append_bytes b data n = Inr b' \<and> db_mem b' \<and> db_alloc b' = db_alloc b \<and>
    db_content b' = db_content b @ map Some (take (unat n) data) \<and>
    db_capacity b' = db_capacity b \<and> db_max_capacity b' = db_max_capacity b \<and>
    db_read_index b' = db_read_index b \<and> unat (db_write_index b') = unat (db_write_index b) + unat n"
proof -
  obtain blk where blk: "db_buffer b = Some blk" "unat (db_read_index b) \<le> unat (db_write_index b)"
      "unat (db_write_index b) \<le> length blk" "length blk \<le> unat (db_capacity b)"
      "unat (db_capacity b) < 2 ^ 64"
    by (rule db_memE [OF assms(1)])
  let ?w = "unat (db_write_index b)" and ?r = "unat (db_read_index b)" and ?xs = "map Some (take (unat n) data)"
  let ?blk = "take ?w blk @ ?xs @ drop (?w + unat n) blk"
  let ?b = "b\<lparr>db_buffer := Some ?blk, db_write_index := db_write_index b + n\<rparr>"
  have w: "unat (db_write_index b + n) = ?w + unat n"
    using assms(2) blk by (intro unat_plus_lt) simp
  have lx: "length ?xs = unat n" using assms(3) by simp
  have e: "append_bytes b data n = Inr ?b"
    using assms blk lx by (simp add: append_bytes_def deref_block_def mem_read_ok mem_write_ok)
  have m: "db_mem ?b"
    using blk assms(2) w lx by (auto simp: db_mem_def word_le_unat)
  have "drop ?r ?blk = drop ?r (take ?w blk) @ ?xs @ drop (?w + unat n) blk"
    using blk by simp
  then have "db_content ?b = db_content b @ ?xs"
    using blk w lx by (simp add: db_content_def take_drop)
  then show ?thesis using e m w blk lx assms(2) by (intro exI [of _ ?b]) simp
qed


lemma db_consume_ok:
  assumes "db_mem b" "n \<le> readable_bytes b" "unat n \<le> length data"
  shows "\<exists>b'. db_consume b data n ec =
      Inr (b', take (unat n) (db_content b) @ drop (unat n) data, ec) \<and>
    db_mem b' \<and> db_content b' = drop (unat n) (db_content b) \<and> db_buffer b' = db_buffer b \<and>
    db_capacity b' = db_capacity b \<and> db_max_capacity b' = db_max_capacity b \<and>
    db_write_index b' = db_write_index b"
proof -
  obtain blk where blk: "db_buffer b = Some blk" "unat (db_read_index b) \<le> unat (db_write_index b)"
      "unat (db_write_index b) \<le> length blk" "length blk \<le> unat (db_capacity b)"
      "unat (db_capacity b) < 2 ^ 64"
    by (rule db_memE [OF assms(1)])
  let ?w = "unat (db_write_index b)" and ?r = "unat (db_read_index b)"
  have n: "unat n \<le> ?w - ?r"
    using assms(2) blk(2) by (simp add: readable_bytes_def word_le_unat unat_minus_le)
  then have r: "unat (db_read_index b + n) = ?r + unat n"
    using blk by (intro unat_plus_lt) simp
  let ?b = "b\<lparr>db_read_index := db_read_index b + n\<rparr>"
  have "take (unat n) (drop ?r blk) = take (unat n) (db_content b)"
    using n blk by (simp add: db_content_def min_def)
  moreover have "length (take (unat n) (db_content b)) = unat n"
    using n blk by (simp add: db_content_def)
  moreover have "\<not> readable_bytes b < n" using assms(2) by simp
  ultimately have "db_consume b data n ec = Inr (?b, take (unat n) (db_content b) @ drop (unat n) data, ec)"
    using assms(3) n blk by (simp add: db_consume_def deref_block_def mem_read_ok mem_write_ok del: length_take)
  moreover have "db_mem ?b" using blk r n by (simp add: db_mem_def word_le_unat)
  moreover have "db_content ?b = drop (unat n) (db_content b)"
    using blk r n by (simp add: db_content_def drop_take add.commute)
  ultimately show ?thesis by (intro exI [of _ ?b]) simp
qed

text \<open>
  Moving the content to the front of the block. The field \<open>capacity_\<close> grows by the length of
  the freed part although the block does not.
\<close>

lemma move_forward_ok:
  assumes "db_ok b" "unat (db_capacity b) + unat (db_read_index b) < 2 ^ 64"
  shows "\<exists>b'. move_forward b = Inr b' \<and> db_mem b' \<and> db_alloc b' = db_alloc b \<and>
    db_content b' = db_content b \<and> db_read_index b' = 0 \<and>
    db_write_index b' = db_write_index b - db_read_index b \<and>
    db_capacity b' = db_capacity b + db_read_index b \<and> db_max_capacity b' = db_max_capacity b"
proof -
  obtain blk where blk: "db_buffer b = Some blk" "unat (db_read_index b) \<le> unat (db_write_index b)"
      "unat (db_write_index b) \<le> length blk" "length blk \<le> unat (db_capacity b)"
      "unat (db_capacity b) < 2 ^ 64"
    using assms(1) db_memE by (auto simp: db_ok_def)
  have cap: "unat (db_capacity b) = length blk" using assms(1) blk(1) by (simp add: db_ok_def)
  let ?w = "unat (db_write_index b)" and ?r = "unat (db_read_index b)"
  have c: "unat (db_capacity b - db_read_index b) = length blk - ?r"
    using blk cap by (simp add: unat_minus_le word_le_unat)
  have w: "unat (db_write_index b - db_read_index b) = ?w - ?r"
    using blk by (simp add: unat_minus_le word_le_unat)
  have k: "unat (db_capacity b + db_read_index b) = length blk + ?r"
    using assms(2) cap by (simp add: unat_plus_lt)
  let ?blk = "drop ?r blk @ drop (length blk - ?r) blk"
  let ?b = "b\<lparr>db_buffer := Some ?blk, db_write_index := db_write_index b - db_read_index b,
    db_read_index := 0, db_capacity := db_capacity b + db_read_index b\<rparr>"
  have "move_forward b = Inr ?b"
    using blk c by (simp add: move_forward_def Let_def deref_block_def prependable_bytes_def mem_read_ok mem_write_ok)
  moreover have "db_mem ?b" using blk w k by (simp add: db_mem_def word_le_unat)
  moreover have "db_content ?b = db_content b"
    using blk w by (simp add: db_content_def)
  moreover have "db_alloc ?b = db_alloc b" using blk by simp
  ultimately show ?thesis by (intro exI [of _ ?b]) simp
qed

lemma expand_capacity_ok:
  assumes "db_ok b" "db_capacity b \<le> db_max_capacity b" "unat (db_capacity b) < 2 ^ 63"
  shows "\<exists>b'. expand_capacity True b = Inr b' \<and> db_ok b' \<and> db_content b' = db_content b \<and>
    unat (db_capacity b') = min (2 * unat (db_capacity b)) (unat (db_max_capacity b)) \<and>
    db_max_capacity b' = db_max_capacity b"
proof -
  obtain blk where blk: "db_buffer b = Some blk" "unat (db_read_index b) \<le> unat (db_write_index b)"
      "unat (db_write_index b) \<le> length blk"
    using assms(1) db_memE by (auto simp: db_ok_def)
  have cap: "length blk = unat (db_capacity b)" using assms(1) blk(1) by (simp add: db_ok_def)
  let ?n = "if db_capacity b * 2 > db_max_capacity b then db_max_capacity b else db_capacity b * 2"
  have dbl: "unat (db_capacity b * 2) = 2 * unat (db_capacity b)"
    using assms(3) by (simp add: unat_word_ariths)
  then have n: "unat ?n = min (2 * unat (db_capacity b)) (unat (db_max_capacity b))"
    by (auto simp: word_less_unat min_def)
  then have le: "unat (db_capacity b) \<le> unat ?n" using assms(2) by (auto simp: word_le_unat)
  let ?b = "b\<lparr>db_buffer := Some (blk @ replicate (unat ?n - length blk) None), db_capacity := ?n\<rparr>"
  have "expand_capacity True b = Inr ?b"
    using blk cap le by (simp add: expand_capacity_def Let_def malloc_def deref_block_def mem_read_ok mem_write_ok)
  moreover have "db_ok ?b"
    using blk cap le n assms(2) by (simp add: db_ok_def db_mem_def word_le_unat)
  moreover have "db_content ?b = db_content b" using blk by (simp add: db_content_def)
  ultimately show ?thesis using n by (intro exI [of _ ?b]) simp
qed


section \<open>Growing\<close>

text \<open>
  The branch of \<open>append\<close> for data that does not fit behind the content: after moving the
  content forward the limit check is repeated instead of asking whether the data fits, and it
  never asks for more room.
\<close>

lemma max_writable_word:
  "max_writable_bytes fl b = db_max_capacity b - db_write_index b +
     (if prependable_bytes b \<ge> FLAGS_move_forward_threshold fl then prependable_bytes b else 0)"
  by (simp add: max_writable_bytes_def writable_bytes_def)

lemma max_writable_nat:
  assumes "db_ok b"
  shows "unat (max_writable_bytes fl b) =
    unat (db_max_capacity b) - unat (db_write_index b) +
    (if prependable_bytes b \<ge> FLAGS_move_forward_threshold fl then unat (db_read_index b) else 0)"
proof -
  have le: "unat (db_read_index b) \<le> unat (db_write_index b)" "unat (db_write_index b) \<le> unat (db_max_capacity b)"
    using assms by (auto simp: db_ok_def db_mem_def word_le_unat)
  then have m: "unat (db_max_capacity b - db_write_index b) = unat (db_max_capacity b) - unat (db_write_index b)"
    by (simp add: unat_minus_le word_le_unat)
  have "unat (db_max_capacity b) < 2 ^ 64" using unsigned_less [of "db_max_capacity b"] by simp
  then have "unat (db_max_capacity b - db_write_index b + db_read_index b) =
      unat (db_max_capacity b) - unat (db_write_index b) + unat (db_read_index b)"
    using le m by (subst unat_plus_lt) simp_all
  with m show ?thesis by (simp add: max_writable_word prependable_bytes_def)
qed

lemma append_no_expand:
  assumes ok: "db_ok b" "unat (db_capacity b) + unat (db_read_index b) < 2 ^ 64"
    and n: "n > writable_bytes b" "n \<le> max_writable_bytes fl b"
  shows "\<exists>b1. move_forward b = Inr b1 \<and>
    db_append fl mok b data n ec = bind_res (append_bytes b1 data n) (\<lambda>b3. Inr (b3, ec)) \<and>
    db_mem b1 \<and> db_alloc b1 = db_alloc b \<and> db_content b1 = db_content b \<and>
    db_write_index b1 = db_write_index b - db_read_index b \<and>
    db_capacity b1 = db_capacity b + db_read_index b"
proof -
  obtain b1 where b1: "move_forward b = Inr b1" "db_mem b1" "db_alloc b1 = db_alloc b"
    "db_content b1 = db_content b" "db_read_index b1 = 0"
    "db_write_index b1 = db_write_index b - db_read_index b"
    "db_capacity b1 = db_capacity b + db_read_index b" "db_max_capacity b1 = db_max_capacity b"
    using move_forward_ok [OF ok] by blast
  have le: "unat (db_read_index b) \<le> unat (db_write_index b)" "unat (db_write_index b) \<le> unat (db_max_capacity b)"
    using ok(1) by (auto simp: db_ok_def db_mem_def word_le_unat)
  have "max_writable_bytes fl b1 = db_max_capacity b - db_write_index b + db_read_index b"
    using b1 by (simp add: max_writable_word prependable_bytes_def)
  moreover have "unat (db_max_capacity b - db_write_index b + db_read_index b) =
      unat (db_max_capacity b) - unat (db_write_index b) + unat (db_read_index b)"
  proof -
    have "unat (db_max_capacity b) < 2 ^ 64" using unsigned_less [of "db_max_capacity b"] by simp
    then show ?thesis using le by (subst unat_plus_lt) (simp_all add: unat_minus_le word_le_unat)
  qed
  ultimately have "\<not> n > max_writable_bytes fl b1"
    using n(2) max_writable_nat [OF ok(1), of fl] by (auto simp: word_le_unat not_less split: if_splits)
  then have "db_append fl mok b data n ec = bind_res (append_bytes b1 data n) (\<lambda>b3. Inr (b3, ec))"
    using n b1(1) by (simp add: db_append_def not_less [symmetric])
  with b1 show ?thesis by blast
qed

lemma append_bytes_overflow:
  assumes "db_mem b" "db_alloc b < unat (db_write_index b) + unat n" "unat n \<le> length data"
  shows "append_bytes b data n = Inl OutOfBounds"
  using assms by (auto simp: append_bytes_def deref_block_def db_mem_def mem_read_ok mem_write_def)

section \<open>Data that fits\<close>

lemma db_append_fits:
  assumes "db_ok b" "unat (db_write_index b) + length xs \<le> unat (db_capacity b)"
  shows "\<exists>b1. db_append fl mok b xs (of_nat (length xs)) ec = Inr (b1, ec) \<and> db_ok b1 \<and>
    db_content b1 = db_content b @ map Some xs \<and> db_capacity b1 = db_capacity b \<and>
    unat (db_write_index b1) = unat (db_write_index b) + length xs"
proof -
  have mem: "db_mem b" and alloc: "db_alloc b = unat (db_capacity b)"
    using assms(1) by (auto simp: db_ok_def)
  have "unat (db_capacity b) < 2 ^ 64" using unsigned_less [of "db_capacity b"] by simp
  then have lt: "length xs < 2 ^ 64" using assms(2) by simp
  then have n: "unat (of_nat (length xs) :: size_t) = length xs" by (simp add: unat_of_nat)
  have le: "unat (db_write_index b) \<le> unat (db_capacity b)" using assms(2) by simp
  obtain b1 where b1: "append_bytes b xs (of_nat (length xs)) = Inr b1" "db_mem b1"
      "db_alloc b1 = db_alloc b" "db_content b1 = db_content b @ map Some xs"
      "db_capacity b1 = db_capacity b" "db_max_capacity b1 = db_max_capacity b"
      "unat (db_write_index b1) = unat (db_write_index b) + length xs"
    using append_bytes_ok [OF mem, of "of_nat (length xs)" xs] assms(2) alloc n by auto
  have "\<not> of_nat (length xs) > writable_bytes b"
    using assms(2) n le by (simp add: writable_bytes_def word_less_unat unat_minus_le word_le_unat)
  then have a: "db_append fl mok b xs (of_nat (length xs)) ec = Inr (b1, ec)"
    using b1(1) by (simp add: db_append_def)
  have "db_ok b1" using assms(1) b1 by (auto simp: db_ok_def db_mem_def)
  with a b1 show ?thesis by blast
qed

section \<open>Sequences of appends and consumes\<close>

datatype buffer_op = Append "byte list" | Consume nat

fun run_buffer :: "flags \<Rightarrow> dynamic_buffer \<Rightarrow> buffer_op list \<Rightarrow> (block list \<times> dynamic_buffer) res" where
  "run_buffer fl b [] = Inr ([], b)"
| "run_buffer fl b (Append xs # ops) =
     bind_res (db_append fl True b xs (of_nat (length xs)) Success) (\<lambda>(b', _). run_buffer fl b' ops)"
| "run_buffer fl b (Consume n # ops) =
     bind_res (db_consume b (replicate n None) (of_nat n) Success) (\<lambda>(b', out, _).
     bind_res (run_buffer fl b' ops) (\<lambda>(outs, b''). Inr (out # outs, b'')))"

text \<open>The same on a stream of bytes; a consume beyond the content leaves the target as it was.\<close>

fun run_stream :: "block \<Rightarrow> buffer_op list \<Rightarrow> block list \<times> block" where
  "run_stream xs [] = ([], xs)"
| "run_stream xs (Append ys # ops) = run_stream (xs @ map Some ys) ops"
| "run_stream xs (Consume n # ops) =
     (let (outs, zs) = run_stream (if n \<le> length xs then drop n xs else xs) ops
      in ((if n \<le> length xs then take n xs else replicate n None) # outs, zs))"

fun appended :: "buffer_op list \<Rightarrow> nat" where
  "appended [] = 0"
| "appended (Append xs # ops) = length xs + appended ops"
| "appended (Consume n # ops) = appended ops"

fun op_sizes_ok :: "buffer_op list \<Rightarrow> bool" where
  "op_sizes_ok [] = True"
| "op_sizes_ok (Append xs # ops) = op_sizes_ok ops"
| "op_sizes_ok (Consume n # ops) = (n < 2 ^ 64 \<and> op_sizes_ok ops)"

lemma run_buffer_refines:
  assumes "db_ok b" "unat (db_write_index b) + appended ops \<le> unat (db_capacity b)" "op_sizes_ok ops"
  shows "\<exists>b'. run_buffer fl b ops = Inr (fst (run_stream (db_content b) ops), b') \<and>
    db_ok b' \<and> db_content b' = snd (run_stream (db_content b) ops)"
  using assms
proof (induction ops arbitrary: b rule: appended.induct)
  case (2 xs ops)
  have "unat (db_write_index b) + length xs \<le> unat (db_capacity b)" using "2.prems"(2) by simp
  from db_append_fits [OF "2.prems"(1) this, of fl True Success] obtain b1 where
    b1: "db_append fl True b xs (of_nat (length xs)) Success = Inr (b1, Success)" "db_ok b1"
      "db_content b1 = db_content b @ map Some xs" "db_capacity b1 = db_capacity b"
      "unat (db_write_index b1) = unat (db_write_index b) + length xs" by blast
  from "2.IH" [OF b1(2)] show ?case using b1 "2.prems" by simp
next
  case (3 n ops)
  have mem: "db_mem b" using "3.prems"(1) by (simp add: db_ok_def)
  have n: "unat (of_nat n :: size_t) = n" using "3.prems"(3) by (simp add: unat_of_nat)
  note len = db_content_length [OF mem]
  show ?case
  proof (cases "n \<le> length (db_content b)")
    case True
    then have "(of_nat n :: size_t) \<le> readable_bytes b" using len n by (simp add: word_le_unat)
    from db_consume_ok [OF mem this, of "replicate n None" Success] n obtain b1 where
      b1: "db_consume b (replicate n None) (of_nat n) Success = Inr (b1, take n (db_content b), Success)"
        "db_mem b1" "db_content b1 = drop n (db_content b)" "db_buffer b1 = db_buffer b"
        "db_capacity b1 = db_capacity b" "db_max_capacity b1 = db_max_capacity b"
        "db_write_index b1 = db_write_index b" by auto
    then have "db_ok b1" using "3.prems"(1) by (auto simp: db_ok_def)
    from "3.IH" [OF this] show ?thesis using b1 "3.prems" True by (auto simp: Let_def split: prod.splits)
  next
    case False
    then have "(of_nat n :: size_t) > readable_bytes b" using len n by (simp add: word_less_unat)
    with "3.IH" [OF "3.prems"(1)] "3.prems" False show ?thesis
      by (auto simp: db_consume_def Let_def split: prod.splits)
  qed
qed simp


section \<open>Properties\<close>

text \<open>C14. Within the allocated capacity the buffer is a byte stream: for every sequence of
  appends and consumes whose appended bytes fit the initial capacity altogether, no operation
  leaves the block, every consume returns the oldest bytes (or leaves its target alone and
  fails when there are not enough), and the content at the end is what the stream holds.\<close>

theorem dynamic_buffer_stream:
  assumes "init_capacity \<le> max_capacity" "appended ops \<le> unat init_capacity" "op_sizes_ok ops"
  shows "\<exists>b. run_buffer fl (DynamicBuffer_new True max_capacity init_capacity) ops =
      Inr (fst (run_stream [] ops), b) \<and> db_ok b \<and> db_content b = snd (run_stream [] ops)"
  using run_buffer_refines [of "DynamicBuffer_new True max_capacity init_capacity" ops fl]
    DynamicBuffer_new_ok [OF assms(1)] assms
  by (simp add: DynamicBuffer_new_def)

theorem dynamic_buffer_stream_witness:
  "\<exists>b. run_buffer default_flags (DynamicBuffer_new True 64 8)
      [Append [1, 2, 3], Consume 2, Append [4, 5], Consume 9, Consume 3] =
      Inr ([[Some 1, Some 2], replicate 9 None, [Some 3, Some 4, Some 5]], b) \<and>
    db_ok b \<and> db_content b = []"
proof -
  let ?ops = "[Append [1, 2, 3], Consume 2, Append [4, 5], Consume 9, Consume 3]"
  have "run_stream [] ?ops = ([[Some 1, Some 2], replicate 9 None, [Some 3, Some 4, Some 5]], [])"
    by simp
  with dynamic_buffer_stream [of 8 64 ?ops default_flags] show ?thesis by simp
qed

text \<open>C35. The growing branch of \<open>append\<close> never grows the block: data that passes the limit
  check but is longer than the free space and the consumed prefix together is copied past the
  end of the allocation. (\<open>expand_capacity\<close> is guarded by the limit check a second time,
  which the data has just passed.)\<close>

theorem append_heap_overflow:
  assumes "db_ok b" "unat (db_capacity b) + unat (db_read_index b) < 2 ^ 64"
    and "data_length > writable_bytes b" "data_length \<le> max_writable_bytes fl b"
    and "unat data_length > unat (writable_bytes b) + unat (prependable_bytes b)"
    and "unat data_length \<le> length data"
  shows "db_append fl ok b data data_length ec = Inl OutOfBounds"
proof -
  obtain b1 where b1: "db_append fl ok b data data_length ec = bind_res (append_bytes b1 data data_length) (\<lambda>b3. Inr (b3, ec))"
      "db_mem b1" "db_alloc b1 = db_alloc b" "db_write_index b1 = db_write_index b - db_read_index b"
    using append_no_expand [OF assms(1-4)] by blast
  have le: "unat (db_read_index b) \<le> unat (db_write_index b)" "unat (db_write_index b) \<le> unat (db_capacity b)"
    and alloc: "db_alloc b = unat (db_capacity b)"
    using assms(1) by (auto simp: db_ok_def db_mem_def word_le_unat)
  have "db_alloc b1 < unat (db_write_index b1) + unat data_length"
    using assms(5) le alloc b1(3,4)
    by (simp add: writable_bytes_def prependable_bytes_def unat_minus_le word_le_unat)
  from append_bytes_overflow [OF b1(2) this assms(6)] b1(1) show ?thesis by simp
qed

theorem append_heap_overflow_witness:
  "db_append default_flags True (DynamicBuffer_default default_flags True) (replicate 1025 0) 1025 Success
     = Inl OutOfBounds"
proof -
  have "db_ok (DynamicBuffer_default default_flags True)"
    using DynamicBuffer_new_ok [of 1024 "1024 * 1024 * 64"]
    by (simp add: DynamicBuffer_default_def default_flags_def)
  then show ?thesis
    by (rule append_heap_overflow)
      (simp_all add: DynamicBuffer_default_def DynamicBuffer_new_def default_flags_def
        writable_bytes_def prependable_bytes_def max_writable_bytes_def Let_def)
qed

text \<open>Data that fits only after the consumed prefix is reused is appended to the content,
  inside the block; but the field \<open>capacity_\<close> then exceeds the size of the block by the length
  of that prefix, so the object no longer knows its own size.\<close>

lemma append_overstates_capacity:
  assumes "db_ok b" "unat (db_capacity b) + unat (db_read_index b) < 2 ^ 64"
    and "data_length > writable_bytes b" "data_length \<le> max_writable_bytes fl b"
    and "unat data_length \<le> unat (writable_bytes b) + unat (prependable_bytes b)"
    and "unat data_length \<le> length data"
  shows "\<exists>b'. db_append fl ok b data data_length ec = Inr (b', ec) \<and>
    db_content b' = db_content b @ map Some (take (unat data_length) data) \<and>
    unat (db_capacity b') = db_alloc b' + unat (prependable_bytes b) \<and> \<not> db_ok b'"
proof -
  obtain b1 where b1: "db_append fl ok b data data_length ec = bind_res (append_bytes b1 data data_length) (\<lambda>b3. Inr (b3, ec))"
      "db_mem b1" "db_alloc b1 = db_alloc b" "db_content b1 = db_content b"
      "db_write_index b1 = db_write_index b - db_read_index b"
      "db_capacity b1 = db_capacity b + db_read_index b"
    using append_no_expand [OF assms(1-4)] by blast
  have le: "unat (db_read_index b) \<le> unat (db_write_index b)" "unat (db_write_index b) \<le> unat (db_capacity b)"
    and alloc: "db_alloc b = unat (db_capacity b)"
    using assms(1) by (auto simp: db_ok_def db_mem_def word_le_unat)
  have room: "unat (db_write_index b1) + unat data_length \<le> db_alloc b1"
    using assms(5) le alloc b1(3,5)
    by (simp add: writable_bytes_def prependable_bytes_def unat_minus_le word_le_unat)
  obtain b3 where b3: "append_bytes b1 data data_length = Inr b3" "db_alloc b3 = db_alloc b1"
      "db_content b3 = db_content b1 @ map Some (take (unat data_length) data)"
      "db_capacity b3 = db_capacity b1"
    using append_bytes_ok [OF b1(2) room assms(6)] by blast
  have cap: "unat (db_capacity b3) = db_alloc b3 + unat (prependable_bytes b)"
    using b3 b1 alloc assms(2) by (simp add: unat_plus_lt prependable_bytes_def)
  moreover have "unat (prependable_bytes b) > 0"
    using assms(3,5) by (simp add: word_less_unat)
  ultimately have "\<not> db_ok b3" by (auto simp: db_ok_def)
  with b1 b3 cap show ?thesis by (intro exI [of _ b3]) simp
qed

lemma append_overstates_capacity_witness:
  "let fl = default_flags\<lparr>FLAGS_move_forward_threshold := 2\<rparr>;
       b = \<lparr>db_buffer = Some (map Some [1, 2, 3, 4]), db_read_index = 2, db_write_index = 4,
            db_capacity = 4, db_max_capacity = 64\<rparr>
   in \<exists>b'. db_append fl True b [5, 6] 2 Success = Inr (b', Success) \<and>
     db_content b' = map Some [3, 4, 5, 6] \<and> unat (db_capacity b') = db_alloc b' + 2 \<and> \<not> db_ok b'"
proof -
  let ?b = "\<lparr>db_buffer = Some (map Some [1, 2, 3, 4]), db_read_index = 2, db_write_index = 4,
    db_capacity = 4, db_max_capacity = 64\<rparr>"
  let ?fl = "default_flags\<lparr>FLAGS_move_forward_threshold := 2\<rparr>"
  have ok: "db_ok ?b" by (simp add: db_ok_def db_mem_def)
  have c: "db_content ?b = [Some 3, Some 4]" by (simp add: db_content_def)
  have n: "writable_bytes ?b = 0" "prependable_bytes ?b = 2" "max_writable_bytes ?fl ?b = 62"
    by (simp_all add: max_writable_bytes_def writable_bytes_def prependable_bytes_def)
  show ?thesis
    using append_overstates_capacity [OF ok, of 2 ?fl "[5, 6]" True Success] unfolding Let_def c n by simp
qed

text \<open>\<open>consume\<close> hands out exactly the oldest bytes when they are there, and otherwise
  reports \<open>ExceedBufferBound\<close> and changes neither the buffer nor the target.\<close>

lemma consume_spec:
  assumes "db_mem b" "unat data_length \<le> length data"
  shows "if unat data_length \<le> length (db_content b)
    then \<exists>b'. db_consume b data data_length ec =
        Inr (b', take (unat data_length) (db_content b) @ drop (unat data_length) data, ec) \<and>
      db_mem b' \<and> db_content b' = drop (unat data_length) (db_content b)
    else db_consume b data data_length ec = Inr (b, data, ExceedBufferBound)"
proof (cases "data_length \<le> readable_bytes b")
  case True
  then have "unat data_length \<le> length (db_content b)"
    using db_content_length [OF assms(1)] by (simp add: word_le_unat)
  with db_consume_ok [OF assms(1) True assms(2)] show ?thesis by auto
next
  case False
  then show ?thesis using db_content_length [OF assms(1)]
    by (simp add: word_le_unat db_consume_def word_less_unat)
qed

lemma consume_spec_witness:
  "let b = \<lparr>db_buffer = Some (map Some [1, 2, 3, 4]), db_read_index = 1, db_write_index = 4,
            db_capacity = 4, db_max_capacity = 64\<rparr>
   in \<exists>b'. db_consume b [None, None] 2 Success = Inr (b', [Some 2, Some 3], Success) \<and>
     db_content b' = [Some 4]"
proof -
  let ?b = "\<lparr>db_buffer = Some (map Some [1, 2, 3, 4]), db_read_index = 1, db_write_index = 4,
            db_capacity = 4, db_max_capacity = 64\<rparr>"
  have m: "db_mem ?b" by (simp add: db_mem_def)
  have c: "db_content ?b = [Some 2, Some 3, Some 4]" by (simp add: db_content_def)
  show ?thesis using consume_spec [OF m, of 2 "[None, None]" Success]
    unfolding Let_def c by simp blast
qed

end
