(* ===== verification/Partial_Search.thy ===== *)
theory Partial_Search
  imports Smart_Prelude "HOL-Library.Sublist"
begin

text \<open>
  The delimiter search of \<open>src/internal/smart_routine_impl.cpp\<close>, \<open>partial_search\<close>: the two
  nested loops with their 32-bit counters against 64-bit lengths, the reads through the raw
  pointer, and the specification of the search as the first position at which the delimiter
  and the rest of the data agree.
\<close>

section \<open>The loops\<close>

datatype partial_search_result = Match | PartialMatch | NotMatch

definition char_at :: "block \<Rightarrow> uint32 \<Rightarrow> byte res" where
  "char_at buf i = (if unat i < length buf then case buf ! unat i of None \<Rightarrow> Inl UninitRead | Some c \<Rightarrow> Inr c
     else Inl OutOfBounds)"

text \<open>
  The inner loop from \<open>j\<close> and \<open>test_i\<close>: a result that makes the function return, or \<open>None\<close>
  when the loop is left by the \<open>break\<close> or its condition.
\<close>

partial_function (option) inner_loop ::
  "block \<Rightarrow> size_t \<Rightarrow> byte list \<Rightarrow> uint32 \<Rightarrow> uint32 \<Rightarrow> uint32 \<Rightarrow>
   (partial_search_result \<times> size_t) option res option" where
  "inner_loop search_buffer search_buffer_length search_str i j test_i =
     (if (ucast j :: size_t) < of_nat (length search_str) then
        (case char_at search_buffer test_i of
           Inl u \<Rightarrow> Some (Inl u)
         | Inr c \<Rightarrow>
             if c = search_str ! unat j then
               if (ucast j :: size_t) = of_nat (length search_str) - 1
               then Some (Inr (Some (Match, ucast i)))
               else if (ucast test_i :: size_t) = search_buffer_length - 1
               then Some (Inr (Some (PartialMatch, ucast i)))
               else inner_loop search_buffer search_buffer_length search_str i (j + 1) (test_i + 1)
             else Some (Inr None))
      else Some (Inr None))"

partial_function (option) outer_loop ::
  "block \<Rightarrow> size_t \<Rightarrow> byte list \<Rightarrow> uint32 \<Rightarrow> (partial_search_result \<times> size_t) res option" where
  "outer_loop search_buffer search_buffer_length search_str i =
     (if (ucast i :: size_t) < search_buffer_length then
        Option.bind (inner_loop search_buffer search_buffer_length search_str i 0 i) (\<lambda>r. case r of
           Inl u \<Rightarrow> Some (Inl u)
         | Inr q \<Rightarrow> (case q of Some result \<Rightarrow> Some (Inr result)
             | None \<Rightarrow> outer_loop search_buffer search_buffer_length search_str (i + 1)))
      else Some (Inr (NotMatch, 0)))"

definition partial_search ::
  "block \<Rightarrow> size_t \<Rightarrow> byte list \<Rightarrow> (partial_search_result \<times> size_t) res option" where
  "partial_search search_buffer search_buffer_length search_str =
     outer_loop search_buffer search_buffer_length search_str 0"

section \<open>Specification\<close>

text \<open>
  At a hit the delimiter and the data from that position on agree as far as both go: either
  the whole delimiter is there, or the data ends inside it.
\<close>

definition hit :: "'a list \<Rightarrow> 'a list \<Rightarrow> nat \<Rightarrow> bool" where
  "hit xs str i \<longleftrightarrow> prefix str (drop i xs) \<or> prefix (drop i xs) str"

fun search_from :: "'a list \<Rightarrow> 'a list \<Rightarrow> nat \<Rightarrow> nat \<Rightarrow> partial_search_result \<times> nat" where
  "search_from xs str i 0 = (NotMatch, 0)"
| "search_from xs str i (Suc n) =
     (if prefix str (drop i xs) then (Match, i)
      else if prefix (drop i xs) str then (PartialMatch, i)
      else search_from xs str (Suc i) n)"

definition search_spec :: "'a list \<Rightarrow> 'a list \<Rightarrow> partial_search_result \<times> nat" where
  "search_spec xs str = search_from xs str 0 (length xs)"

lemma prefix_drop_step:
  assumes "i < length xs" "j < length str" "take j (drop i xs) = take j str" "i + j < length xs"
  shows "take (Suc j) (drop i xs) = take (Suc j) str \<longleftrightarrow> xs ! (i + j) = str ! j"
  using assms by (auto simp: take_Suc_conv_app_nth)

section \<open>The loops compute the specification\<close>


lemma ucast_of_nat_32: "n < 2 ^ 32 \<Longrightarrow> (ucast (of_nat n :: uint32) :: size_t) = of_nat n"
  by (simp add: word_eq_unat unsigned_ucast_eq unsigned_of_nat take_bit_nat_eq_self)

lemma of_nat_64_less: "m < 2 ^ 64 \<Longrightarrow> n < 2 ^ 64 \<Longrightarrow> (of_nat m :: size_t) < of_nat n \<longleftrightarrow> m < n"
  by (simp add: word_less_unat unat_of_nat)

lemma of_nat_64_pred: "m < 2 ^ 64 \<Longrightarrow> n < 2 ^ 64 \<Longrightarrow> 0 < n \<Longrightarrow> (of_nat m :: size_t) = of_nat n - 1 \<longleftrightarrow> Suc m = n"
  by (cases n) (simp_all add: word_eq_unat unat_of_nat)

lemma char_at_ok:
  assumes "take (length xs) buf = map Some xs" "k < length xs" "length xs < 2 ^ 32"
  shows "char_at buf (of_nat k) = Inr (xs ! k)"
proof -
  have "k < length buf" using assms by (metis length_map length_take min_less_iff_conj)
  moreover have "buf ! k = Some (xs ! k)" using assms(1,2) by (metis nth_map nth_take)
  ultimately show ?thesis using assms by (simp add: char_at_def unat_of_nat)
qed

lemma prefix_take_conv: "prefix xs ys \<longleftrightarrow> xs = take (length xs) ys"
  by (metis append_eq_conv_conj prefix_def take_is_prefix)

lemma prefix_nth: "prefix xs ys \<Longrightarrow> j < length xs \<Longrightarrow> ys ! j = xs ! j"
  by (auto simp: prefix_def nth_append)

lemma inner_loop_ok:
  assumes "take (length xs) buf = map Some xs" "length xs < 2 ^ 32" "length str < 2 ^ 64"
  shows "i + j < length xs \<Longrightarrow> j < length str \<Longrightarrow> take j (drop i xs) = take j str \<Longrightarrow>
    inner_loop buf (of_nat (length xs)) str (of_nat i) (of_nat j) (of_nat (i + j)) =
    Some (Inr (if prefix str (drop i xs) then Some (Match, of_nat i)
               else if prefix (drop i xs) str then Some (PartialMatch, of_nat i) else None))"
proof (induction "length xs - (i + j)" arbitrary: j rule: less_induct)
  case less
  note pr = less.prems
  have lt: "i < 2 ^ 32" "j < 2 ^ 32" "i + j < 2 ^ 32" "j < 2 ^ 64" "i + j < 2 ^ 64" "length xs < 2 ^ 64" "0 < length xs"
    using pr assms(2) by auto
  have at: "char_at buf (of_nat (i + j)) = Inr (xs ! (i + j))"
    by (rule char_at_ok [OF assms(1) pr(1) assms(2)])
  have j: "unat (of_nat j :: uint32) = j" using lt by (simp add: unat_of_nat)
  have sl: "0 < length str" using pr(2) by linarith
  note u = ucast_of_nat_32 [OF lt(1)] ucast_of_nat_32 [OF lt(2)] ucast_of_nat_32 [OF lt(3)]
  have unfold: "inner_loop buf (of_nat (length xs)) str (of_nat i) (of_nat j) (of_nat (i + j)) =
     (if xs ! (i + j) = str ! j then
        if Suc j = length str then Some (Inr (Some (Match, of_nat i)))
        else if Suc (i + j) = length xs then Some (Inr (Some (PartialMatch, of_nat i)))
        else inner_loop buf (of_nat (length xs)) str (of_nat i) (of_nat (Suc j)) (of_nat (i + Suc j))
      else Some (Inr None))"
    apply (subst inner_loop.simps)
    apply (simp only: u at j of_nat_64_less [OF lt(4) assms(3)] of_nat_64_pred [OF lt(5,6,7)]
      of_nat_64_pred [OF lt(4) assms(3) sl] if_True pr(2) sum.case)
    by (simp add: add.commute add.left_commute)
  show ?case
  proof (cases "xs ! (i + j) = str ! j")
    case False
    then have "\<not> prefix str (drop i xs)" "\<not> prefix (drop i xs) str"
      using pr(1,2) prefix_nth [of str "drop i xs" j] prefix_nth [of "drop i xs" str j]
      by (auto simp: less_diff_conv add.commute)
    then show ?thesis using False unfolding unfold by simp
  next
    case True
    have tk: "take (Suc j) (drop i xs) = take (Suc j) str"
      using prefix_drop_step [of i xs j str] True pr by simp
    consider (m) "Suc j = length str" | (p) "Suc j < length str" "Suc (i + j) = length xs"
      | (r) "Suc j < length str" "Suc (i + j) < length xs" using pr by linarith
    then show ?thesis
    proof cases
      case m
      then have "prefix str (drop i xs)" using tk by (simp add: prefix_take_conv)
      then show ?thesis using True m unfolding unfold by simp
    next
      case p
      then have "prefix (drop i xs) str" using tk by (simp add: prefix_take_conv)
      moreover have "\<not> prefix str (drop i xs)" using p prefix_length_le [of str "drop i xs"] by auto
      ultimately show ?thesis using True p unfolding unfold by simp
    next
      case r
      then have "inner_loop buf (of_nat (length xs)) str (of_nat i) (of_nat (Suc j)) (of_nat (i + Suc j)) =
        Some (Inr (if prefix str (drop i xs) then Some (Match, of_nat i)
               else if prefix (drop i xs) str then Some (PartialMatch, of_nat i) else None))"
        using tk by (intro less.hyps) auto
      then show ?thesis using True r unfolding unfold by simp
    qed
  qed
qed

lemma outer_loop_ok:
  assumes "take (length xs) buf = map Some xs" "length xs < 2 ^ 32" "length str < 2 ^ 64" "str \<noteq> []"
  shows "i + n = length xs \<Longrightarrow> outer_loop buf (of_nat (length xs)) str (of_nat i) =
    Some (Inr (apsnd of_nat (search_from xs str i n)))"
proof (induction n arbitrary: i)
  case 0
  then have "i < 2 ^ 32" using assms(2) by simp
  with 0 show ?case by (subst outer_loop.simps) (simp add: ucast_of_nat_32)
next
  case (Suc n)
  have lt: "i < 2 ^ 32" "i < 2 ^ 64" "length xs < 2 ^ 64" using assms(2) Suc.prems by auto
  have inner: "inner_loop buf (of_nat (length xs)) str (of_nat i) 0 (of_nat i) =
    Some (Inr (if prefix str (drop i xs) then Some (Match, of_nat i)
               else if prefix (drop i xs) str then Some (PartialMatch, of_nat i) else None))"
    using inner_loop_ok [OF assms(1-3), of i 0] Suc.prems assms(4) by simp
  have IH: "outer_loop buf (of_nat (length xs)) str (of_nat i + 1) =
      Some (Inr (apsnd of_nat (search_from xs str (Suc i) n)))"
    using Suc.IH [of "Suc i"] Suc.prems by (simp add: add.commute)
  show ?case
    using Suc.prems inner IH of_nat_64_less [OF lt(2,3)]
    by (subst outer_loop.simps) (simp add: ucast_of_nat_32 [OF lt(1)])
qed

section \<open>What the specification says\<close>


lemma search_from_cases:
  "case search_from xs str i n of
     (Match, p) \<Rightarrow> i \<le> p \<and> p < i + n \<and> prefix str (drop p xs) \<and> (\<forall>k. i \<le> k \<longrightarrow> k < p \<longrightarrow> \<not> hit xs str k)
   | (PartialMatch, p) \<Rightarrow> i \<le> p \<and> p < i + n \<and> prefix (drop p xs) str \<and> \<not> prefix str (drop p xs) \<and>
       (\<forall>k. i \<le> k \<longrightarrow> k < p \<longrightarrow> \<not> hit xs str k)
   | (NotMatch, p) \<Rightarrow> p = 0 \<and> (\<forall>k. i \<le> k \<longrightarrow> k < i + n \<longrightarrow> \<not> hit xs str k)"
proof (induction n arbitrary: i)
  case (Suc n)
  have step: "(\<forall>k. i \<le> k \<longrightarrow> k < m \<longrightarrow> \<not> hit xs str k) \<longleftrightarrow> (\<forall>k. Suc i \<le> k \<longrightarrow> k < m \<longrightarrow> \<not> hit xs str k)"
    if "\<not> hit xs str i" for m
    using that by (metis Suc_leD Suc_leI le_neq_implies_less)
  show ?case
  proof (cases "hit xs str i")
    case False
    then have "search_from xs str i (Suc n) = search_from xs str (Suc i) n" by (simp add: hit_def)
    with Suc.IH [of "Suc i"] show ?thesis
      by (simp add: step [OF False] split: prod.splits partial_search_result.splits)
  qed (auto simp: hit_def)
qed simp

lemma hit_append: "\<not> hit xs str k \<Longrightarrow> k \<le> length xs \<Longrightarrow> \<not> hit (xs @ ys) str k"
  by (auto simp: hit_def prefix_append) (metis append_prefixD)

lemma search_from_drop:
  "e \<le> length xs \<Longrightarrow> search_from (drop e xs) str i n =
    (case search_from xs str (e + i) n of (r, p) \<Rightarrow> (r, if r = NotMatch then 0 else p - e))"
  by (induction n arbitrary: i) (simp_all add: add.commute)

lemma search_from_skip:
  "(\<forall>k < e. \<not> hit xs str k) \<Longrightarrow> e \<le> n \<Longrightarrow> search_from xs str e (n - e) = search_from xs str 0 n"
proof (induction e)
  case (Suc e)
  then have "n - e = Suc (n - Suc e)" "\<not> hit xs str e" by auto
  then have "search_from xs str e (n - e) = search_from xs str (Suc e) (n - Suc e)"
    by (simp add: hit_def)
  with Suc show ?case by simp
qed simp

lemma no_match_after_partial:
  assumes "prefix (drop p xs) str" "\<not> prefix str (drop p xs)" "p \<le> k"
  shows "\<not> prefix str (drop k xs)"
proof
  assume "prefix str (drop k xs)"
  then have "length str \<le> length xs - k" using prefix_length_le by force
  moreover have "length xs - p \<le> length str" using prefix_length_le [OF assms(1)] by simp
  ultimately have "length (drop p xs) = length str" using assms(3) by simp
  with assms(1,2) show False by (auto simp: prefix_def)
qed

section \<open>Properties\<close>

text \<open>C11. The delimiter search always returns, reads only initialised bytes of the data it is
  given, and is exact: \<open>Match\<close> at the first position where the whole delimiter stands,
  \<open>PartialMatch\<close> at the first position from which the data is a proper beginning of the delimiter when the
  delimiter does not occur, and \<open>NotMatch\<close> when there is neither. The data must be shorter
  than the range of the 32-bit loop counter.\<close>

theorem partial_search_correct:
  assumes "take (length xs) search_buffer = map Some xs" "length xs < 2 ^ 32"
    and "search_str \<noteq> []" "length search_str < 2 ^ 64"
  shows "\<exists>r p. partial_search search_buffer (of_nat (length xs)) search_str = Some (Inr (r, of_nat p)) \<and>
    (case r of
       Match \<Rightarrow> p < length xs \<and> prefix search_str (drop p xs) \<and> (\<forall>k < p. \<not> prefix search_str (drop k xs))
     | PartialMatch \<Rightarrow> p < length xs \<and> prefix (drop p xs) search_str \<and>
         (\<forall>k < length xs. \<not> prefix search_str (drop k xs)) \<and> (\<forall>k < p. \<not> prefix (drop k xs) search_str)
     | NotMatch \<Rightarrow> p = 0 \<and>
         (\<forall>k < length xs. \<not> prefix search_str (drop k xs) \<and> \<not> prefix (drop k xs) search_str))"
proof -
  obtain r p where rp: "search_from xs search_str 0 (length xs) = (r, p)" by fastforce
  have "partial_search search_buffer (of_nat (length xs)) search_str = Some (Inr (r, of_nat p))"
    using outer_loop_ok [OF assms(1,2,4,3), of 0 "length xs"] rp by (simp add: partial_search_def)
  moreover note search_from_cases [where xs = xs and str = search_str and i = 0 and n = "length xs", unfolded rp]
  ultimately show ?thesis
    using no_match_after_partial [of p xs search_str]
    by (intro exI [of _ r] exI [of _ p] conjI) (auto simp: hit_def split: partial_search_result.splits, metis not_le)
qed

theorem partial_search_correct_witness:
  "\<exists>r p. partial_search [Some 1, Some 2, Some 1, Some 3, None] 4 [1, 3] = Some (Inr (r, of_nat p))
     \<and> (r = Match \<longrightarrow> p < 4 \<and> prefix [1, 3] (drop p [1, 2, 1, 3::byte]))"
proof -
  have "take (length [1, 2, 1, 3::byte]) [Some 1, Some 2, Some 1, Some 3, None] = map Some [1, 2, 1, 3]"
    by simp
  from partial_search_correct [OF this, of "[1, 3]"] obtain r p where
    "partial_search [Some 1, Some 2, Some 1, Some 3, None] 4 [1, 3] = Some (Inr (r, of_nat p))"
    "r = Match \<longrightarrow> p < 4 \<and> prefix [1, 3] (drop p [1, 2, 1, 3::byte])"
    by (fastforce split: partial_search_result.splits)
  then show ?thesis by blast
qed

text \<open>An empty delimiter is never found: \<open>NotMatch\<close> whatever the data.\<close>

lemma partial_search_empty:
  assumes "search_buffer_length < 2 ^ 32"
  shows "partial_search search_buffer search_buffer_length [] = Some (Inr (NotMatch, 0))"
proof -
  have inner: "inner_loop search_buffer search_buffer_length [] i j k = Some (Inr None)" for i j k
    by (subst inner_loop.simps) simp
  have "i + n = unat search_buffer_length \<Longrightarrow>
    outer_loop search_buffer search_buffer_length [] (of_nat i) = Some (Inr (NotMatch, 0))" for i n
  proof (induction n arbitrary: i)
    case 0
    have "i < 2 ^ 32" using 0 assms by (simp add: word_less_unat)
    then have "(ucast (of_nat i :: uint32) :: size_t) = search_buffer_length"
      using 0 by (simp only: ucast_of_nat_32) simp
    then show ?case by (subst outer_loop.simps) simp
  next
    case (Suc n)
    have "outer_loop search_buffer search_buffer_length [] (of_nat i + 1) = Some (Inr (NotMatch, 0))"
      using Suc.IH [of "Suc i"] Suc.prems by (simp add: add.commute)
    then show ?case by (subst outer_loop.simps) (simp add: inner)
  qed
  from this [of 0] show ?thesis by (simp add: partial_search_def)
qed

lemma partial_search_empty_witness: "partial_search [Some 7] 1 [] = Some (Inr (NotMatch, 0))"
  using partial_search_empty [of 1 "[Some 7]"] by simp
end
