(* ===== verification/Smart_Io.thy ===== *)
theory Smart_Io
  imports EPoll Dynamic_Buffer Partial_Search
begin

text \<open>
  The blocking calls of \<open>src/smart_routine.cpp\<close> (\<open>smart_socket\<close>, \<open>smart_read\<close>,
  \<open>smart_write\<close>, \<open>smart_accept\<close>, \<open>smart_connect\<close>, \<open>smart_read_until\<close>) and the
  callbacks of \<open>src/internal/smart_routine_impl.cpp\<close> that the event loop runs for them.

  A call constructs an item and a context on the stack of its coroutine and yields; the
  deferred callback enables the item; each reported event runs the callback, which makes one
  system call and resumes the coroutine when the operation is finished; the coroutine then reads
  the result from the context. What the system calls return is a list of outcomes, one per
  event, with what their manual pages promise as hypotheses. The scheduling in between is
  the subject of the theories on the scheduler.
\<close>

section \<open>Resuming\<close>

datatype io_callback =
    Smart_read_impl nat | Smart_write_impl nat | Smart_connect_impl nat | Smart_accept_impl nat | Smart_read_until_impl nat

text \<open>The event loop's side of a call: the poller and the coroutines resumed so far.\<close>

type_synonym 'x io_world = "(io_callback, 'x) epoller_scheme \<times> nat list"

definition resume_read_coro :: "epoll_ctl \<Rightarrow> nat \<Rightarrow> item_ptr \<Rightarrow> 'x io_world \<Rightarrow> 'x io_world res" where
  "resume_read_coro ctl coro item w =
     bind_res (disable_reading ctl item (fst w)) (\<lambda>ep. Inr (ep, snd w @ [coro]))"

definition resume_write_coro :: "epoll_ctl \<Rightarrow> nat \<Rightarrow> item_ptr \<Rightarrow> 'x io_world \<Rightarrow> 'x io_world res" where
  "resume_write_coro ctl coro item w =
     bind_res (disable_writing ctl item (fst w)) (\<lambda>ep. Inr (ep, snd w @ [coro]))"

abbreviation EWOULDBLOCK :: int where "EWOULDBLOCK \<equiv> 11"
abbreviation EINPROGRESS :: int where "EINPROGRESS \<equiv> 115"

text \<open>\<open>int ret = ...\<close>: the 64-bit result of a system call in an \<open>int\<close>.\<close>

definition to_int :: "int \<Rightarrow> int" where
  "to_int x = signed_take_bit 31 x"

lemma to_int_id: "- (2 ^ 31) \<le> x \<Longrightarrow> x < 2 ^ 31 \<Longrightarrow> to_int x = x"
  by (simp add: to_int_def signed_take_bit_int_eq_self)

section \<open>Contexts and callbacks\<close>

record read_context =
  rc_fd :: fd
  rc_buf :: block
  rc_count :: size_t
  rc_coro :: nat
  rc_item :: item_ptr
  rc_ret :: size_t
  rc_errno :: int

definition ReadContext :: "fd \<Rightarrow> block \<Rightarrow> size_t \<Rightarrow> nat \<Rightarrow> item_ptr \<Rightarrow> read_context" where
  "ReadContext fd buf cnt coro item =
     \<lparr>rc_fd = fd, rc_buf = buf, rc_count = cnt, rc_coro = coro, rc_item = item, rc_ret = 0, rc_errno = 0\<rparr>"

text \<open>An outcome of \<open>read\<close>: its result, the bytes it stored, \<open>errno\<close>.\<close>

type_synonym read_outcome = "int \<times> byte list \<times> int"

definition smart_read_impl ::
  "epoll_ctl \<Rightarrow> read_outcome \<Rightarrow> read_context \<times> 'x io_world \<Rightarrow> (read_context \<times> 'x io_world) res" where
  "smart_read_impl ctl = (\<lambda>(result, data, err) (c, w).
     bind_res (mem_write (rc_buf c) (unat (rc_ret c)) (map Some data)) (\<lambda>buf.
       let ret = to_int result; c1 = c\<lparr>rc_buf := buf\<rparr> in
       if ret > 0 then
         let c2 = c1\<lparr>rc_ret := rc_ret c1 + of_int ret\<rparr> in
         if rc_ret c2 = rc_count c2
         then bind_res (resume_read_coro ctl (rc_coro c2) (rc_item c2) w) (\<lambda>w'. Inr (c2, w'))
         else Inr (c2, w)
       else if ret < 0 \<and> err \<noteq> EWOULDBLOCK then
         let c2 = c1\<lparr>rc_ret := -1, rc_errno := err\<rparr> in
         bind_res (resume_read_coro ctl (rc_coro c2) (rc_item c2) w) (\<lambda>w'. Inr (c2, w'))
       else if ret = 0 then
         bind_res (resume_read_coro ctl (rc_coro c1) (rc_item c1) w) (\<lambda>w'. Inr (c1, w'))
       else Inr (c1, w)))"

record write_context =
  wc_fd :: fd
  wc_buf :: block
  wc_count :: size_t
  wc_coro :: nat
  wc_item :: item_ptr
  wc_ret :: size_t
  wc_errno :: int
  wc_sent :: block          \<comment> \<open>what the kernel has taken so far\<close>

definition WriteContext :: "fd \<Rightarrow> block \<Rightarrow> size_t \<Rightarrow> nat \<Rightarrow> item_ptr \<Rightarrow> write_context" where
  "WriteContext fd buf cnt coro item =
     \<lparr>wc_fd = fd, wc_buf = buf, wc_count = cnt, wc_coro = coro, wc_item = item, wc_ret = 0, wc_errno = 0,
      wc_sent = []\<rparr>"

text \<open>An outcome of \<open>write\<close>: its result and \<open>errno\<close>; the kernel takes that many of the bytes
  it was given.\<close>

definition smart_write_impl ::
  "epoll_ctl \<Rightarrow> int \<times> int \<Rightarrow> write_context \<times> 'x io_world \<Rightarrow> (write_context \<times> 'x io_world) res" where
  "smart_write_impl ctl = (\<lambda>(result, err) (c, w).
     bind_res (mem_read (wc_buf c) (unat (wc_ret c)) (unat (wc_count c - wc_ret c))) (\<lambda>xs.
       let ret = to_int result; c1 = c\<lparr>wc_sent := wc_sent c @ take (nat result) xs\<rparr> in
       if ret > 0 then
         let c2 = c1\<lparr>wc_ret := wc_ret c1 + of_int ret\<rparr> in
         if wc_ret c2 = wc_count c2
         then bind_res (resume_write_coro ctl (wc_coro c2) (wc_item c2) w) (\<lambda>w'. Inr (c2, w'))
         else Inr (c2, w)
       else if ret < 0 \<and> err \<noteq> EWOULDBLOCK then
         let c2 = c1\<lparr>wc_ret := -1, wc_errno := err\<rparr> in
         bind_res (resume_write_coro ctl (wc_coro c2) (wc_item c2) w) (\<lambda>w'. Inr (c2, w'))
       else Inr (c1, w)))"

record connect_context =
  cc_sockfd :: fd
  cc_coro :: nat
  cc_item :: item_ptr
  cc_errno :: int

text \<open>An outcome of \<open>getsockopt\<close>: its result, the value of \<open>SO_ERROR\<close>, \<open>errno\<close>.\<close>

definition smart_connect_impl ::
  "epoll_ctl \<Rightarrow> int \<times> int \<times> int \<Rightarrow> connect_context \<times> 'x io_world \<Rightarrow> (connect_context \<times> 'x io_world) res" where
  "smart_connect_impl ctl = (\<lambda>(ret, error, err) (c, w).
     let c1 = (if ret < 0 then c\<lparr>cc_errno := err\<rparr>
               else if error \<noteq> 0 then c\<lparr>cc_errno := error\<rparr> else c)
     in bind_res (resume_write_coro ctl (cc_coro c1) (cc_item c1) w) (\<lambda>w'. Inr (c1, w')))"

record accept_context =
  ac_sockfd :: fd
  ac_coro :: nat
  ac_item :: item_ptr
  ac_errno :: int
  ac_ret :: int

text \<open>An outcome of \<open>accept\<close>: its result and \<open>errno\<close>.\<close>

definition smart_accept_impl ::
  "epoll_ctl \<Rightarrow> int \<times> int \<Rightarrow> accept_context \<times> 'x io_world \<Rightarrow> (accept_context \<times> 'x io_world) res" where
  "smart_accept_impl ctl = (\<lambda>(ret, err) (c, w).
     if ret < 0 \<and> err \<noteq> EWOULDBLOCK then
       let c1 = c\<lparr>ac_ret := -1, ac_errno := err\<rparr> in
       bind_res (resume_read_coro ctl (ac_coro c1) (ac_item c1) w) (\<lambda>w'. Inr (c1, w'))
     else if ret \<ge> 0 then
       let c1 = c\<lparr>ac_ret := ret\<rparr> in
       bind_res (resume_read_coro ctl (ac_coro c1) (ac_item c1) w) (\<lambda>w'. Inr (c1, w'))
     else Inr (c, w))"

section \<open>The blocking calls\<close>

text \<open>
  The events of a call: the callback runs once per outcome until it resumes the coroutine.
  \<open>None\<close> when the coroutine still waits after the given outcomes.
\<close>

fun await :: "('o \<Rightarrow> 'c \<times> 'x io_world \<Rightarrow> ('c \<times> 'x io_world) res) \<Rightarrow> nat \<Rightarrow> 'o list \<Rightarrow> 'c \<times> 'x io_world \<Rightarrow>
    ('c \<times> 'x io_world) option res" where
  "await impl coro [] s = Inr None"
| "await impl coro (out # outs) s =
     bind_res (impl out s) (\<lambda>s'.
       if coro \<in> set (snd (snd s')) then Inr (Some s') else await impl coro outs s')"

text \<open>The item of a call: constructed on the stack with its callback, destroyed at the end.\<close>

definition open_item ::
  "(io_callback epoll_item \<Rightarrow> io_callback epoll_item) \<Rightarrow> fd \<Rightarrow> item_ptr \<Rightarrow> (io_callback, 'x) epoller_scheme \<Rightarrow> (io_callback, 'x) epoller_scheme" where
  "open_item set_callback fd item ep = put_item item (set_callback (EPollItem_new fd)) ep"

definition close_item :: "item_ptr \<Rightarrow> (io_callback, 'x) epoller_scheme \<Rightarrow> (io_callback, 'x) epoller_scheme" where
  "close_item item ep = ep\<lparr>ep_items := (ep_items ep)(item := None)\<rparr>"

text \<open>What a call returns. The argument \<open>errno\<close> of the calls is the value of \<open>errno\<close> on the thread
  the coroutine goes on, as it is when the call returns from \<open>yield\<close>.\<close>

record 'b io_return =
  io_ret :: int
  io_errno :: int
  io_data :: 'b
  io_epoller :: "io_callback epoller"

text \<open>
  \<open>smart_read\<close> in a coroutine (\<open>tls\<close>): \<open>context.ret_\<close> is a \<open>size_t\<close>, so the guard of the
  assignment to \<open>errno\<close> compares an unsigned value with zero. Outside, the call is \<open>read\<close>.
\<close>

definition smart_read ::
  "epoll_ctl \<Rightarrow> bool \<Rightarrow> fd \<Rightarrow> block \<Rightarrow> size_t \<Rightarrow> nat \<Rightarrow> item_ptr \<Rightarrow> read_outcome list \<Rightarrow> int \<Rightarrow>
   io_callback epoller \<Rightarrow> block io_return option res" where
  "smart_read ctl tls fd buf cnt coro item outs errno ep =
     (if tls then
        bind_res (enable_reading ctl item (open_item (set_read_callback (Smart_read_impl item)) fd item ep)) (\<lambda>ep1.
        bind_res (await (smart_read_impl ctl) coro outs (ReadContext fd buf cnt coro item, ep1, [])) (\<lambda>r.
          Inr (case r of None \<Rightarrow> None
            | Some (c, ep2, _) \<Rightarrow>
                Some \<lparr>io_ret = sint (rc_ret c), io_errno = (if rc_ret c < 0 then rc_errno c else errno),
                      io_data = rc_buf c, io_epoller = close_item item ep2\<rparr>)))
      else case outs of [] \<Rightarrow> Inr None
        | (result, data, err) # _ \<Rightarrow> bind_res (mem_write buf 0 (map Some data)) (\<lambda>buf'.
            Inr (Some \<lparr>io_ret = result, io_errno = (if result < 0 then err else errno),
                       io_data = buf', io_epoller = ep\<rparr>)))"

definition smart_write ::
  "epoll_ctl \<Rightarrow> bool \<Rightarrow> fd \<Rightarrow> block \<Rightarrow> size_t \<Rightarrow> nat \<Rightarrow> item_ptr \<Rightarrow> (int \<times> int) list \<Rightarrow> int \<Rightarrow>
   io_callback epoller \<Rightarrow> block io_return option res" where
  "smart_write ctl tls fd buf cnt coro item outs errno ep =
     (if tls then
        bind_res (enable_writing ctl item (open_item (set_write_callback (Smart_write_impl item)) fd item ep)) (\<lambda>ep1.
        bind_res (await (smart_write_impl ctl) coro outs (WriteContext fd buf cnt coro item, ep1, [])) (\<lambda>r.
          Inr (case r of None \<Rightarrow> None
            | Some (c, ep2, _) \<Rightarrow>
                Some \<lparr>io_ret = sint (wc_ret c), io_errno = (if wc_ret c < 0 then wc_errno c else errno),
                      io_data = wc_sent c, io_epoller = close_item item ep2\<rparr>)))
      else case outs of [] \<Rightarrow> Inr None
        | (result, err) # _ \<Rightarrow> bind_res (mem_read buf 0 (unat cnt)) (\<lambda>xs.
            Inr (Some \<lparr>io_ret = result, io_errno = (if result < 0 then err else errno),
                       io_data = take (nat result) xs, io_epoller = ep\<rparr>)))"

definition smart_accept ::
  "epoll_ctl \<Rightarrow> bool \<Rightarrow> fd \<Rightarrow> nat \<Rightarrow> item_ptr \<Rightarrow> (int \<times> int) list \<Rightarrow> int \<Rightarrow>
   io_callback epoller \<Rightarrow> unit io_return option res" where
  "smart_accept ctl tls sockfd coro item outs errno ep =
     (if tls then
        bind_res (enable_reading ctl item (open_item (set_read_callback (Smart_accept_impl item)) sockfd item ep)) (\<lambda>ep1.
        bind_res (await (smart_accept_impl ctl) coro outs
            (\<lparr>ac_sockfd = sockfd, ac_coro = coro, ac_item = item, ac_errno = 0, ac_ret = -1\<rparr>, ep1, [])) (\<lambda>r.
          Inr (case r of None \<Rightarrow> None
            | Some (c, ep2, _) \<Rightarrow>
                Some (if ac_ret c < 0
                  then \<lparr>io_ret = -1, io_errno = ac_errno c, io_data = (), io_epoller = close_item item ep2\<rparr>
                  else \<lparr>io_ret = ac_ret c, io_errno = errno, io_data = (), io_epoller = close_item item ep2\<rparr>))))
      else case outs of [] \<Rightarrow> Inr None
        | (result, err) # _ \<Rightarrow>
            Inr (Some \<lparr>io_ret = result, io_errno = (if result < 0 then err else errno), io_data = (), io_epoller = ep\<rparr>))"

text \<open>\<open>smart_connect\<close>: \<open>first\<close> is the outcome of \<open>connect\<close> itself.\<close>

definition smart_connect ::
  "epoll_ctl \<Rightarrow> bool \<Rightarrow> fd \<Rightarrow> nat \<Rightarrow> item_ptr \<Rightarrow> int \<times> int \<Rightarrow> (int \<times> int \<times> int) list \<Rightarrow> int \<Rightarrow>
   io_callback epoller \<Rightarrow> unit io_return option res" where
  "smart_connect ctl tls sockfd coro item first outs errno ep =
     (let (ret, err) = first; direct = \<lparr>io_ret = ret, io_errno = (if ret < 0 then err else errno), io_data = (), io_epoller = ep\<rparr> in
      if tls \<and> ret < 0 \<and> err = EINPROGRESS then
        bind_res (enable_writing ctl item (open_item (set_write_callback (Smart_connect_impl item)) sockfd item ep)) (\<lambda>ep1.
        bind_res (await (smart_connect_impl ctl) coro outs
            (\<lparr>cc_sockfd = sockfd, cc_coro = coro, cc_item = item, cc_errno = 0\<rparr>, ep1, [])) (\<lambda>r.
          Inr (case r of None \<Rightarrow> None
            | Some (c, ep2, _) \<Rightarrow>
                Some (if cc_errno c \<noteq> 0
                  then \<lparr>io_ret = -1, io_errno = cc_errno c, io_data = (), io_epoller = close_item item ep2\<rparr>
                  else \<lparr>io_ret = 0, io_errno = errno, io_data = (), io_epoller = close_item item ep2\<rparr>))))
      else Inr (Some direct))"

text \<open>\<open>smart_socket\<close>: the results of \<open>socket\<close> and of the two \<open>fcntl\<close> calls are arguments;
  the second component tells whether the descriptor is non-blocking.\<close>

definition smart_socket :: "bool \<Rightarrow> int \<Rightarrow> int \<Rightarrow> int \<times> bool" where
  "smart_socket tls fd fcntl_ret =
     (if tls then (fd, fd \<ge> 0 \<and> fcntl_ret \<ge> 0) else (fd, False))"

section \<open>The registration of a call\<close>

definition reading_item :: "io_callback \<Rightarrow> fd \<Rightarrow> io_callback epoll_item" where
  "reading_item cb fd = (EPollItem_new fd)\<lparr>it_read_callback := Some cb, it_events := EPOLLIN, it_watching := True\<rparr>"

definition writing_item :: "io_callback \<Rightarrow> fd \<Rightarrow> io_callback epoll_item" where
  "writing_item cb fd = (EPollItem_new fd)\<lparr>it_write_callback := Some cb, it_events := EPOLLOUT, it_watching := True\<rparr>"

definition registered :: "item_ptr \<Rightarrow> io_callback epoll_item \<Rightarrow> (io_callback, 'x) epoller_scheme \<Rightarrow> (io_callback, 'x) epoller_scheme" where
  "registered item it ep = ep\<lparr>ep_interest := (ep_interest ep)(it_fd it \<mapsto> (it_events it, item)),
     ep_items := (ep_items ep)(item \<mapsto> it)\<rparr>"

definition unregistered :: "item_ptr \<Rightarrow> io_callback epoll_item \<Rightarrow> (io_callback, 'x) epoller_scheme \<Rightarrow> (io_callback, 'x) epoller_scheme" where
  "unregistered item it ep = ep\<lparr>ep_interest := (ep_interest ep)(it_fd it := None),
     ep_items := (ep_items ep)(item \<mapsto> it\<lparr>it_events := 0, it_watching := False\<rparr>)\<rparr>"

text \<open>No coroutine waits on the descriptor, and the address of the new item is free.\<close>

definition free_for :: "(fd \<Rightarrow> bool) \<Rightarrow> fd \<Rightarrow> item_ptr \<Rightarrow> (io_callback, 'x) epoller_scheme \<Rightarrow> bool" where
  "free_for pollable fd item ep \<longleftrightarrow> pollable fd \<and> ep_interest ep fd = None \<and> ep_items ep item = None"

lemma enable_reading_opened:
  assumes "epoll_ctl_spec ctl pollable" "free_for pollable fd item ep"
  shows "enable_reading ctl item (open_item (set_read_callback cb) fd item ep) =
    Inr (registered item (reading_item cb fd) ep)"
  using assms(2)
  by (simp add: enable_reading_def update_events_def open_item_def put_item_def deref_item_def watch_event_def
      epoll_ctl_simps [OF assms(1)] free_for_def registered_def reading_item_def EPollItem_new_def)

lemma enable_writing_opened:
  assumes "epoll_ctl_spec ctl pollable" "free_for pollable fd item ep"
  shows "enable_writing ctl item (open_item (set_write_callback cb) fd item ep) =
    Inr (registered item (writing_item cb fd) ep)"
  using assms(2)
  by (simp add: enable_writing_def update_events_def open_item_def put_item_def deref_item_def watch_event_def
      epoll_ctl_simps [OF assms(1)] free_for_def registered_def writing_item_def EPollItem_new_def)

lemma resume_read_coro_registered:
  assumes "epoll_ctl_spec ctl pollable"
  shows "resume_read_coro ctl coro item (registered item (reading_item cb fd) ep, cs) =
    Inr (unregistered item (reading_item cb fd) ep, cs @ [coro])"
  by (simp add: resume_read_coro_def disable_reading_def update_events_def put_item_def deref_item_def watch_event_def
      is_disabled_def epoll_ctl_simps [OF assms] registered_def unregistered_def reading_item_def EPollItem_new_def)

lemma resume_write_coro_registered:
  assumes "epoll_ctl_spec ctl pollable"
  shows "resume_write_coro ctl coro item (registered item (writing_item cb fd) ep, cs) =
    Inr (unregistered item (writing_item cb fd) ep, cs @ [coro])"
  by (simp add: resume_write_coro_def disable_writing_def update_events_def put_item_def deref_item_def watch_event_def
      is_disabled_def epoll_ctl_simps [OF assms] registered_def unregistered_def writing_item_def EPollItem_new_def)

lemma close_item_unregistered:
  assumes "free_for pollable (it_fd it) item ep"
  shows "close_item item (unregistered item it ep) = ep"
proof -
  have "(ep_interest ep)(it_fd it := None) = ep_interest ep" "(ep_items ep)(item := None) = ep_items ep"
    using assms by (auto simp: free_for_def fun_upd_idem)
  then show ?thesis by (simp add: close_item_def unregistered_def)
qed

lemma item_fd [simp]: "it_fd (reading_item cb fd) = fd" "it_fd (writing_item cb fd) = fd"
  by (simp_all add: reading_item_def writing_item_def EPollItem_new_def)

section \<open>Reading\<close>

text \<open>How a sequence of \<open>read\<close> calls for \<open>n\<close> bytes ends, with the bytes it got.\<close>

datatype io_end = Complete | Eof | Failed int

fun read_spec :: "nat \<Rightarrow> byte list \<Rightarrow> read_outcome list \<Rightarrow> (byte list \<times> io_end) option" where
  "read_spec n got [] = None"
| "read_spec n got ((r, data, err) # outs) =
     (if r > 0 then if length (got @ data) = n then Some (got @ data, Complete) else read_spec n (got @ data) outs
      else if r = 0 then Some (got, Eof)
      else if err \<noteq> EWOULDBLOCK then Some (got, Failed err)
      else read_spec n got outs)"

text \<open>What \<open>read\<close> promises: at most the bytes asked for, and as many as it says.\<close>

fun read_outs_ok :: "nat \<Rightarrow> nat \<Rightarrow> read_outcome list \<Rightarrow> bool" where
  "read_outs_ok n k [] = True"
| "read_outs_ok n k ((r, data, err) # outs) =
     (-1 \<le> r \<and> r < 2 ^ 31 \<and> length data = nat r \<and> k + nat r \<le> n \<and> read_outs_ok n (k + nat r) outs)"

definition read_at :: "fd \<Rightarrow> block \<Rightarrow> size_t \<Rightarrow> nat \<Rightarrow> item_ptr \<Rightarrow> byte list \<Rightarrow> read_context" where
  "read_at fd buf cnt coro item got =
     (ReadContext fd (map Some got @ drop (length got) buf) cnt coro item)\<lparr>rc_ret := of_nat (length got)\<rparr>"

definition read_finish :: "io_end \<Rightarrow> read_context \<Rightarrow> read_context" where
  "read_finish e c = (case e of Failed err \<Rightarrow> c\<lparr>rc_ret := -1, rc_errno := err\<rparr> | _ \<Rightarrow> c)"

lemma of_nat_eq_64: "n < 2 ^ 64 \<Longrightarrow> (of_nat n :: size_t) = w \<longleftrightarrow> n = unat w"
  by (auto simp: unat_of_nat)

lemma smart_read_impl_step:
  assumes "epoll_ctl_spec ctl pollable" "unat cnt \<le> length buf" "length got \<le> unat cnt"
    and "-1 \<le> r" "r < 2 ^ 31" "length data = nat r" "length got + nat r \<le> unat cnt"
  shows "smart_read_impl ctl (r, data, err) (read_at fd buf cnt coro item got, registered item (reading_item cb fd) ep, []) =
    Inr (case read_spec (unat cnt) got [(r, data, err)] of
        Some (bs, e) \<Rightarrow> (read_finish e (read_at fd buf cnt coro item bs), unregistered item (reading_item cb fd) ep, [coro])
      | None \<Rightarrow> (read_at fd buf cnt coro item (got @ data), registered item (reading_item cb fd) ep, []))"
proof -
  let ?w = "(registered item (reading_item cb fd) ep, [])"
  note resume = resume_read_coro_registered [OF assms(1), of coro item cb fd ep "[]", simplified]
  have r: "to_int r = r" using assms(4,5) by (intro to_int_id) simp_all
  have "unat cnt < 2 ^ 64" using unsigned_less [of cnt] by simp
  then have k: "length got < 2 ^ 64" "length got + length data < 2 ^ 64" using assms(3,6,7) by simp_all
  have u: "unat (of_nat (length got) :: size_t) = length got" using k by (simp add: unat_of_nat)
  have buf: "mem_write (map Some got @ drop (length got) buf) (length got) (map Some data) =
      Inr (map Some got @ map Some data @ drop (length data + length got) buf)"
    using assms(2,6,7) by (simp add: mem_write_def add.commute)
  have full: "(of_nat (length got) + of_nat (length data) :: size_t) = cnt \<longleftrightarrow> length got + length data = unat cnt"
    using of_nat_eq_64 [OF k(2), of cnt] by simp
  have buf0: "mem_write (map Some got @ drop (length got) buf) (length got) [] = Inr (map Some got @ drop (length got) buf)"
    using assms(2,3) by (simp add: mem_write_def)
  have r0: "to_int 0 = 0" by (simp add: to_int_def)
  note simps = r0 smart_read_impl_def read_at_def ReadContext_def Let_def read_finish_def u buf r resume
  consider "r > 0" "length got + length data = unat cnt" | "r > 0" "length got + length data \<noteq> unat cnt"
    | "r = 0" | "r < 0" by linarith
  then show ?thesis
  proof cases
    case 1
    have len: "(of_int r :: size_t) = of_nat (length data)" using assms(6) 1(1) by simp
    have eq: "(of_nat (length data) + of_nat (length got) :: size_t) = cnt" using full 1(2) by (simp add: add.commute)
    show ?thesis using 1 by (simp add: simps len eq add.commute)
  next
    case 2
    have len: "(of_int r :: size_t) = of_nat (length data)" using assms(6) 2(1) by simp
    have "(of_nat (length got) + of_nat (length data) :: size_t) \<noteq> cnt" using full 2(2) by simp
    then show ?thesis using 2 by (simp add: simps len add.commute)
  next
    case 3
    then have "data = []" using assms(6) by simp
    with 3 show ?thesis by (simp add: simps buf0)
  next
    case 4
    then have "data = []" using assms(6) by simp
    with 4 show ?thesis by (simp add: simps buf0)
  qed
qed

lemma read_spec_Cons:
  "read_spec n got (out # outs) =
     (case read_spec n got [out] of Some x \<Rightarrow> Some x | None \<Rightarrow> read_spec n (got @ fst (snd out)) outs)"
  if "fst out < 0 \<Longrightarrow> fst (snd out) = []"
  using that by (cases out) (auto split: if_splits)

lemma await_read:
  assumes "epoll_ctl_spec ctl pollable" "unat cnt \<le> length buf"
  shows "length got \<le> unat cnt \<Longrightarrow> read_outs_ok (unat cnt) (length got) outs \<Longrightarrow>
    await (smart_read_impl ctl) coro outs (read_at fd buf cnt coro item got, registered item (reading_item cb fd) ep, []) =
    Inr (map_option (\<lambda>(bs, e). (read_finish e (read_at fd buf cnt coro item bs), unregistered item (reading_item cb fd) ep, [coro]))
      (read_spec (unat cnt) got outs))"
proof (induction outs arbitrary: got)
  case (Cons out outs)
  obtain r data err where out: "out = (r, data, err)" by (cases out) auto
  have ok: "-1 \<le> r" "r < 2 ^ 31" "length data = nat r" "length got + nat r \<le> unat cnt"
      "read_outs_ok (unat cnt) (length (got @ data)) outs"
    using Cons.prems(2) out by auto
  note step = smart_read_impl_step [OF assms Cons.prems(1) ok(1-4), of err fd coro item cb ep]
  have spec: "read_spec (unat cnt) got (out # outs) = (case read_spec (unat cnt) got [out] of Some x \<Rightarrow> Some x
      | None \<Rightarrow> read_spec (unat cnt) (got @ data) outs)"
    using read_spec_Cons [of out "unat cnt" got outs] ok(3) out by auto
  show ?case
  proof (cases "read_spec (unat cnt) got [out]")
    case None
    then show ?thesis using step Cons.IH [of "got @ data"] ok spec out by simp
  next
    case (Some x)
    then show ?thesis using step spec out by (cases x) simp
  qed
qed simp

lemma read_spec_bounds:
  "read_outs_ok n (length got) outs \<Longrightarrow> length got \<le> n \<Longrightarrow> read_spec n got outs = Some (bs, e) \<Longrightarrow>
    length bs \<le> n \<and> (e = Complete \<longrightarrow> length bs = n)"
proof (induction outs arbitrary: got)
  case (Cons out outs)
  obtain r data err where out: "out = (r, data, err)" by (cases out) auto
  show ?case using Cons.prems Cons.IH [of "got @ data"] Cons.IH [of got] unfolding out
    by (auto split: if_splits)
qed simp

lemma sint_of_nat_small: "n < 2 ^ 63 \<Longrightarrow> sint (of_nat n :: size_t) = int n"
  by (simp add: signed_of_nat signed_take_bit_int_eq_self)

section \<open>Writing\<close>

text \<open>How a sequence of \<open>write\<close> calls for \<open>n\<close> bytes ends, with the number of bytes taken.\<close>

fun write_spec :: "nat \<Rightarrow> nat \<Rightarrow> (int \<times> int) list \<Rightarrow> (nat \<times> io_end) option" where
  "write_spec n k [] = None"
| "write_spec n k ((r, err) # outs) =
     (if r > 0 then if k + nat r = n then Some (n, Complete) else write_spec n (k + nat r) outs
      else if r < 0 \<and> err \<noteq> EWOULDBLOCK then Some (k, Failed err)
      else write_spec n k outs)"

fun write_outs_ok :: "nat \<Rightarrow> nat \<Rightarrow> (int \<times> int) list \<Rightarrow> bool" where
  "write_outs_ok n k [] = True"
| "write_outs_ok n k ((r, err) # outs) =
     (-1 \<le> r \<and> r < 2 ^ 31 \<and> k + nat r \<le> n \<and> write_outs_ok n (k + nat r) outs)"

definition write_at :: "fd \<Rightarrow> block \<Rightarrow> size_t \<Rightarrow> nat \<Rightarrow> item_ptr \<Rightarrow> nat \<Rightarrow> write_context" where
  "write_at fd buf cnt coro item k =
     (WriteContext fd buf cnt coro item)\<lparr>wc_ret := of_nat k, wc_sent := take k buf\<rparr>"

definition write_finish :: "io_end \<Rightarrow> write_context \<Rightarrow> write_context" where
  "write_finish e c = (case e of Failed err \<Rightarrow> c\<lparr>wc_ret := -1, wc_errno := err\<rparr> | _ \<Rightarrow> c)"

lemma smart_write_impl_step:
  assumes "epoll_ctl_spec ctl pollable" "unat cnt \<le> length buf" "k \<le> unat cnt"
    and "-1 \<le> r" "r < 2 ^ 31" "k + nat r \<le> unat cnt"
  shows "smart_write_impl ctl (r, err) (write_at fd buf cnt coro item k, registered item (writing_item cb fd) ep, []) =
    Inr (case write_spec (unat cnt) k [(r, err)] of
        Some (m, e) \<Rightarrow> (write_finish e (write_at fd buf cnt coro item m), unregistered item (writing_item cb fd) ep, [coro])
      | None \<Rightarrow> (write_at fd buf cnt coro item (k + nat r), registered item (writing_item cb fd) ep, []))"
proof -
  note resume = resume_write_coro_registered [OF assms(1), of coro item cb fd ep "[]", simplified]
  have r: "to_int r = r" using assms(4,5) by (intro to_int_id) simp_all
  have r0: "to_int 0 = 0" by (simp add: to_int_def)
  have c: "unat cnt < 2 ^ 64" using unsigned_less [of cnt] by simp
  then have k: "k < 2 ^ 64" "k + nat r < 2 ^ 64" using assms(3,6) by simp_all
  have u: "unat (of_nat k :: size_t) = k" using k by (simp add: unat_of_nat)
  have "of_nat k \<le> cnt" using u assms(3) by (simp add: word_le_unat)
  then have d: "unat (cnt - of_nat k) = unat cnt - k" using u by (simp add: unat_minus_le)
  have rd: "mem_read buf k (unat cnt - k) = Inr (take (unat cnt - k) (drop k buf))"
    using assms(2,3) by (simp add: mem_read_ok)
  have tk: "take k buf @ take (min (nat r) (unat cnt - k)) (drop k buf) = take (k + nat r) buf"
    using assms(6) by (simp add: take_add min_def)
  have full: "(of_nat k + of_nat (nat r) :: size_t) = cnt \<longleftrightarrow> k + nat r = unat cnt"
    using of_nat_eq_64 [OF k(2), of cnt] by simp
  note simps = smart_write_impl_def write_at_def WriteContext_def Let_def write_finish_def u r r0 resume rd d tk
  consider "r > 0" "k + nat r = unat cnt" | "r > 0" "k + nat r \<noteq> unat cnt" | "r = 0" | "r < 0" by linarith
  then show ?thesis
  proof cases
    case 1
    have len: "(of_int r :: size_t) = of_nat (nat r)" using 1(1) by simp
    have eq: "(of_nat k + of_nat (nat r) :: size_t) = cnt" using full 1(2) by simp
    have "take k buf @ take (nat r) (drop k buf) = take (unat cnt) buf"
      using take_add [of k "nat r" buf] 1(2) by simp
    then show ?thesis using 1 eq by (simp add: simps len del: of_nat_nat)
  next
    case 2
    have len: "(of_int r :: size_t) = of_nat (nat r)" using 2(1) by simp
    have "(of_nat k + of_nat (nat r) :: size_t) \<noteq> cnt" using full 2(2) by simp
    then show ?thesis using 2 by (simp add: simps len del: of_nat_nat)
  next
    case 3
    then show ?thesis by (simp add: simps)
  next
    case 4
    then show ?thesis by (simp add: simps)
  qed
qed

lemma await_write:
  assumes "epoll_ctl_spec ctl pollable" "unat cnt \<le> length buf"
  shows "k \<le> unat cnt \<Longrightarrow> write_outs_ok (unat cnt) k outs \<Longrightarrow>
    await (smart_write_impl ctl) coro outs (write_at fd buf cnt coro item k, registered item (writing_item cb fd) ep, []) =
    Inr (map_option (\<lambda>(m, e). (write_finish e (write_at fd buf cnt coro item m), unregistered item (writing_item cb fd) ep, [coro]))
      (write_spec (unat cnt) k outs))"
proof (induction outs arbitrary: k)
  case (Cons out outs)
  obtain r err where out: "out = (r, err)" by (cases out) auto
  have ok: "-1 \<le> r" "r < 2 ^ 31" "k + nat r \<le> unat cnt" "write_outs_ok (unat cnt) (k + nat r) outs"
    using Cons.prems(2) out by auto
  note step = smart_write_impl_step [OF assms Cons.prems(1) ok(1-3), of err fd coro item cb ep]
  have spec: "write_spec (unat cnt) k (out # outs) = (case write_spec (unat cnt) k [out] of Some x \<Rightarrow> Some x
      | None \<Rightarrow> write_spec (unat cnt) (k + nat r) outs)"
    unfolding out by auto
  show ?case
  proof (cases "write_spec (unat cnt) k [out]")
    case None
    then show ?thesis using step Cons.IH [of "k + nat r"] ok spec out by simp
  next
    case (Some x)
    then show ?thesis using step spec out by (cases x) simp
  qed
qed simp

lemma write_spec_bounds:
  "write_outs_ok n k outs \<Longrightarrow> k \<le> n \<Longrightarrow> write_spec n k outs = Some (m, e) \<Longrightarrow> m \<le> n"
  by (induction n k outs rule: write_spec.induct) (auto split: if_splits)

lemma smart_write_outcome:
  assumes "epoll_ctl_spec ctl pollable" "free_for pollable fd item ep"
    and "unat cnt \<le> length buf" "unat cnt < 2 ^ 63" "write_outs_ok (unat cnt) 0 outs"
  shows "smart_write ctl True fd buf cnt coro item outs errno ep =
    Inr (map_option (\<lambda>(m, e).
        \<lparr>io_ret = (case e of Failed _ \<Rightarrow> -1 | _ \<Rightarrow> int m), io_errno = errno,
         io_data = take m buf, io_epoller = ep\<rparr>)
      (write_spec (unat cnt) 0 outs))"
proof -
  have "WriteContext fd buf cnt coro item = write_at fd buf cnt coro item 0"
    by (simp add: write_at_def WriteContext_def)
  moreover have "sint (wc_ret (write_finish e (write_at fd buf cnt coro item m))) =
      (case e of Failed _ \<Rightarrow> -1 | _ \<Rightarrow> int m)"
    if "write_spec (unat cnt) 0 outs = Some (m, e)" for m e
  proof -
    have "m < 2 ^ 63" using write_spec_bounds [OF _ _ that] assms(4,5) by simp
    then show ?thesis
      by (auto simp: write_finish_def write_at_def sint_of_nat_small split: io_end.splits)
  qed
  moreover have "wc_sent (write_finish e (write_at fd buf cnt coro item m)) = take m buf" for e m
    by (simp add: write_finish_def write_at_def WriteContext_def split: io_end.splits)
  moreover have "close_item item (unregistered item (writing_item (Smart_write_impl item) fd) ep) = ep"
    using assms(2) by (intro close_item_unregistered [of pollable]) simp
  ultimately show ?thesis
    using await_write [OF assms(1,3), of 0 outs coro fd item "Smart_write_impl item" ep] assms(5)
    by (cases "write_spec (unat cnt) 0 outs")
      (auto simp: smart_write_def enable_writing_opened [OF assms(1,2)])
qed

lemma write_spec_stuck:
  "\<forall>(r, err) \<in> set outs. r = 0 \<or> r = -1 \<and> err = EWOULDBLOCK \<Longrightarrow> write_spec n k outs = None"
  by (induction n k outs rule: write_spec.induct) auto

lemma write_outs_ok_stuck:
  "\<forall>(r, err) \<in> set outs. r = 0 \<or> r = -1 \<and> err = EWOULDBLOCK \<Longrightarrow> k \<le> n \<Longrightarrow> write_outs_ok n k outs"
  by (induction n k outs rule: write_outs_ok.induct) auto

text \<open>\<open>smart_read\<close> on all branches.\<close>

lemma smart_read_outcome:
  assumes "epoll_ctl_spec ctl pollable" "free_for pollable fd item ep"
    and "unat cnt \<le> length buf" "unat cnt < 2 ^ 63" "read_outs_ok (unat cnt) 0 outs"
  shows "smart_read ctl True fd buf cnt coro item outs errno ep =
    Inr (map_option (\<lambda>(bs, e).
        \<lparr>io_ret = (case e of Failed _ \<Rightarrow> -1 | _ \<Rightarrow> int (length bs)), io_errno = errno,
         io_data = map Some bs @ drop (length bs) buf, io_epoller = ep\<rparr>)
      (read_spec (unat cnt) [] outs))"
proof -
  have "ReadContext fd buf cnt coro item = read_at fd buf cnt coro item []"
    by (simp add: read_at_def ReadContext_def)
  moreover have "sint (rc_ret (read_finish e (read_at fd buf cnt coro item bs))) =
      (case e of Failed _ \<Rightarrow> -1 | _ \<Rightarrow> int (length bs))"
    if "read_spec (unat cnt) [] outs = Some (bs, e)" for bs e
  proof -
    have "length bs < 2 ^ 63" using read_spec_bounds [OF _ _ that] assms(4,5) by simp
    then show ?thesis
      by (auto simp: read_finish_def read_at_def sint_of_nat_small split: io_end.splits)
  qed
  moreover have "rc_buf (read_finish e (read_at fd buf cnt coro item bs)) = map Some bs @ drop (length bs) buf" for e bs
    by (simp add: read_finish_def read_at_def ReadContext_def split: io_end.splits)
  moreover have "close_item item (unregistered item (reading_item (Smart_read_impl item) fd) ep) = ep"
    using assms(2) by (intro close_item_unregistered [of pollable]) simp
  ultimately show ?thesis
    using await_read [OF assms(1,3), of "[]" outs coro fd item "Smart_read_impl item" ep] assms(5)
    by (cases "read_spec (unat cnt) [] outs")
      (auto simp: smart_read_def enable_reading_opened [OF assms(1,2)])
qed

section \<open>Properties\<close>

text \<open>C13. \<open>smart_read\<close> in a coroutine reads the stream: with what \<open>read\<close> promises, it returns
  once the requested number of bytes has arrived, at the end of the file or at an error other
  than \<open>EWOULDBLOCK\<close> (and not before); the buffer then holds exactly the bytes received in order, nothing
  beyond the request is written, the result is their number (or \<open>-1\<close> after an error), and the
  item leaves no trace in the poller. The value of \<open>errno\<close> is never set, also not after an
  error.\<close>

theorem smart_read_spec:
  assumes "epoll_ctl_spec ctl pollable" "free_for pollable fd item ep"
    and "unat cnt \<le> length buf" "unat cnt < 2 ^ 63" "read_outs_ok (unat cnt) 0 outs"
  shows "smart_read ctl True fd buf cnt coro item outs errno ep =
    Inr (map_option (\<lambda>(bs, e).
        \<lparr>io_ret = (case e of Failed _ \<Rightarrow> -1 | _ \<Rightarrow> int (length bs)), io_errno = errno,
         io_data = map Some bs @ drop (length bs) buf, io_epoller = ep\<rparr>)
      (read_spec (unat cnt) [] outs))"
  using assms by (rule smart_read_outcome)

theorem smart_read_spec_witness:
  "smart_read (epoll_ctl_map (\<lambda>_. True)) True 5 (replicate 4 None) 3 7 1
     [(2, [10, 11], 0), (-1, [], EWOULDBLOCK), (1, [12], 0)] 0 SmartEPoller_new =
   Inr (Some \<lparr>io_ret = 3, io_errno = 0, io_data = [Some 10, Some 11, Some 12, None], io_epoller = SmartEPoller_new\<rparr>)"
proof -
  have f: "free_for (\<lambda>_. True) 5 1 SmartEPoller_new" by (simp add: free_for_def SmartEPoller_new_def)
  show ?thesis
    using smart_read_spec [OF epoll_ctl_map_spec f, of 3 "replicate 4 None"
      "[(2, [10, 11], 0), (-1, [], EWOULDBLOCK), (1, [12], 0)]" 7 0] by simp
qed

text \<open>C30. \<open>smart_write\<close> in a coroutine hands the kernel a prefix of its buffer, in order and without
  reading past the request; it returns when all bytes are taken or at an error other than
  \<open>EWOULDBLOCK\<close>, with the number of bytes or \<open>-1\<close>, and leaves no trace in the poller;
  \<open>errno\<close> is not set after an error.\<close>

theorem smart_write_spec:
  assumes "epoll_ctl_spec ctl pollable" "free_for pollable fd item ep"
    and "unat cnt \<le> length buf" "unat cnt < 2 ^ 63" "write_outs_ok (unat cnt) 0 outs"
  shows "smart_write ctl True fd buf cnt coro item outs errno ep =
    Inr (map_option (\<lambda>(m, e).
        \<lparr>io_ret = (case e of Failed _ \<Rightarrow> -1 | _ \<Rightarrow> int m), io_errno = errno,
         io_data = take m buf, io_epoller = ep\<rparr>)
      (write_spec (unat cnt) 0 outs))"
  using assms by (rule smart_write_outcome)

theorem smart_write_spec_witness:
  "smart_write (epoll_ctl_map (\<lambda>_. True)) True 5 [Some 1, Some 2, Some 3] 3 7 1
     [(2, 0), (-1, 32)] 0 SmartEPoller_new =
   Inr (Some \<lparr>io_ret = -1, io_errno = 0, io_data = [Some 1, Some 2], io_epoller = SmartEPoller_new\<rparr>)"
proof -
  have f: "free_for (\<lambda>_. True) 5 1 SmartEPoller_new" by (simp add: free_for_def SmartEPoller_new_def)
  show ?thesis
    using smart_write_spec [OF epoll_ctl_map_spec f, of 3 "[Some 1, Some 2, Some 3]" "[(2, 0), (-1, 32)]" 7 0]
    by simp
qed

text \<open>C34. A coroutine that writes zero bytes never returns: \<open>write\<close> answers \<open>0\<close>, which the
  callback treats neither as progress nor as an error, however often the descriptor is reported
  writable.\<close>

theorem smart_write_zero_never_returns:
  assumes "epoll_ctl_spec ctl pollable" "free_for pollable fd item ep"
    and "\<forall>(r, err) \<in> set outs. r = 0 \<or> r = -1 \<and> err = EWOULDBLOCK"
  shows "smart_write ctl True fd buf 0 coro item outs errno ep = Inr None"
  using smart_write_outcome [OF assms(1,2), of 0 buf outs coro errno]
    write_spec_stuck [OF assms(3)] write_outs_ok_stuck [OF assms(3)] by simp

theorem smart_write_zero_never_returns_witness:
  "smart_write (epoll_ctl_map (\<lambda>_. True)) True 5 [] 0 7 1 (replicate 100 (0, 0)) 0 SmartEPoller_new = Inr None"
  by (rule smart_write_zero_never_returns [OF epoll_ctl_map_spec])
    (auto simp: free_for_def SmartEPoller_new_def)

text \<open>\<open>smart_connect\<close> reports the outcome of the connection: an immediate result is passed
  on; a connection in progress is decided by \<open>SO_ERROR\<close> at the first event, as \<open>0\<close> or as
  \<open>-1\<close> with \<open>errno\<close> set, and the poller is left as it was.\<close>

lemma smart_connect_spec:
  assumes "epoll_ctl_spec ctl pollable" "free_for pollable sockfd item ep"
  shows "smart_connect ctl True sockfd coro item (ret, err) ((gret, so_error, gerr) # outs) errno ep =
    Inr (Some
      (if ret < 0 \<and> err = EINPROGRESS
       then let e = (if gret < 0 then gerr else so_error)
            in \<lparr>io_ret = (if e = 0 then 0 else -1), io_errno = (if e = 0 then errno else e), io_data = (), io_epoller = ep\<rparr>
       else \<lparr>io_ret = ret, io_errno = (if ret < 0 then err else errno), io_data = (), io_epoller = ep\<rparr>))"
proof -
  note resume = resume_write_coro_registered [OF assms(1), of coro item "Smart_connect_impl item" sockfd ep "[]", simplified]
  have "close_item item (unregistered item (writing_item (Smart_connect_impl item) sockfd) ep) = ep"
    using assms(2) by (intro close_item_unregistered [of pollable]) simp
  then show ?thesis
    by (simp add: smart_connect_def enable_writing_opened [OF assms] smart_connect_impl_def resume Let_def)
qed

lemma smart_connect_spec_witness:
  "\<exists>r. smart_connect (epoll_ctl_map (\<lambda>_. True)) True 5 7 1 (-1, EINPROGRESS) [(0, 111, 0)] 0 SmartEPoller_new =
     Inr (Some r) \<and> io_ret r = -1 \<and> io_errno r = 111"
proof -
  have f: "free_for (\<lambda>_. True) 5 1 SmartEPoller_new" by (simp add: free_for_def SmartEPoller_new_def)
  show ?thesis
    using smart_connect_spec [OF epoll_ctl_map_spec f, of 7 "-1" EINPROGRESS 0 111 0 "[]" 0] by simp
qed

text \<open>\<open>smart_accept\<close> waits through \<open>EWOULDBLOCK\<close> and returns the first accepted
  descriptor, or \<open>-1\<close> with \<open>errno\<close> set at the first other error.\<close>

lemma smart_accept_spec:
  assumes "epoll_ctl_spec ctl pollable" "free_for pollable sockfd item ep"
    and "\<forall>(r, e) \<in> set blocked. r < 0 \<and> e = EWOULDBLOCK" "ret \<ge> 0 \<or> err \<noteq> EWOULDBLOCK"
  shows "smart_accept ctl True sockfd coro item (blocked @ (ret, err) # outs) errno ep =
    Inr (Some (if ret < 0 then \<lparr>io_ret = -1, io_errno = err, io_data = (), io_epoller = ep\<rparr>
               else \<lparr>io_ret = ret, io_errno = errno, io_data = (), io_epoller = ep\<rparr>))"
proof -
  note resume = resume_read_coro_registered [OF assms(1), of coro item "Smart_accept_impl item" sockfd ep "[]", simplified]
  have skip: "await (smart_accept_impl ctl) coro (blocked @ os) (c, w, []) = await (smart_accept_impl ctl) coro os (c, w, [])"
    for c w os using assms(3) by (induction blocked) (auto simp: smart_accept_impl_def)
  have close: "close_item item (unregistered item (reading_item (Smart_accept_impl item) sockfd) ep) = ep"
    using assms(2) by (intro close_item_unregistered [of pollable]) simp
  let ?c = "\<lparr>ac_sockfd = sockfd, ac_coro = coro, ac_item = item, ac_errno = 0, ac_ret = -1\<rparr>"
  have impl: "smart_accept_impl ctl (ret, err) (?c, registered item (reading_item (Smart_accept_impl item) sockfd) ep, []) =
      Inr (if ret < 0 then ?c\<lparr>ac_errno := err\<rparr> else ?c\<lparr>ac_ret := ret\<rparr>,
           unregistered item (reading_item (Smart_accept_impl item) sockfd) ep, [coro])"
    using assms(4) by (auto simp: smart_accept_impl_def resume)
  show ?thesis
    by (simp add: smart_accept_def enable_reading_opened [OF assms(1,2)] skip impl close)
qed

lemma smart_accept_spec_witness:
  "\<exists>r. smart_accept (epoll_ctl_map (\<lambda>_. True)) True 5 7 1 [(-1, EWOULDBLOCK), (9, 0)] 0 SmartEPoller_new =
     Inr (Some r) \<and> io_ret r = 9"
proof -
  have f: "free_for (\<lambda>_. True) 5 1 SmartEPoller_new" by (simp add: free_for_def SmartEPoller_new_def)
  show ?thesis
    using smart_accept_spec [OF epoll_ctl_map_spec f, of "[(-1, EWOULDBLOCK)]" 9 0 7 "[]" 0] by simp
qed

end
