(* ===== verification/Read_Until.thy ===== *)
theory Read_Until
  imports Smart_Io
begin

text \<open>
  \<open>smart_read_until\<close> of \<open>src/smart_routine.cpp\<close> with its callback
  \<open>smart_read_until_impl\<close> of \<open>src/internal/smart_routine_impl.cpp\<close>: reading into a
  \<open>DynamicBuffer\<close> until a delimiter has arrived, searching only the part that the previous
  searches left open. It joins the dynamic buffer, the delimiter search and the event loop.
\<close>

section \<open>The callback\<close>

record read_until_context =
  ru_fd :: fd
  ru_buffer :: dynamic_buffer       \<comment> \<open>the caller's buffer, by reference\<close>
  ru_delim :: "byte list"
  ru_coro :: nat
  ru_item :: item_ptr
  ru_ec :: code_val
  ru_ret :: int
  ru_last_search_end :: size_t

definition ReadUntilContext ::
  "fd \<Rightarrow> dynamic_buffer \<Rightarrow> byte list \<Rightarrow> nat \<Rightarrow> item_ptr \<Rightarrow> read_until_context" where
  "ReadUntilContext fd buffer delim coro item =
     \<lparr>ru_fd = fd, ru_buffer = buffer, ru_delim = delim, ru_coro = coro, ru_item = item, ru_ec = Success,
      ru_ret = 0, ru_last_search_end = 0\<rparr>"

text \<open>\<open>context->ret_ += ret\<close> on \<open>int\<close>.\<close>

definition add_int :: "int \<Rightarrow> int \<Rightarrow> int res" where
  "add_int a b = (if - (2 ^ 31) \<le> a + b \<and> a + b < 2 ^ 31 then Inr (a + b) else Inl SignedOverflow)"

text \<open>The branch for received bytes up to the search; the second component is \<open>need_resume\<close>.\<close>

definition until_append ::
  "flags \<Rightarrow> bool \<Rightarrow> int \<Rightarrow> byte list \<Rightarrow> read_until_context \<Rightarrow> (read_until_context \<times> bool) res" where
  "until_append fl mok ret tmp_buf c =
     bind_res (add_int (ru_ret c) ret) (\<lambda>total.
     bind_res (db_append fl mok (ru_buffer c) tmp_buf (of_int ret) (ru_ec c)) (\<lambda>(b, ec).
       let c1 = c\<lparr>ru_ret := total, ru_buffer := b, ru_ec := ec\<rparr>
       in Inr (if ec_fail ec then (c1\<lparr>ru_ret := -1\<rparr>, True) else (c1, False))))"

text \<open>The search in the part of the read section that is still open.\<close>

definition until_search :: "read_until_context \<Rightarrow> bool \<Rightarrow> (read_until_context \<times> bool) res option" where
  "until_search c need_resume =
     (let buf = read_buffer (ru_buffer c); from = ru_last_search_end c in
      case db_buffer (ru_buffer c) of None \<Rightarrow> Some (Inl NullDeref)
      | Some blk \<Rightarrow>
          Option.bind (partial_search (drop (unat (cb_data buf + from)) blk) (cb_size buf - from) (ru_delim c))
            (\<lambda>r. Some (bind_res r (\<lambda>(result, i). Inr (case result of
                Match \<Rightarrow> (c, True)
              | PartialMatch \<Rightarrow> (c\<lparr>ru_last_search_end := from + i\<rparr>, need_resume)
              | NotMatch \<Rightarrow> (c\<lparr>ru_last_search_end := cb_size buf\<rparr>, need_resume))))))"

definition smart_read_until_impl ::
  "flags \<Rightarrow> bool \<Rightarrow> epoll_ctl \<Rightarrow> read_outcome \<Rightarrow> read_until_context \<times> 'x io_world \<Rightarrow>
   (read_until_context \<times> 'x io_world) res option" where
  "smart_read_until_impl fl mok ctl = (\<lambda>(result, data, err) (c, w).
     case mem_write (replicate 64 None) 0 (map Some data) of Inl u \<Rightarrow> Some (Inl u)
     | Inr _ \<Rightarrow>
       let ret = to_int result in
       Option.bind
         (if ret > 0 then
            (case until_append fl mok ret data c of Inl u \<Rightarrow> Some (Inl u)
             | Inr (c1, need_resume) \<Rightarrow> until_search c1 need_resume)
          else if ret < 0 \<and> err \<noteq> EWOULDBLOCK then Some (Inr (c\<lparr>ru_ret := -1\<rparr>, True))
          else if ret = 0 then Some (Inr (c, True))
          else Some (Inr (c, False)))
         (\<lambda>r. Some (bind_res r (\<lambda>(c1, need_resume).
            if need_resume then bind_res (resume_read_coro ctl (ru_coro c1) (ru_item c1) w) (\<lambda>w'. Inr (c1, w'))
            else Inr (c1, w)))))"

section \<open>The call\<close>

fun await_until ::
  "('o \<Rightarrow> 'c \<times> 'x io_world \<Rightarrow> ('c \<times> 'x io_world) res option) \<Rightarrow> nat \<Rightarrow> 'o list \<Rightarrow> 'c \<times> 'x io_world \<Rightarrow>
   ('c \<times> 'x io_world) option res option" where
  "await_until impl coro [] s = Some (Inr None)"
| "await_until impl coro (out # outs) s =
     (case impl out s of None \<Rightarrow> None
      | Some (Inl u) \<Rightarrow> Some (Inl u)
      | Some (Inr s') \<Rightarrow>
          if coro \<in> set (snd (snd s')) then Some (Inr (Some s')) else await_until impl coro outs s')"

definition smart_read_until ::
  "flags \<Rightarrow> bool \<Rightarrow> epoll_ctl \<Rightarrow> bool \<Rightarrow> fd \<Rightarrow> dynamic_buffer \<Rightarrow> byte list \<Rightarrow> code_val \<Rightarrow> nat \<Rightarrow> item_ptr \<Rightarrow>
   read_outcome list \<Rightarrow> int \<Rightarrow> io_callback epoller \<Rightarrow> (dynamic_buffer \<times> code_val) io_return option res option" where
  "smart_read_until fl mok ctl tls fd buffer delim ec coro item outs errno ep =
     (if tls then
        (case enable_reading ctl item
            (open_item (set_read_callback (Smart_read_until_impl item)) fd item ep) of
           Inl u \<Rightarrow> Some (Inl u)
         | Inr ep1 \<Rightarrow>
             Option.bind (await_until (smart_read_until_impl fl mok ctl) coro outs
                 (ReadUntilContext fd buffer delim coro item, ep1, []))
               (\<lambda>r. Some (bind_res r (\<lambda>s. Inr (case s of None \<Rightarrow> None
                 | Some (c, ep2, _) \<Rightarrow>
                     Some \<lparr>io_ret = ru_ret c, io_errno = errno,
                           io_data = (ru_buffer c, if ru_ret c < 0 then ru_ec c else ec),
                           io_epoller = close_item item ep2\<rparr>)))))
      else Some (Inr (Some \<lparr>io_ret = -1, io_errno = errno, io_data = (buffer, ec), io_epoller = ep\<rparr>)))"

section \<open>Specification\<close>

text \<open>
  Received bytes after \<open>xs\<close>, the content of the buffer at the call: it ends with the first
  chunk after which the delimiter is somewhere in the content.
\<close>

fun until_spec :: "byte list \<Rightarrow> byte list \<Rightarrow> byte list \<Rightarrow> read_outcome list \<Rightarrow> (byte list \<times> io_end) option" where
  "until_spec xs delim got [] = None"
| "until_spec xs delim got ((r, data, err) # outs) =
     (if r > 0 then if sublist delim (xs @ got @ data) then Some (got @ data, Complete)
        else until_spec xs delim (got @ data) outs
      else if r = 0 then Some (got, Eof)
      else if err \<noteq> EWOULDBLOCK then Some (got, Failed err)
      else until_spec xs delim got outs)"

fun until_outs_ok :: "read_outcome list \<Rightarrow> bool" where
  "until_outs_ok [] = True"
| "until_outs_ok ((r, data, err) # outs) = (-1 \<le> r \<and> r \<le> 64 \<and> length data = nat r \<and> until_outs_ok outs)"

definition received :: "read_outcome list \<Rightarrow> nat" where
  "received outs = (\<Sum>(r, data, err)\<leftarrow>outs. length data)"

lemma received_simps [simp]:
  "received [] = 0" "received ((r, data, err) # outs) = length data + received outs"
  by (simp_all add: received_def)

lemma search_match_iff:
  assumes "str \<noteq> []"
  shows "fst (search_from xs str 0 (length xs)) = Match \<longleftrightarrow> sublist str xs"
proof -
  obtain r p where rp: "search_from xs str 0 (length xs) = (r, p)" by fastforce
  have sub: "sublist str xs \<longleftrightarrow> (\<exists>k < length xs. prefix str (drop k xs))"
  proof
    assume "sublist str xs"
    then obtain ps ss where "xs = ps @ str @ ss" by (auto simp: sublist_def)
    then show "\<exists>k < length xs. prefix str (drop k xs)" using assms by (intro exI [of _ "length ps"]) auto
  next
    assume "\<exists>k < length xs. prefix str (drop k xs)"
    then obtain k ss where "drop k xs = str @ ss" by (auto simp: prefix_def)
    then have "xs = take k xs @ str @ ss" by (metis append_take_drop_id)
    then show "sublist str xs" unfolding sublist_def by blast
  qed
  show ?thesis
    using search_from_cases [where xs = xs and str = str and i = 0 and n = "length xs"]
      no_match_after_partial [of p xs str] unfolding rp sub
    by (cases r) (auto simp: hit_def, meson not_le)
qed

section \<open>The incremental search\<close>

text \<open>The searches so far: nothing before \<open>e\<close> can be the start of the delimiter.\<close>

definition open_from :: "byte list \<Rightarrow> byte list \<Rightarrow> nat \<Rightarrow> bool" where
  "open_from ys delim e \<longleftrightarrow> e \<le> length ys \<and> (\<forall>k < e. \<not> hit ys delim k)"

definition until_inv :: "byte list \<Rightarrow> read_until_context \<Rightarrow> bool" where
  "until_inv ys c \<longleftrightarrow> db_ok (ru_buffer c) \<and> db_content (ru_buffer c) = map Some ys \<and> ru_ec c = Success \<and>
     open_from ys (ru_delim c) (unat (ru_last_search_end c)) \<and> ru_delim c \<noteq> [] \<and> length (ru_delim c) < 2 ^ 64"

lemma search_open:
  assumes "open_from ys delim e"
  shows "search_from (drop e ys) delim 0 (length (drop e ys)) =
    (case search_from ys delim 0 (length ys) of (r, p) \<Rightarrow> (r, if r = NotMatch then 0 else p - e))"
  using search_from_drop [of e ys delim 0 "length ys - e"] search_from_skip [of e ys delim "length ys"] assms
  by (simp add: open_from_def)

lemma until_search_ok:
  assumes "until_inv ys c" "length ys < 2 ^ 32"
  shows "\<exists>c'. until_search c nr = Some (Inr (c', nr \<or> sublist (ru_delim c) ys)) \<and>
    ru_buffer c' = ru_buffer c \<and> ru_delim c' = ru_delim c \<and> ru_ret c' = ru_ret c \<and> ru_ec c' = ru_ec c \<and>
    ru_coro c' = ru_coro c \<and> ru_item c' = ru_item c \<and> ru_fd c' = ru_fd c \<and> until_inv ys c'"
proof -
  let ?b = "ru_buffer c" and ?e = "unat (ru_last_search_end c)" and ?d = "ru_delim c"
  have inv: "db_mem ?b" "db_content ?b = map Some ys" "open_from ys ?d ?e" "?d \<noteq> []" "length ?d < 2 ^ 64"
    using assms(1) by (auto simp: until_inv_def db_ok_def)
  obtain blk where blk: "db_buffer ?b = Some blk" "unat (db_read_index ?b) \<le> unat (db_write_index ?b)"
      "unat (db_write_index ?b) \<le> length blk" "length blk \<le> unat (db_capacity ?b)" "unat (db_capacity ?b) < 2 ^ 64"
    by (rule db_memE [OF inv(1)])
  have e: "?e \<le> length ys" using inv(3) by (simp add: open_from_def)
  have sz: "unat (readable_bytes ?b) = length ys" using db_content_length [OF inv(1)] inv(2) by simp
  then have wr: "unat (db_write_index ?b) - unat (db_read_index ?b) = length ys"
    using blk(2) by (simp add: readable_bytes_def unat_minus_le word_le_unat)
  have rd: "readable_bytes ?b = of_nat (length ys)" unfolding sz [symmetric] by simp
  have len: "readable_bytes ?b - ru_last_search_end c = of_nat (length (drop ?e ys))"
    using rd e by (simp add: of_nat_diff)
  have off: "unat (db_read_index ?b + ru_last_search_end c) = unat (db_read_index ?b) + ?e"
    using blk e wr by (intro unat_plus_lt) simp
  have tk: "take (length (drop ?e ys)) (drop (unat (db_read_index ?b) + ?e) blk) = map Some (drop ?e ys)"
  proof -
    have "map Some ys = take (length ys) (drop (unat (db_read_index ?b)) blk)"
      using inv(2) blk(1) wr by (simp add: db_content_def)
    then have "map Some (drop ?e ys) = drop ?e (take (length ys) (drop (unat (db_read_index ?b)) blk))"
      by (metis drop_map)
    then show ?thesis by (simp add: drop_take add.commute)
  qed
  obtain r p where rp: "search_from ys ?d 0 (length ys) = (r, p)" by fastforce
  define q where "q = (if r = NotMatch then 0 else p - ?e)"
  have ps: "partial_search (drop (unat (db_read_index ?b + ru_last_search_end c)) blk)
      (readable_bytes ?b - ru_last_search_end c) ?d = Some (Inr (r, of_nat q))"
    using outer_loop_ok [OF tk _ inv(5,4), of 0 "length (drop ?e ys)"] search_open [OF inv(3)] rp assms(2)
    unfolding off len by (simp add: partial_search_def q_def)
  have match: "r = Match \<longleftrightarrow> sublist ?d ys" using search_match_iff [OF inv(4), of ys] rp by simp
  note cases = search_from_cases [where xs = ys and str = ?d and i = 0 and n = "length ys", unfolded rp]
  have us: "until_search c nr = Some (Inr (case r of Match \<Rightarrow> (c, True)
      | PartialMatch \<Rightarrow> (c\<lparr>ru_last_search_end := ru_last_search_end c + of_nat q\<rparr>, nr)
      | NotMatch \<Rightarrow> (c\<lparr>ru_last_search_end := readable_bytes ?b\<rparr>, nr)))"
    using ps by (cases r) (simp_all add: until_search_def Let_def read_buffer_def ConstBuffer_new_def blk(1))
  show ?thesis
  proof (cases r)
    case Match
    then show ?thesis using us match assms(1) by (intro exI [of _ c]) simp
  next
    case PartialMatch
    have p: "p < length ys" "\<forall>k < p. \<not> hit ys ?d k" "prefix (drop p ys) ?d"
      using cases PartialMatch by auto
    have "?e \<le> p" using p inv(3) unfolding open_from_def hit_def by (metis not_le)
    then have "unat (ru_last_search_end c + of_nat q) = p"
      using PartialMatch p(1) assms(2) unat_plus_lt [of "ru_last_search_end c" "of_nat q"]
      by (simp add: q_def unat_of_nat)
    then have "until_inv ys (c\<lparr>ru_last_search_end := ru_last_search_end c + of_nat q\<rparr>)"
      using assms(1) p by (simp add: until_inv_def open_from_def)
    with us PartialMatch match show ?thesis by (intro exI) auto
  next
    case NotMatch
    have "until_inv ys (c\<lparr>ru_last_search_end := readable_bytes ?b\<rparr>)"
      using assms(1) cases NotMatch sz by (simp add: until_inv_def open_from_def)
    with us NotMatch match show ?thesis by (intro exI) auto
  qed
qed


lemma until_inv_append:
  assumes "until_inv ys c" "unat (db_write_index (ru_buffer c)) + length data \<le> unat (db_capacity (ru_buffer c))"
    and "0 \<le> ru_ret c" "ru_ret c + int (length data) < 2 ^ 31"
  shows "\<exists>c'. until_append fl mok (int (length data)) data c = Inr (c', False) \<and> until_inv (ys @ data) c' \<and>
    ru_delim c' = ru_delim c \<and> ru_ret c' = ru_ret c + int (length data) \<and>
    ru_coro c' = ru_coro c \<and> ru_item c' = ru_item c \<and> ru_fd c' = ru_fd c \<and>
    db_capacity (ru_buffer c') = db_capacity (ru_buffer c) \<and>
    unat (db_write_index (ru_buffer c')) = unat (db_write_index (ru_buffer c)) + length data"
proof -
  have ok: "db_ok (ru_buffer c)" "ru_ec c = Success" using assms(1) by (auto simp: until_inv_def)
  obtain b where b: "db_append fl mok (ru_buffer c) data (of_nat (length data)) Success = Inr (b, Success)" "db_ok b"
      "db_content b = db_content (ru_buffer c) @ map Some data" "db_capacity b = db_capacity (ru_buffer c)"
      "unat (db_write_index b) = unat (db_write_index (ru_buffer c)) + length data"
    using db_append_fits [OF ok(1) assms(2)] by blast
  let ?c = "c\<lparr>ru_ret := ru_ret c + int (length data), ru_buffer := b, ru_ec := Success\<rparr>"
  have "until_append fl mok (int (length data)) data c = Inr (?c, False)"
    using assms(3,4) ok(2) b(1) by (simp add: until_append_def add_int_def ec_fail_def)
  moreover have "until_inv (ys @ data) ?c"
    using assms(1) b hit_append [of ys "ru_delim c"] by (auto simp: until_inv_def open_from_def)
  ultimately show ?thesis using b by (intro exI [of _ ?c]) simp
qed

text \<open>One event with received bytes.\<close>

lemma smart_read_until_impl_data:
  assumes "epoll_ctl_spec ctl pollable" "until_inv ys c" "ru_ret c \<ge> 0" "data \<noteq> []" "length data \<le> 64"
    and "unat (db_write_index (ru_buffer c)) + length data \<le> unat (db_capacity (ru_buffer c))"
    and "ru_ret c + int (length data) < 2 ^ 31" "length ys + length data < 2 ^ 32"
  shows "\<exists>c'. smart_read_until_impl fl mok ctl (int (length data), data, err) (c, registered (ru_item c) (reading_item cb fd) ep, []) =
      Some (Inr (c', if sublist (ru_delim c) (ys @ data) then (unregistered (ru_item c) (reading_item cb fd) ep, [ru_coro c])
                     else (registered (ru_item c) (reading_item cb fd) ep, []))) \<and>
    until_inv (ys @ data) c' \<and> ru_delim c' = ru_delim c \<and> ru_ret c' = ru_ret c + int (length data) \<and>
    ru_coro c' = ru_coro c \<and> ru_item c' = ru_item c \<and>
    db_capacity (ru_buffer c') = db_capacity (ru_buffer c) \<and>
    unat (db_write_index (ru_buffer c')) = unat (db_write_index (ru_buffer c)) + length data"
proof -
  obtain c1 where c1: "until_append fl mok (int (length data)) data c = Inr (c1, False)" "until_inv (ys @ data) c1"
    "ru_delim c1 = ru_delim c" "ru_ret c1 = ru_ret c + int (length data)" "ru_coro c1 = ru_coro c" "ru_item c1 = ru_item c"
    "db_capacity (ru_buffer c1) = db_capacity (ru_buffer c)"
    "unat (db_write_index (ru_buffer c1)) = unat (db_write_index (ru_buffer c)) + length data"
    using until_inv_append [OF assms(2,6,3,7)] by blast
  have "length (ys @ data) < 2 ^ 32" using assms(8) by simp
  from until_search_ok [OF c1(2) this, of False] obtain c2 where
    c2: "until_search c1 False = Some (Inr (c2, sublist (ru_delim c) (ys @ data)))" "until_inv (ys @ data) c2"
    "ru_delim c2 = ru_delim c1" "ru_ret c2 = ru_ret c1" "ru_coro c2 = ru_coro c1" "ru_item c2 = ru_item c1"
    "ru_buffer c2 = ru_buffer c1" using c1(3) by auto
  have r: "to_int (int (length data)) = int (length data)" using assms(5) by (intro to_int_id) simp_all
  have tmp: "mem_write (replicate 64 None) 0 (map Some data) = Inr (map Some data @ replicate (64 - length data) None)"
    using assms(5) by (simp add: mem_write_def)
  have "smart_read_until_impl fl mok ctl (int (length data), data, err) (c, registered (ru_item c) (reading_item cb fd) ep, []) =
      Some (Inr (c2, if sublist (ru_delim c) (ys @ data) then (unregistered (ru_item c) (reading_item cb fd) ep, [ru_coro c])
                     else (registered (ru_item c) (reading_item cb fd) ep, [])))"
    using c1(5,6) c2(5,6) assms(4) resume_read_coro_registered [OF assms(1), of "ru_coro c" "ru_item c" cb fd ep "[]"]
    by (simp add: smart_read_until_impl_def tmp r c1(1) c2(1))
  with c1 c2 show ?thesis by (intro exI [of _ c2]) simp
qed

lemma smart_read_until_impl_other:
  assumes "epoll_ctl_spec ctl pollable" "-1 \<le> r" "r \<le> 0"
  shows "smart_read_until_impl fl mok ctl (r, [], err) (c, registered (ru_item c) (reading_item cb fd) ep, []) =
    Some (Inr (if r < 0 \<and> err = EWOULDBLOCK then (c, registered (ru_item c) (reading_item cb fd) ep, [])
      else (if r = 0 then c else c\<lparr>ru_ret := -1\<rparr>, unregistered (ru_item c) (reading_item cb fd) ep, [ru_coro c])))"
proof -
  have "to_int r = r" using assms(2,3) by (intro to_int_id) simp_all
  then show ?thesis
    using assms(2,3) resume_read_coro_registered [OF assms(1), of "ru_coro c" "ru_item c" cb fd ep "[]"]
    by (simp add: smart_read_until_impl_def mem_write_def)
qed

definition until_result :: "byte list \<Rightarrow> byte list \<times> io_end \<Rightarrow> read_until_context \<Rightarrow> bool" where
  "until_result xs = (\<lambda>(bs, e) c. db_ok (ru_buffer c) \<and> db_content (ru_buffer c) = map Some (xs @ bs) \<and>
     ru_ec c = Success \<and> ru_ret c = (case e of Failed _ \<Rightarrow> -1 | _ \<Rightarrow> int (length bs)))"

lemma await_until_ok:
  assumes "epoll_ctl_spec ctl pollable"
  shows "until_inv (xs @ got) c \<Longrightarrow> ru_ret c = int (length got) \<Longrightarrow> until_outs_ok outs \<Longrightarrow>
    unat (db_write_index (ru_buffer c)) + received outs \<le> unat (db_capacity (ru_buffer c)) \<Longrightarrow>
    length xs + length got + received outs < 2 ^ 31 \<Longrightarrow>
    \<exists>r. await_until (smart_read_until_impl fl mok ctl) (ru_coro c) outs
        (c, registered (ru_item c) (reading_item cb fd) ep, []) = Some (Inr r) \<and>
      (case until_spec xs (ru_delim c) got outs of None \<Rightarrow> r = None
       | Some res \<Rightarrow> \<exists>c'. r = Some (c', unregistered (ru_item c) (reading_item cb fd) ep, [ru_coro c]) \<and> until_result xs res c')"
proof (induction outs arbitrary: c got)
  case (Cons out outs)
  obtain r data err where out: "out = (r, data, err)" by (cases out) auto
  have ok: "-1 \<le> r" "r \<le> 64" "length data = nat r" "until_outs_ok outs" using Cons.prems(3) out by auto
  show ?case
  proof (cases "r > 0")
    case True
    then have d: "r = int (length data)" "data \<noteq> []" "length data \<le> 64" using ok by auto
    obtain c' where c': "smart_read_until_impl fl mok ctl out (c, registered (ru_item c) (reading_item cb fd) ep, []) =
      Some (Inr (c', if sublist (ru_delim c) ((xs @ got) @ data) then (unregistered (ru_item c) (reading_item cb fd) ep, [ru_coro c])
                     else (registered (ru_item c) (reading_item cb fd) ep, [])))"
      "until_inv ((xs @ got) @ data) c'" "ru_delim c' = ru_delim c" "ru_ret c' = ru_ret c + int (length data)"
      "ru_coro c' = ru_coro c" "ru_item c' = ru_item c" "db_capacity (ru_buffer c') = db_capacity (ru_buffer c)"
      "unat (db_write_index (ru_buffer c')) = unat (db_write_index (ru_buffer c)) + length data"
      using smart_read_until_impl_data [OF assms Cons.prems(1) _ d(2,3), of fl mok err cb fd ep] Cons.prems d(1) out
      by auto
    show ?thesis
    proof (cases "sublist (ru_delim c) (xs @ got @ data)")
      case match: True
      have "until_result xs (got @ data, Complete) c'"
        using c' Cons.prems(2) by (simp add: until_result_def until_inv_def)
      then show ?thesis using match True out c'(1) by simp
    next
      case False
      have inv: "until_inv (xs @ (got @ data)) c'" "ru_ret c' = int (length (got @ data))"
        using c' Cons.prems(2) by simp_all
      have "unat (db_write_index (ru_buffer c')) + received outs \<le> unat (db_capacity (ru_buffer c'))"
        "length xs + length (got @ data) + received outs < 2 ^ 31"
        using Cons.prems(4,5) c'(7,8) out by simp_all
      from Cons.IH [OF inv ok(4) this, unfolded c'(3,5,6)] show ?thesis
        using False True out c' by simp
    qed
  next
    case False
    then have "data = []" using ok(3) by simp
    with out have step: "smart_read_until_impl fl mok ctl out (c, registered (ru_item c) (reading_item cb fd) ep, []) =
      Some (Inr (if r < 0 \<and> err = EWOULDBLOCK then (c, registered (ru_item c) (reading_item cb fd) ep, [])
        else (if r = 0 then c else c\<lparr>ru_ret := -1\<rparr>, unregistered (ru_item c) (reading_item cb fd) ep, [ru_coro c])))"
      using smart_read_until_impl_other [OF assms ok(1), of fl mok err c cb fd ep] False by simp
    show ?thesis
    proof (cases "r < 0 \<and> err = EWOULDBLOCK")
      case True
      from Cons.IH [OF Cons.prems(1,2) ok(4)] show ?thesis
        using True step out \<open>data = []\<close> Cons.prems(4,5) by simp
    next
      case fin: False
      then have "until_spec xs (ru_delim c) got (out # outs) = Some (got, if r = 0 then Eof else Failed err)"
        using False out by auto
      moreover have "until_result xs (got, if r = 0 then Eof else Failed err) (if r = 0 then c else c\<lparr>ru_ret := -1\<rparr>)"
        using Cons.prems(1,2) by (simp add: until_result_def until_inv_def)
      ultimately show ?thesis using fin step by auto
    qed
  qed
qed simp

section \<open>Properties\<close>

text \<open>C10. \<open>smart_read_until\<close> finds the delimiter however it is split over the received chunks:
  as long as the bytes fit the buffer's capacity, it returns exactly after the first chunk
  that completes an occurrence of the delimiter in the whole content, or at the end of the file or
  an error; the buffer then holds its old content followed by all bytes received, in bounds,
  and the result is their number. After a failed \<open>read\<close> the result is \<open>-1\<close> and the reported
  error code is \<open>Success\<close>.\<close>

theorem smart_read_until_spec:
  assumes "epoll_ctl_spec ctl pollable" "free_for pollable fd item ep"
    and "db_ok buffer" "db_content buffer = map Some xs" "delim \<noteq> []" "length delim < 2 ^ 64"
    and "until_outs_ok outs" "unat (db_write_index buffer) + received outs \<le> unat (db_capacity buffer)"
    and "length xs + received outs < 2 ^ 31"
  shows "case until_spec xs delim [] outs of
      None \<Rightarrow> smart_read_until fl mok ctl True fd buffer delim ec coro item outs errno ep = Some (Inr None)
    | Some (bs, e) \<Rightarrow> \<exists>b. smart_read_until fl mok ctl True fd buffer delim ec coro item outs errno ep =
        Some (Inr (Some \<lparr>io_ret = (case e of Failed _ \<Rightarrow> -1 | _ \<Rightarrow> int (length bs)), io_errno = errno,
          io_data = (b, case e of Failed _ \<Rightarrow> Success | _ \<Rightarrow> ec), io_epoller = ep\<rparr>)) \<and>
        db_ok b \<and> db_content b = map Some (xs @ bs)"
proof -
  let ?c = "ReadUntilContext fd buffer delim coro item"
  have "until_inv (xs @ []) ?c" "ru_ret ?c = int (length ([] :: byte list))" "ru_coro ?c = coro" "ru_item ?c = item"
      "ru_delim ?c = delim" "ru_buffer ?c = buffer"
    using assms(3-6) by (simp_all add: until_inv_def ReadUntilContext_def open_from_def)
  note c = this
  have pr: "unat (db_write_index (ru_buffer ?c)) + received outs \<le> unat (db_capacity (ru_buffer ?c))"
    "length xs + length ([] :: byte list) + received outs < 2 ^ 31" using assms(8,9) c(6) by simp_all
  obtain r where r: "await_until (smart_read_until_impl fl mok ctl) coro outs
        (?c, registered item (reading_item (Smart_read_until_impl item) fd) ep, []) = Some (Inr r)"
    "case until_spec xs delim [] outs of None \<Rightarrow> r = None
       | Some res \<Rightarrow> \<exists>c'. r = Some (c', unregistered item (reading_item (Smart_read_until_impl item) fd) ep, [coro]) \<and> until_result xs res c'"
    using await_until_ok [OF assms(1) c(1,2) assms(7) pr, of fl mok "Smart_read_until_impl item" fd ep, unfolded c(3-5)] by blast
  have close: "close_item item (unregistered item (reading_item (Smart_read_until_impl item) fd) ep) = ep"
    using assms(2) by (intro close_item_unregistered [of pollable]) simp
  show ?thesis
    using r close
    by (auto simp: smart_read_until_def enable_reading_opened [OF assms(1,2)] until_result_def
        split: option.splits io_end.splits)
qed

theorem smart_read_until_spec_witness:
  "\<exists>b. smart_read_until default_flags True (epoll_ctl_map (\<lambda>_. True)) True 5 (DynamicBuffer_new True 64 16)
      [13, 10] Success 7 1 [(3, [1, 2, 13], 0), (2, [10, 9], 0)] 0 SmartEPoller_new =
    Some (Inr (Some \<lparr>io_ret = 5, io_errno = 0, io_data = (b, Success), io_epoller = SmartEPoller_new\<rparr>)) \<and>
    db_content b = map Some [1, 2, 13, 10, 9]"
proof -
  let ?b = "DynamicBuffer_new True 64 16" and ?outs = "[(3, [1, 2, 13], 0), (2, [10, 9], 0)] :: read_outcome list"
  have f: "free_for (\<lambda>_. True) 5 1 SmartEPoller_new" by (simp add: free_for_def SmartEPoller_new_def)
  have b: "db_ok ?b" "db_content ?b = map Some []" using DynamicBuffer_new_ok [of 16 64] by simp_all
  have s1: "\<not> sublist [13, 10] ([] @ [] @ [1, 2, 13 :: byte])"
    by (simp add: sublist_Cons_right)
  have s2: "sublist [13, 10] ([] @ ([] @ [1, 2, 13]) @ [10, 9 :: byte])"
    by (simp add: sublist_Cons_right)
  have "until_spec [] [13, 10] [] ?outs = Some ([1, 2, 13, 10, 9], Complete)"
    using s1 s2 by simp
  then show ?thesis
    using smart_read_until_spec [OF epoll_ctl_map_spec f b, of "[13, 10]" ?outs default_flags True Success 7 0]
    by (auto simp: DynamicBuffer_new_def)
qed

end
