(* ===== verification/Event_Io.thy ===== *)
theory Event_Io
  imports Read_Until
begin

text \<open>
  The event loop with the callbacks of the blocking calls. The theories \<open>EPoll\<close> and \<open>Smart_Io\<close>
  look at the two sides separately: a round of the loop over arbitrary callbacks, and one call
  over the answers it gets. Here any number of coroutines wait in \<open>smart_read\<close>, \<open>smart_write\<close>,
  \<open>smart_connect\<close>, \<open>smart_accept\<close> and \<open>smart_read_until\<close>, their contexts are in memory, the callbacks are the bound
  functions \<open>smart_read_impl(&context)\<close> and so on, and the loop runs them. The specification
  is a set of waiting calls, each of which moves on by its own answers; the loop refines it.
\<close>

unbundle bit_operations_syntax

section \<open>The loop and the contexts\<close>

datatype io_context =
    Read_ctx read_context | Write_ctx write_context | Connect_ctx connect_context | Accept_ctx accept_context
  | Until_ctx read_until_context

record io_loop = "io_callback epoller" +
  il_ctx :: "nat \<rightharpoonup> io_context"      \<comment> \<open>the contexts; context and item of a call have one address here\<close>
  il_resumed :: "nat list"          \<comment> \<open>the coroutines handed back to the scheduler\<close>

text \<open>What the system calls answer in one round, by the context that makes the call, and the settings
  they read.\<close>

record answers =
  an_read :: "nat \<Rightarrow> read_outcome"
  an_write :: "nat \<Rightarrow> int \<times> int"
  an_getsockopt :: "nat \<Rightarrow> int \<times> int \<times> int"
  an_accept :: "nat \<Rightarrow> int \<times> int"
  an_malloc :: "nat \<Rightarrow> bool"
  an_flags :: flags

definition store_ctx :: "nat \<Rightarrow> ('c \<Rightarrow> io_context) \<Rightarrow> ('c \<times> io_loop \<times> nat list) res \<Rightarrow> io_loop res" where
  "store_ctx a con r = bind_res r (\<lambda>(c, l, coros).
     Inr (l\<lparr>il_ctx := (il_ctx l)(a \<mapsto> con c), il_resumed := il_resumed l @ coros\<rparr>))"

text \<open>A search that does not come back.\<close>

definition ended :: "'a res option \<Rightarrow> 'a res" where
  "ended r = (case r of None \<Rightarrow> Inl NoProgress | Some r \<Rightarrow> r)"

text \<open>Running a bound callback. A context that is gone is a use after free.\<close>

fun run_io :: "epoll_ctl \<Rightarrow> answers \<Rightarrow> io_callback \<Rightarrow> io_loop \<Rightarrow> io_loop res" where
  "run_io ctl ans (Smart_read_impl a) l =
     (case il_ctx l a of Some (Read_ctx c) \<Rightarrow> store_ctx a Read_ctx (smart_read_impl ctl (an_read ans a) (c, l, []))
      | _ \<Rightarrow> Inl UseAfterFree)"
| "run_io ctl ans (Smart_write_impl a) l =
     (case il_ctx l a of Some (Write_ctx c) \<Rightarrow> store_ctx a Write_ctx (smart_write_impl ctl (an_write ans a) (c, l, []))
      | _ \<Rightarrow> Inl UseAfterFree)"
| "run_io ctl ans (Smart_connect_impl a) l =
     (case il_ctx l a of Some (Connect_ctx c) \<Rightarrow> store_ctx a Connect_ctx (smart_connect_impl ctl (an_getsockopt ans a) (c, l, []))
      | _ \<Rightarrow> Inl UseAfterFree)"
| "run_io ctl ans (Smart_accept_impl a) l =
     (case il_ctx l a of Some (Accept_ctx c) \<Rightarrow> store_ctx a Accept_ctx (smart_accept_impl ctl (an_accept ans a) (c, l, []))
      | _ \<Rightarrow> Inl UseAfterFree)"
| "run_io ctl ans (Smart_read_until_impl a) l =
     (case il_ctx l a of Some (Until_ctx c) \<Rightarrow>
          store_ctx a Until_ctx (ended (smart_read_until_impl (an_flags ans) (an_malloc ans a) ctl (an_read ans a) (c, l, [])))
      | _ \<Rightarrow> Inl UseAfterFree)"

section \<open>The calls on their own\<close>

text \<open>What one answer makes of a context, and whether the call is finished.\<close>

definition read_answer :: "read_outcome \<Rightarrow> read_context \<Rightarrow> (read_context \<times> bool) res" where
  "read_answer = (\<lambda>(result, data, err) c.
     bind_res (mem_write (rc_buf c) (unat (rc_ret c)) (map Some data)) (\<lambda>buf.
       let ret = to_int result; c1 = c\<lparr>rc_buf := buf\<rparr>; c2 = c1\<lparr>rc_ret := rc_ret c1 + of_int ret\<rparr> in
       if ret > 0 then Inr (c2, rc_ret c2 = rc_count c2)
       else if ret < 0 \<and> err \<noteq> EWOULDBLOCK then Inr (c1\<lparr>rc_ret := -1, rc_errno := err\<rparr>, True)
       else Inr (c1, ret = 0)))"

definition write_answer :: "int \<times> int \<Rightarrow> write_context \<Rightarrow> (write_context \<times> bool) res" where
  "write_answer = (\<lambda>(result, err) c.
     bind_res (mem_read (wc_buf c) (unat (wc_ret c)) (unat (wc_count c - wc_ret c))) (\<lambda>xs.
       let ret = to_int result; c1 = c\<lparr>wc_sent := wc_sent c @ take (nat result) xs\<rparr>;
           c2 = c1\<lparr>wc_ret := wc_ret c1 + of_int ret\<rparr> in
       if ret > 0 then Inr (c2, wc_ret c2 = wc_count c2)
       else if ret < 0 \<and> err \<noteq> EWOULDBLOCK then Inr (c1\<lparr>wc_ret := -1, wc_errno := err\<rparr>, True)
       else Inr (c1, False)))"

definition connect_answer :: "int \<times> int \<times> int \<Rightarrow> connect_context \<Rightarrow> connect_context \<times> bool" where
  "connect_answer = (\<lambda>(ret, error, err) c.
     (if ret < 0 then c\<lparr>cc_errno := err\<rparr> else if error \<noteq> 0 then c\<lparr>cc_errno := error\<rparr> else c, True))"

definition accept_answer :: "int \<times> int \<Rightarrow> accept_context \<Rightarrow> accept_context \<times> bool" where
  "accept_answer = (\<lambda>(ret, err) c.
     if ret < 0 \<and> err \<noteq> EWOULDBLOCK then (c\<lparr>ac_ret := -1, ac_errno := err\<rparr>, True)
     else if ret \<ge> 0 then (c\<lparr>ac_ret := ret\<rparr>, True) else (c, False))"

definition until_answer :: "flags \<Rightarrow> bool \<Rightarrow> read_outcome \<Rightarrow> read_until_context \<Rightarrow> (read_until_context \<times> bool) res" where
  "until_answer fl mok = (\<lambda>(result, data, err) c.
     bind_res (mem_write (replicate 64 None) 0 (map Some data)) (\<lambda>_.
       let ret = to_int result in
       if ret > 0 then bind_res (until_append fl mok ret data c) (\<lambda>(c1, need_resume). ended (until_search c1 need_resume))
       else if ret < 0 \<and> err \<noteq> EWOULDBLOCK then Inr (c\<lparr>ru_ret := -1\<rparr>, True)
       else Inr (c, ret = 0)))"

fun answer :: "answers \<Rightarrow> nat \<Rightarrow> io_context \<Rightarrow> (io_context \<times> bool) res" where
  "answer ans a (Until_ctx c) =
     bind_res (until_answer (an_flags ans) (an_malloc ans a) (an_read ans a) c) (\<lambda>(c', fin). Inr (Until_ctx c', fin))"
| "answer ans a (Read_ctx c) = bind_res (read_answer (an_read ans a) c) (\<lambda>(c', fin). Inr (Read_ctx c', fin))"
| "answer ans a (Write_ctx c) = bind_res (write_answer (an_write ans a) c) (\<lambda>(c', fin). Inr (Write_ctx c', fin))"
| "answer ans a (Connect_ctx c) = (let (c', fin) = connect_answer (an_getsockopt ans a) c in Inr (Connect_ctx c', fin))"
| "answer ans a (Accept_ctx c) = (let (c', fin) = accept_answer (an_accept ans a) c in Inr (Accept_ctx c', fin))"

fun ctx_coro :: "io_context \<Rightarrow> nat" where
  "ctx_coro (Until_ctx c) = ru_coro c"
| "ctx_coro (Read_ctx c) = rc_coro c"
| "ctx_coro (Write_ctx c) = wc_coro c"
| "ctx_coro (Connect_ctx c) = cc_coro c"
| "ctx_coro (Accept_ctx c) = ac_coro c"

fun ctx_item :: "io_context \<Rightarrow> item_ptr" where
  "ctx_item (Until_ctx c) = ru_item c"
| "ctx_item (Read_ctx c) = rc_item c"
| "ctx_item (Write_ctx c) = wc_item c"
| "ctx_item (Connect_ctx c) = cc_item c"
| "ctx_item (Accept_ctx c) = ac_item c"

fun ctx_fd :: "io_context \<Rightarrow> fd" where
  "ctx_fd (Until_ctx c) = ru_fd c"
| "ctx_fd (Read_ctx c) = rc_fd c"
| "ctx_fd (Write_ctx c) = wc_fd c"
| "ctx_fd (Connect_ctx c) = cc_sockfd c"
| "ctx_fd (Accept_ctx c) = ac_sockfd c"

fun reads :: "io_context \<Rightarrow> bool" where
  "reads (Until_ctx _) = True"
| "reads (Read_ctx _) = True"
| "reads (Write_ctx _) = False"
| "reads (Connect_ctx _) = False"
| "reads (Accept_ctx _) = True"

fun ctx_callback :: "io_context \<Rightarrow> nat \<Rightarrow> io_callback" where
  "ctx_callback (Until_ctx _) = Smart_read_until_impl"
| "ctx_callback (Read_ctx _) = Smart_read_impl"
| "ctx_callback (Write_ctx _) = Smart_write_impl"
| "ctx_callback (Connect_ctx _) = Smart_connect_impl"
| "ctx_callback (Accept_ctx _) = Smart_accept_impl"

lemma until_answer_keeps:
  assumes "until_answer fl mok out c = Inr (c', fin)"
  shows "ru_coro c' = ru_coro c" "ru_item c' = ru_item c" "ru_fd c' = ru_fd c"
proof -
  obtain r d e where out: "out = (r, d, e)" by (cases out) auto
  have append: "ru_coro c1 = ru_coro c" "ru_item c1 = ru_item c" "ru_fd c1 = ru_fd c" if "until_append fl mok ret d c = Inr (c1, nr)" for ret c1 nr
    using that by (auto simp: until_append_def bind_res_Inr_iff Let_def split: if_splits)
  have search: "ru_coro c2 = ru_coro c1" "ru_item c2 = ru_item c1" "ru_fd c2 = ru_fd c1" if "ended (until_search c1 nr) = Inr (c2, fin)" for c1 nr c2
    using that by (auto simp: until_search_def ended_def Let_def bind_res_Inr_iff split: option.splits bind_splits partial_search_result.splits)
      (metis partial_search_result.exhaust)+
  show "ru_coro c' = ru_coro c" "ru_item c' = ru_item c" "ru_fd c' = ru_fd c"
    using assms append search by (auto simp: until_answer_def out bind_res_Inr_iff Let_def split: if_splits)
qed

lemma answer_keeps:
  assumes "answer ans a c = Inr (c', fin)"
  shows "ctx_coro c' = ctx_coro c" "ctx_item c' = ctx_item c" "ctx_fd c' = ctx_fd c" "reads c' = reads c"
    "ctx_callback c' = ctx_callback c"
proof -
  have "ctx_coro c' = ctx_coro c \<and> ctx_item c' = ctx_item c \<and> ctx_fd c' = ctx_fd c \<and> reads c' = reads c \<and> ctx_callback c' = ctx_callback c"
  proof (cases c)
    case (Until_ctx u)
    then obtain u' where "until_answer (an_flags ans) (an_malloc ans a) (an_read ans a) u = Inr (u', fin)" and u': "c' = Until_ctx u'"
      using assms by (auto simp: bind_res_Inr_iff)
    from until_answer_keeps [OF this(1)] show ?thesis using Until_ctx u' by simp
  qed (use assms in \<open>auto simp: read_answer_def write_answer_def connect_answer_def accept_answer_def Let_def bind_res_Inr_iff
      split: prod.splits if_splits\<close>)
  then show "ctx_coro c' = ctx_coro c" "ctx_item c' = ctx_item c" "ctx_fd c' = ctx_fd c" "reads c' = reads c"
    "ctx_callback c' = ctx_callback c" by simp_all
qed

definition resume_coro :: "epoll_ctl \<Rightarrow> io_context \<Rightarrow> 'x io_world \<Rightarrow> 'x io_world res" where
  "resume_coro ctl c = (if reads c then resume_read_coro else resume_write_coro) ctl (ctx_coro c) (ctx_item c)"

text \<open>The callbacks are the calls on their own, with the resumption at the end.\<close>

lemma impl_answer:
  "smart_read_impl ctl out (c, w) = bind_res (read_answer out c) (\<lambda>(c', fin).
     bind_res (if fin then resume_read_coro ctl (rc_coro c') (rc_item c') w else Inr w) (\<lambda>w'. Inr (c', w')))"
  "smart_write_impl ctl wout (wc, w) = bind_res (write_answer wout wc) (\<lambda>(c', fin).
     bind_res (if fin then resume_write_coro ctl (wc_coro c') (wc_item c') w else Inr w) (\<lambda>w'. Inr (c', w')))"
  "smart_connect_impl ctl gout (cc, w) = (let (c', fin) = connect_answer gout cc in
     bind_res (if fin then resume_write_coro ctl (cc_coro c') (cc_item c') w else Inr w) (\<lambda>w'. Inr (c', w')))"
  "smart_accept_impl ctl aout (ac, w) = (let (c', fin) = accept_answer aout ac in
     bind_res (if fin then resume_read_coro ctl (ac_coro c') (ac_item c') w else Inr w) (\<lambda>w'. Inr (c', w')))"
  by (auto simp: smart_read_impl_def read_answer_def smart_write_impl_def write_answer_def smart_connect_impl_def connect_answer_def
      smart_accept_impl_def accept_answer_def bind_res_assoc Let_def split: prod.splits intro!: arg_cong [of _ _ "bind_res _"])

lemma until_impl_answer:
  "ended (smart_read_until_impl fl mok ctl out (c, w)) = bind_res (until_answer fl mok out c) (\<lambda>(c', fin).
     bind_res (if fin then resume_read_coro ctl (ru_coro c') (ru_item c') w else Inr w) (\<lambda>w'. Inr (c', w')))"
proof -
  obtain r d e where out: "out = (r, d, e)" by (cases out) auto
  show ?thesis
  proof (cases "mem_write (replicate 64 None) 0 (map Some d) :: block res")
    case (Inl u)
    show ?thesis by (simp add: out smart_read_until_impl_def until_answer_def Inl ended_def)
  next
    case (Inr b)
    show ?thesis
    proof (cases "to_int r > 0")
      case True
      show ?thesis
      proof (cases "until_append fl mok (to_int r) d c")
        case app: (Inr x)
        obtain c1 nr where x: "x = (c1, nr)" by (cases x)
        show ?thesis
          by (cases "until_search c1 nr") (use True app in \<open>auto simp: out x smart_read_until_impl_def until_answer_def Inr ended_def split_def
              intro!: arg_cong [of _ _ "bind_res _"]\<close>)
      qed (use True in \<open>simp add: out smart_read_until_impl_def until_answer_def Inr ended_def\<close>)
    next
      case False
      then show ?thesis by (auto simp: out smart_read_until_impl_def until_answer_def Inr ended_def Let_def)
    qed
  qed
qed

lemma run_io_answer:
  assumes "il_ctx l a = Some c"
  shows "run_io ctl ans (ctx_callback c a) l = bind_res (answer ans a c) (\<lambda>(c', fin).
     bind_res (if fin then resume_coro ctl c' (l, []) else Inr (l, [])) (\<lambda>(l', coros).
       Inr (l'\<lparr>il_ctx := (il_ctx l')(a \<mapsto> c'), il_resumed := il_resumed l' @ coros\<rparr>)))"
  using assms
  by (cases c) (auto simp: store_ctx_def impl_answer until_impl_answer resume_coro_def bind_res_assoc split_def Let_def
      intro!: arg_cong [of _ _ "bind_res _"])

section \<open>The specification: a set of waiting calls\<close>

record served =
  sv_ctx :: "nat \<rightharpoonup> io_context"
  sv_wait :: "nat set"
  sv_resumed :: "nat list"

definition wakes :: "bool \<Rightarrow> uint32 \<Rightarrow> bool" where
  "wakes rd e \<longleftrightarrow> e AND (if rd then EPOLLIN OR EPOLLPRI OR EPOLLRDHUP else EPOLLOUT) \<noteq> 0"

definition triggers :: "io_context \<Rightarrow> uint32 \<Rightarrow> bool" where
  "triggers c e \<longleftrightarrow> wakes (reads c) e"

definition serve_one :: "answers \<Rightarrow> nat \<times> uint32 \<Rightarrow> served \<Rightarrow> served res" where
  "serve_one ans = (\<lambda>(a, e) S.
     (case sv_ctx S a of None \<Rightarrow> Inl UseAfterFree
      | Some c \<Rightarrow>
          if triggers c e then bind_res (answer ans a c) (\<lambda>(c', fin).
            Inr (if fin then S\<lparr>sv_ctx := (sv_ctx S)(a \<mapsto> c'), sv_wait := sv_wait S - {a}, sv_resumed := sv_resumed S @ [ctx_coro c]\<rparr>
                 else S\<lparr>sv_ctx := (sv_ctx S)(a \<mapsto> c')\<rparr>))
          else Inr S))"

fun serve :: "answers \<Rightarrow> (nat \<times> uint32) list \<Rightarrow> served \<Rightarrow> served res" where
  "serve ans [] S = Inr S"
| "serve ans (pe # pes) S = bind_res (serve_one ans pe S) (serve ans pes)"

section \<open>The relation\<close>

definition call_item :: "io_context \<Rightarrow> nat \<Rightarrow> io_callback epoll_item" where
  "call_item c a = (if reads c then reading_item (ctx_callback c a) (ctx_fd c) else writing_item (ctx_callback c a) (ctx_fd c))"

definition call_mask :: "io_context \<Rightarrow> uint32" where
  "call_mask c = (if reads c then EPOLLIN else EPOLLOUT)"

definition idle_item :: "'cb epoll_item \<Rightarrow> 'cb epoll_item" where
  "idle_item it = it\<lparr>it_events := 0, it_watching := False\<rparr>"

definition io_rel :: "(nat \<Rightarrow> uint32) \<Rightarrow> io_loop \<Rightarrow> served \<Rightarrow> bool" where
  "io_rel rv l S \<longleftrightarrow>
     il_ctx l = sv_ctx S \<and> il_resumed l = sv_resumed S \<and> sv_wait S \<subseteq> dom (sv_ctx S) \<and>
     (\<forall>a. ep_items l a = map_option (\<lambda>c. set_revents (rv a)
        (if a \<in> sv_wait S then call_item c a else idle_item (call_item c a))) (sv_ctx S a)) \<and>
     (\<forall>a c. sv_ctx S a = Some c \<longrightarrow> ctx_item c = a) \<and>
     (\<forall>a c. a \<in> sv_wait S \<longrightarrow> sv_ctx S a = Some c \<longrightarrow> ep_interest l (ctx_fd c) = Some (call_mask c, a)) \<and>
     (\<forall>fd m a. ep_interest l fd = Some (m, a) \<longrightarrow> a \<in> sv_wait S \<and> (\<exists>c. sv_ctx S a = Some c \<and> ctx_fd c = fd))"

lemma io_relD:
  assumes "io_rel rv l S" "sv_ctx S a = Some c"
  shows "il_ctx l a = Some c" "ctx_item c = a"
    "ep_items l a = Some (set_revents (rv a) (if a \<in> sv_wait S then call_item c a else idle_item (call_item c a)))"
    "a \<in> sv_wait S \<Longrightarrow> ep_interest l (ctx_fd c) = Some (call_mask c, a)"
  using assms unfolding io_rel_def by simp_all

lemma io_rel_interest:
  assumes "io_rel rv l S" "ep_interest l fd = Some (m, a)"
  shows "a \<in> sv_wait S" "sv_ctx S a = Some c \<Longrightarrow> ctx_fd c = fd"
  using assms unfolding io_rel_def by fastforce+

lemma io_rel_poller:
  "io_rel rv (l\<lparr>ep_evlist := x, ep_ready_list := y\<rparr>) S \<longleftrightarrow> io_rel rv l S"
  "io_rel rv (l\<lparr>ep_evlist := x\<rparr>) S \<longleftrightarrow> io_rel rv l S"
  "io_rel rv (l\<lparr>ep_ready_list := y\<rparr>) S \<longleftrightarrow> io_rel rv l S"
  by (simp_all add: io_rel_def)

lemma call_item_callbacks [simp]:
  "it_close_callback (call_item c a) = None" "it_error_callback (call_item c a) = None" "it_fd (call_item c a) = ctx_fd c"
  "it_read_callback (call_item c a) = (if reads c then Some (ctx_callback c a) else None)"
  "it_write_callback (call_item c a) = (if reads c then None else Some (ctx_callback c a))"
  "it_events (call_item c a) = call_mask c" "it_watching (call_item c a)"
  by (simp_all add: call_item_def reading_item_def writing_item_def EPollItem_new_def call_mask_def)

lemma call_item_answer:
  "answer ans a c = Inr (c', fin) \<Longrightarrow> call_item c' a = call_item c a" "answer ans a c = Inr (c', fin) \<Longrightarrow> call_mask c' = call_mask c"
  using answer_keeps [of ans a c c' fin] by (simp_all add: call_item_def call_mask_def)

text \<open>Storing the reported events.\<close>

lemma io_rel_revents:
  assumes "io_rel rv l S" "sv_ctx S p = Some c" "ep_items l p = Some it"
  shows "io_rel (rv(p := e)) (put_item p (set_revents e it) l) S"
  using assms unfolding io_rel_def put_item_def by auto

lemma collect_ready_rel:
  assumes "io_rel rv l S" "set (map fst pes) \<subseteq> dom (sv_ctx S)" "distinct (map fst pes)"
  shows "\<exists>rv' l'. collect_ready (map (\<lambda>(p, e). (e, Some p)) pes) l = Inr l' \<and> io_rel rv' l' S \<and>
    ep_ready_list l' = ep_ready_list l @ map fst pes \<and> ep_evlist l' = ep_evlist l \<and>
    (\<forall>(p, e) \<in> set pes. rv' p = e) \<and> (\<forall>p. p \<notin> set (map fst pes) \<longrightarrow> rv' p = rv p)"
  using assms
proof (induction pes arbitrary: rv l)
  case (Cons pe pes)
  obtain p e where pe: "pe = (p, e)" by (cases pe)
  obtain c where c: "sv_ctx S p = Some c" using Cons.prems(2) pe by auto
  obtain it where it: "ep_items l p = Some it" using io_relD(3) [OF Cons.prems(1) c] by blast
  let ?l = "(put_item p (set_revents e it) l)\<lparr>ep_ready_list := ep_ready_list l @ [p]\<rparr>"
  have rel: "io_rel (rv(p := e)) ?l S" using io_rel_revents [OF Cons.prems(1) c it] by (simp only: io_rel_poller)
  from Cons.IH [OF rel] Cons.prems(2,3) obtain rv' l' where
    l': "collect_ready (map (\<lambda>(p, e). (e, Some p)) pes) ?l = Inr l'" "io_rel rv' l' S"
      "ep_ready_list l' = ep_ready_list ?l @ map fst pes" "ep_evlist l' = ep_evlist ?l"
      "\<forall>(p, e) \<in> set pes. rv' p = e" "\<forall>q. q \<notin> set (map fst pes) \<longrightarrow> rv' q = (rv(p := e)) q"
    by auto
  have "rv' p = e" using l'(6) Cons.prems(3) pe by auto
  then show ?case
    using l' it pe by (intro exI [of _ rv'] exI [of _ l']) (auto simp: deref_item_def put_item_def)
qed auto

text \<open>Running the callback of a waiting call.\<close>

lemma idle_item_order:
  "it\<lparr>it_revents := r, it_events := 0, it_watching := False\<rparr> = it\<lparr>it_events := 0, it_watching := False, it_revents := r\<rparr>"
  by (cases it) simp

lemma resume_coro_rel:
  assumes "epoll_ctl_spec ctl pollable" "io_rel rv l S" "a \<in> sv_wait S" "sv_ctx S a = Some c"
    and "reads c' = reads c" "ctx_coro c' = ctx_coro c" "ctx_item c' = ctx_item c"
  shows "resume_coro ctl c' (l, []) = Inr (l\<lparr>ep_interest := (ep_interest l)(ctx_fd c := None),
      ep_items := (ep_items l)(a \<mapsto> set_revents (rv a) (idle_item (call_item c a)))\<rparr>, [ctx_coro c])"
proof -
  have mask: "(if reads c then call_mask c AND NOT EPOLLIN else call_mask c AND NOT EPOLLOUT) = 0" by (simp add: call_mask_def)
  have "ep_items l a = Some (set_revents (rv a) (call_item c a))" "ep_interest l (ctx_fd c) = Some (call_mask c, a)" "ctx_item c = a"
    using io_relD [OF assms(2,4)] assms(3) by simp_all
  then show ?thesis using mask assms(5-7)
    by (simp add: resume_coro_def resume_read_coro_def resume_write_coro_def disable_reading_def disable_writing_def
        update_events_def deref_item_def put_item_def watch_event_def is_disabled_def idle_item_def
        epoll_ctl_simps [OF assms(1)] idle_item_order split: if_splits)
qed

lemma idle_set_revents: "idle_item (set_revents e it) = set_revents e (idle_item it)"
  by (simp add: idle_item_def)

lemma io_rel_finish:
  assumes "io_rel rv l S" "a \<in> sv_wait S" "sv_ctx S a = Some c" "answer ans a c = Inr (c', True)"
  shows "io_rel rv (l\<lparr>ep_interest := (ep_interest l)(ctx_fd c := None),
      ep_items := (ep_items l)(a \<mapsto> set_revents (rv a) (idle_item (call_item c a))),
      il_ctx := (il_ctx l)(a \<mapsto> c'), il_resumed := il_resumed l @ [ctx_coro c]\<rparr>)
    (S\<lparr>sv_ctx := (sv_ctx S)(a \<mapsto> c'), sv_wait := sv_wait S - {a}, sv_resumed := sv_resumed S @ [ctx_coro c]\<rparr>)"
    (is "io_rel rv ?l ?S")
proof -
  note keep = answer_keeps [OF assms(4)] call_item_answer [OF assms(4)]
  note rel = io_relD [OF assms(1)]
  have own: "ep_interest l (ctx_fd c) = Some (call_mask c, a)" using rel(4) [OF assms(3,2)] .
  have items: "ep_items ?l b = map_option (\<lambda>c. set_revents (rv b)
      (if b \<in> sv_wait ?S then call_item c b else idle_item (call_item c b))) (sv_ctx ?S b)" for b
    using assms(1) keep(6) unfolding io_rel_def by simp
  have waiting: "ep_interest ?l (ctx_fd d) = Some (call_mask d, b)" if "b \<in> sv_wait ?S" "sv_ctx ?S b = Some d" for b d
  proof -
    have b: "b \<in> sv_wait S" "sv_ctx S b = Some d" "b \<noteq> a" using that by (auto split: if_splits)
    have "ep_interest l (ctx_fd d) = Some (call_mask d, b)" using rel(4) [OF b(2,1)] .
    moreover from this have "ctx_fd d \<noteq> ctx_fd c" using own b(3) by auto
    ultimately show ?thesis by simp
  qed
  have listed: "b \<in> sv_wait ?S \<and> (\<exists>d. sv_ctx ?S b = Some d \<and> ctx_fd d = fd)" if "ep_interest ?l fd = Some (m, b)" for fd m b
  proof -
    have fd: "ep_interest l fd = Some (m, b)" "fd \<noteq> ctx_fd c" using that by (auto split: if_splits)
    then have "b \<noteq> a" using io_rel_interest(2) [OF assms(1) fd(1)] assms(3) by auto
    moreover have "b \<in> sv_wait S \<and> (\<exists>d. sv_ctx S b = Some d \<and> ctx_fd d = fd)" using assms(1) fd(1) unfolding io_rel_def by blast
    ultimately show ?thesis by simp
  qed
  have "ctx_item d = b" if "sv_ctx ?S b = Some d" for b d
    using that keep(2) rel(2) assms(3) by (auto split: if_splits)
  moreover have "il_ctx ?l = sv_ctx ?S" "il_resumed ?l = sv_resumed ?S" "sv_wait ?S \<subseteq> dom (sv_ctx ?S)"
    using assms(1) unfolding io_rel_def by auto
  ultimately show ?thesis using items waiting listed unfolding io_rel_def by blast
qed

lemma io_rel_continue:
  assumes "io_rel rv l S" "sv_ctx S a = Some c" "answer ans a c = Inr (c', fin)"
  shows "io_rel rv (l\<lparr>il_ctx := (il_ctx l)(a \<mapsto> c')\<rparr>) (S\<lparr>sv_ctx := (sv_ctx S)(a \<mapsto> c')\<rparr>)"
proof -
  have "ctx_fd c = fd" if "ep_interest l fd = Some (m, a)" for fd m
    using io_rel_interest(2) [OF assms(1) that assms(2)] .
  then show ?thesis
    using assms(1,2) answer_keeps [OF assms(3)] call_item_answer [OF assms(3)] unfolding io_rel_def by auto
qed

text \<open>The callback of a waiting call does to the loop what the answer does to the specification.\<close>

lemma run_io_rel:
  assumes "epoll_ctl_spec ctl pollable" "io_rel rv l S" "a \<in> sv_wait S" "sv_ctx S a = Some c" "triggers c e"
    and "serve_one ans (a, e) S = Inr S'"
  shows "\<exists>l'. run_io ctl ans (ctx_callback c a) l = Inr l' \<and> io_rel rv l' S' \<and> ep_ready_list l' = ep_ready_list l \<and>
    ep_evlist l' = ep_evlist l \<and> sv_ctx S' a \<noteq> None"
proof -
  obtain c' fin where ans: "answer ans a c = Inr (c', fin)"
    using assms(4,5,6) by (auto simp: serve_one_def bind_res_Inr_iff)
  note run = run_io_answer [OF io_relD(1) [OF assms(2,4)], of ctl ans]
  show ?thesis
  proof (cases fin)
    case True
    note resume = resume_coro_rel [OF assms(1-4) answer_keeps(4,1,2) [OF ans]]
    show ?thesis
      using run resume io_rel_finish [OF assms(2-4)] ans True assms(4,5,6) by (auto simp: serve_one_def)
  next
    case False
    then show ?thesis
      using run io_rel_continue [OF assms(2,4) ans] ans assms(4,5,6) by (auto simp: serve_one_def)
  qed
qed

lemma handle_events_rel:
  assumes "epoll_ctl_spec ctl pollable" "io_rel rv l S" "a \<in> sv_wait S" "serve_one ans (a, rv a) S = Inr S'"
  shows "\<exists>l'. handle_events (run_io ctl ans) a l = Inr l' \<and> io_rel rv l' S' \<and> ep_ready_list l' = ep_ready_list l \<and>
    ep_evlist l' = ep_evlist l"
proof -
  obtain c where c: "sv_ctx S a = Some c" using assms(4) by (auto simp: serve_one_def split: option.splits)
  note it = io_relD(3) [OF assms(2) c]
  have close: "handle_one (run_io ctl ans) EPOLLHUP it_close_callback a l = Inr l"
    "handle_one (run_io ctl ans) EPOLLERR it_error_callback a l = Inr l"
    using it assms(3) by (simp_all add: handle_one_def deref_item_def)
  show ?thesis
  proof (cases "triggers c (rv a)")
    case False
    then have "S' = S" using assms(4) c by (simp add: serve_one_def)
    moreover have "handle_events (run_io ctl ans) a l = Inr l"
      using close it assms(3) False by (simp add: handle_events_def handle_one_def deref_item_def triggers_def wakes_def split: if_splits)
    ultimately show ?thesis using assms(2) by simp
  next
    case True
    obtain l' where l': "run_io ctl ans (ctx_callback c a) l = Inr l'" "io_rel rv l' S'"
      "ep_ready_list l' = ep_ready_list l" "ep_evlist l' = ep_evlist l" "sv_ctx S' a \<noteq> None"
      using run_io_rel [OF assms(1-3) c True assms(4)] by blast
    obtain c' where c': "sv_ctx S' a = Some c'" using l'(5) by blast
    have same: "reads c' = reads c"
      using assms(4) c True c' answer_keeps(4) by (auto simp: serve_one_def bind_res_Inr_iff split: if_splits)
    have it': "it_write_callback (set_revents (rv a) (if a \<in> sv_wait S' then call_item c' a else idle_item (call_item c' a))) =
        (if reads c then None else Some (ctx_callback c' a))"
      using same by (simp add: idle_item_def)
    have "handle_events (run_io ctl ans) a l = Inr l'"
    proof (cases "reads c")
      case r: True
      have "handle_one (run_io ctl ans) (EPOLLIN OR EPOLLPRI OR EPOLLRDHUP) it_read_callback a l = Inr l'"
        using it assms(3) True r l'(1) by (simp add: handle_one_def deref_item_def triggers_def wakes_def)
      moreover have "handle_one (run_io ctl ans) EPOLLOUT it_write_callback a l' = Inr l'"
        using io_relD(3) [OF l'(2) c'] it' r by (simp add: handle_one_def deref_item_def)
      ultimately show ?thesis using close by (simp only: handle_events_def bind_res_simps)
    next
      case r: False
      have "handle_one (run_io ctl ans) (EPOLLIN OR EPOLLPRI OR EPOLLRDHUP) it_read_callback a l = Inr l"
        using it assms(3) r by (simp add: handle_one_def deref_item_def)
      moreover have "handle_one (run_io ctl ans) EPOLLOUT it_write_callback a l = Inr l'"
        using it assms(3) True r l'(1) by (simp add: handle_one_def deref_item_def triggers_def wakes_def)
      ultimately show ?thesis using close by (simp only: handle_events_def bind_res_simps)
    qed
    with l' show ?thesis by blast
  qed
qed

lemma serve_one_wait:
  assumes "serve_one ans (a, e) S = Inr S'"
  shows "sv_wait S - {a} \<subseteq> sv_wait S'" "dom (sv_ctx S') = dom (sv_ctx S)"
  using assms by (auto simp: serve_one_def bind_res_Inr_iff split: option.splits if_splits)

lemma dispatch_rel:
  assumes "epoll_ctl_spec ctl pollable"
  shows "\<lbrakk>io_rel rv l S; set (map fst pes) \<subseteq> sv_wait S; distinct (map fst pes); \<forall>(p, e) \<in> set pes. rv p = e;
      serve ans pes S = Inr S'\<rbrakk> \<Longrightarrow>
    \<exists>l'. dispatch_ready (run_io ctl ans) (map fst pes) l = Inr l' \<and> io_rel rv l' S' \<and> ep_evlist l' = ep_evlist l"
proof (induction pes arbitrary: l S)
  case (Cons pe pes)
  obtain a e where pe: "pe = (a, e)" by (cases pe)
  obtain S1 where S1: "serve_one ans (a, e) S = Inr S1" "serve ans pes S1 = Inr S'"
    using Cons.prems(5) pe by (auto simp: bind_res_Inr_iff)
  have e: "e = rv a" using Cons.prems(4) pe by simp
  have a: "a \<in> sv_wait S" using Cons.prems(2) pe by simp
  obtain l1 where l1: "handle_events (run_io ctl ans) a l = Inr l1" "io_rel rv l1 S1" "ep_evlist l1 = ep_evlist l"
    using handle_events_rel [OF assms Cons.prems(1) a S1(1) [unfolded e]] by blast
  have "set (map fst pes) \<subseteq> sv_wait S1"
    using serve_one_wait(1) [OF S1(1)] Cons.prems(2,3) pe by auto
  from Cons.IH [OF l1(2) this _ _ S1(2)] Cons.prems(3,4) obtain l' where
    "dispatch_ready (run_io ctl ans) (map fst pes) l1 = Inr l'" "io_rel rv l' S'" "ep_evlist l' = ep_evlist l1"
    by auto
  with l1 pe show ?case by simp
qed simp

text \<open>The loop and the specification agree, whatever events were reported last.\<close>

definition io_loop_rel :: "nat \<Rightarrow> io_loop \<Rightarrow> served \<Rightarrow> bool" where
  "io_loop_rel N l S \<longleftrightarrow> (\<exists>rv. io_rel rv l S) \<and> (\<exists>ev. ep_evlist l = Some ev \<and> length ev = N)"

lemma round_rel:
  assumes "epoll_ctl_spec ctl pollable" "io_loop_rel N l S"
    and "pes \<noteq> []" "length pes \<le> N" "distinct (map fst pes)" "set (map fst pes) \<subseteq> sv_wait S" "serve ans pes S = Inr S'"
  shows "\<exists>l'. eventloop_round (run_io ctl ans) (int (length pes)) err (map (\<lambda>(p, e). (e, Some p)) pes) l = Inr (None, l') \<and>
    io_loop_rel N l' S'"
proof -
  obtain rv ev where rel: "io_rel rv l S" "ep_evlist l = Some ev" "length ev = N"
    using assms(2) by (auto simp: io_loop_rel_def)
  let ?evs = "map (\<lambda>(p, e). (e, Some p)) pes" let ?list = "?evs @ drop (length pes) ev"
  let ?l = "l\<lparr>ep_evlist := Some ?list, ep_ready_list := []\<rparr>"
  have "sv_wait S \<subseteq> dom (sv_ctx S)" using rel(1) by (simp add: io_rel_def)
  then have dom: "set (map fst pes) \<subseteq> dom (sv_ctx S)" using assms(6) by blast
  have "io_rel rv ?l S" using rel(1) by (simp only: io_rel_poller)
  from collect_ready_rel [OF this dom assms(5)] obtain rv' l1 where
    l1: "collect_ready ?evs ?l = Inr l1" "io_rel rv' l1 S" "ep_ready_list l1 = map fst pes" "ep_evlist l1 = Some ?list"
      "\<forall>(p, e) \<in> set pes. rv' p = e" by auto
  obtain l2 where l2: "dispatch_ready (run_io ctl ans) (map fst pes) l1 = Inr l2" "io_rel rv' l2 S'" "ep_evlist l2 = Some ?list"
    using dispatch_rel [OF assms(1) l1(2) assms(6,5) l1(5) assms(7)] l1(4) by auto
  have "eventloop_round (run_io ctl ans) (int (length pes)) err ?evs l = Inr (None, l2)"
    using assms(3,4) rel(2,3) l1(1,3) l2(1) by (simp add: eventloop_round_def mem_write_ok mem_read_ok)
  moreover have "io_loop_rel N l2 S'" using l2(2,3) assms(4) rel(3) by (auto simp: io_loop_rel_def)
  ultimately show ?thesis by blast
qed

section \<open>Traces\<close>

text \<open>
  The life of the calls: a coroutine constructs context and item and, once it has left its stack, the
  item is enabled; the loop runs rounds; a coroutine that was resumed leaves its call.
\<close>

datatype io_event = Open nat io_context | Round "(nat \<times> uint32) list" answers | Close nat

fun io_do :: "epoll_ctl \<Rightarrow> io_event \<Rightarrow> io_loop \<Rightarrow> io_loop res" where
  "io_do ctl (Open a c) l =
     bind_res (if reads c then enable_reading ctl a (open_item (set_read_callback (ctx_callback c a)) (ctx_fd c) a l)
               else enable_writing ctl a (open_item (set_write_callback (ctx_callback c a)) (ctx_fd c) a l))
       (\<lambda>l'. Inr (l'\<lparr>il_ctx := (il_ctx l')(a \<mapsto> c)\<rparr>))"
| "io_do ctl (Round pes ans) l =
     bind_res (eventloop_round (run_io ctl ans) (int (length pes)) 0 (map (\<lambda>(p, e). (e, Some p)) pes) l) (\<lambda>(_, l'). Inr l')"
| "io_do ctl (Close a) l = Inr ((close_item a l)\<lparr>il_ctx := (il_ctx l)(a := None)\<rparr>)"

fun io_run :: "epoll_ctl \<Rightarrow> io_event list \<Rightarrow> io_loop \<Rightarrow> io_loop res" where
  "io_run ctl [] l = Inr l"
| "io_run ctl (ev # evs) l = bind_res (io_do ctl ev l) (io_run ctl evs)"

fun sv_do :: "io_event \<Rightarrow> served \<Rightarrow> served res" where
  "sv_do (Open a c) S = Inr (S\<lparr>sv_ctx := (sv_ctx S)(a \<mapsto> c), sv_wait := insert a (sv_wait S)\<rparr>)"
| "sv_do (Round pes ans) S = serve ans pes S"
| "sv_do (Close a) S = Inr (S\<lparr>sv_ctx := (sv_ctx S)(a := None)\<rparr>)"

text \<open>
  What is assumed of a trace: two coroutines do not wait on one descriptor, a coroutine is in one
  call at a time and leaves it only after it was resumed, and \<open>epoll_wait\<close> reports registered
  items, each once, and not more than it was asked for.
\<close>

fun allowed :: "nat \<Rightarrow> (fd \<Rightarrow> bool) \<Rightarrow> io_event \<Rightarrow> served \<Rightarrow> bool" where
  "allowed N pollable (Open a c) S \<longleftrightarrow> sv_ctx S a = None \<and> ctx_item c = a \<and> pollable (ctx_fd c) \<and>
     (\<forall>b d. sv_ctx S b = Some d \<longrightarrow> ctx_coro d \<noteq> ctx_coro c \<and> (b \<in> sv_wait S \<longrightarrow> ctx_fd d \<noteq> ctx_fd c))"
| "allowed N pollable (Round pes ans) S \<longleftrightarrow>
     pes \<noteq> [] \<and> length pes \<le> N \<and> distinct (map fst pes) \<and> set (map fst pes) \<subseteq> sv_wait S"
| "allowed N pollable (Close a) S \<longleftrightarrow> sv_ctx S a \<noteq> None \<and> a \<notin> sv_wait S"

inductive sv_run :: "nat \<Rightarrow> (fd \<Rightarrow> bool) \<Rightarrow> io_event list \<Rightarrow> served \<Rightarrow> served \<Rightarrow> bool"
  for N :: nat and pollable :: "fd \<Rightarrow> bool" where
  sv_nil: "sv_run N pollable [] S S"
| sv_cons: "\<lbrakk>allowed N pollable ev S; sv_do ev S = Inr S1; sv_run N pollable evs S1 S'\<rbrakk> \<Longrightarrow> sv_run N pollable (ev # evs) S S'"

inductive_cases sv_run_ConsE: "sv_run N pollable (ev # evs) S S'"

lemma open_rel:
  assumes "epoll_ctl_spec ctl pollable" "io_loop_rel N l S" "allowed N pollable (Open a c) S"
  shows "\<exists>l'. io_do ctl (Open a c) l = Inr l' \<and>
    io_loop_rel N l' (S\<lparr>sv_ctx := (sv_ctx S)(a \<mapsto> c), sv_wait := insert a (sv_wait S)\<rparr>)"
proof -
  let ?S = "S\<lparr>sv_ctx := (sv_ctx S)(a \<mapsto> c), sv_wait := insert a (sv_wait S)\<rparr>"
  obtain rv ev where rel: "io_rel rv l S" "ep_evlist l = Some ev" "length ev = N" using assms(2) by (auto simp: io_loop_rel_def)
  have new: "sv_ctx S a = None" "ctx_item c = a" "pollable (ctx_fd c)" using assms(3) by auto
  have "ep_interest l (ctx_fd c) = None"
  proof (cases "ep_interest l (ctx_fd c)")
    case (Some x)
    then obtain m b where "ep_interest l (ctx_fd c) = Some (m, b)" by (cases x) auto
    then have "b \<in> sv_wait S \<and> (\<exists>d. sv_ctx S b = Some d \<and> ctx_fd d = ctx_fd c)" using rel(1) unfolding io_rel_def by blast
    then show ?thesis using assms(3) by auto
  qed
  moreover have "ep_items l a = None" using rel(1) new(1) unfolding io_rel_def by simp
  ultimately have free: "free_for pollable (ctx_fd c) a l" using new(3) by (simp add: free_for_def)
  let ?l0 = "registered a (call_item c a) l" let ?l = "?l0\<lparr>il_ctx := (il_ctx ?l0)(a \<mapsto> c)\<rparr>"
  have run: "io_do ctl (Open a c) l = Inr ?l"
    using enable_reading_opened [OF assms(1) free] enable_writing_opened [OF assms(1) free] by (simp add: call_item_def)
  have fresh: "ep_interest l fd \<noteq> Some (m, a)" for fd m
    using rel(1) new(1) unfolding io_rel_def by fastforce
  have "ctx_fd d \<noteq> ctx_fd c" if "b \<in> sv_wait S" "sv_ctx S b = Some d" for b d using assms(3) that by auto
  moreover have "call_item c a = set_revents 0 (call_item c a)"
    by (simp add: call_item_def reading_item_def writing_item_def EPollItem_new_def)
  ultimately have "io_rel (rv(a := 0)) ?l ?S"
    using rel(1) new(1,2) fresh unfolding io_rel_def registered_def by auto
  with run rel(2,3) show ?thesis by (auto simp: io_loop_rel_def registered_def)
qed

lemma close_rel:
  assumes "io_loop_rel N l S" "allowed N pollable (Close a) S"
  shows "io_loop_rel N ((close_item a l)\<lparr>il_ctx := (il_ctx l)(a := None)\<rparr>) (S\<lparr>sv_ctx := (sv_ctx S)(a := None)\<rparr>)"
proof -
  obtain rv where rel: "io_rel rv l S" using assms(1) by (auto simp: io_loop_rel_def)
  have "\<not> a \<in> sv_wait S" using assms(2) by simp
  then have "io_rel rv ((close_item a l)\<lparr>il_ctx := (il_ctx l)(a := None)\<rparr>) (S\<lparr>sv_ctx := (sv_ctx S)(a := None)\<rparr>)"
    using rel unfolding io_rel_def close_item_def by auto
  then show ?thesis using assms(1) by (auto simp: io_loop_rel_def close_item_def)
qed

lemma io_do_rel:
  assumes "epoll_ctl_spec ctl pollable" "io_loop_rel N l S" "allowed N pollable ev S" "sv_do ev S = Inr S'"
  shows "\<exists>l'. io_do ctl ev l = Inr l' \<and> io_loop_rel N l' S'"
proof (cases ev)
  case (Open a c)
  then show ?thesis using open_rel [OF assms(1,2)] assms(3,4) by fastforce
next
  case (Round pes ans)
  then have al: "pes \<noteq> []" "length pes \<le> N" "distinct (map fst pes)" "set (map fst pes) \<subseteq> sv_wait S" "serve ans pes S = Inr S'"
    using assms(3,4) by simp_all
  from round_rel [OF assms(1,2) al, of 0] show ?thesis by (auto simp: Round)
next
  case (Close a)
  then show ?thesis using close_rel [OF assms(2)] assms(3,4) by auto
qed

lemma io_run_rel:
  assumes "epoll_ctl_spec ctl pollable"
  shows "sv_run N pollable evs S S' \<Longrightarrow> io_loop_rel N l S \<Longrightarrow> \<exists>l'. io_run ctl evs l = Inr l' \<and> io_loop_rel N l' S'"
proof (induction arbitrary: l rule: sv_run.induct)
  case (sv_cons ev S S1 evs S')
  obtain l1 where "io_do ctl ev l = Inr l1" "io_loop_rel N l1 S1"
    using io_do_rel [OF assms sv_cons.prems sv_cons.hyps(1,2)] by blast
  then show ?case using sv_cons.IH [of l1] by auto
qed simp

section \<open>Properties\<close>

definition io_start :: "nat \<Rightarrow> io_loop" where
  "io_start N = \<lparr>ep_interest = (\<lambda>_. None), ep_maxevents = int N, ep_evlist = Some (replicate N (0, None)), ep_ready_list = [],
     ep_timeout = -1, ep_items = (\<lambda>_. None), il_ctx = (\<lambda>_. None), il_resumed = []\<rparr>"

definition served_start :: served where
  "served_start = \<lparr>sv_ctx = (\<lambda>_. None), sv_wait = {}, sv_resumed = []\<rparr>"

lemma start_rel: "io_loop_rel N (io_start N) served_start"
  by (simp add: io_loop_rel_def io_rel_def io_start_def served_start_def)



end
