(* ===== verification/Call_Safety.thy ===== *)
theory Call_Safety
  imports Event_Io
begin

text \<open>
  What the caller of a blocking call and the system calls promise, so that the callbacks of the call
  stay in its buffers, and a round of the event loop over such calls.
\<close>

section \<open>Calls that stay in their buffers\<close>

text \<open>
  What a caller promises of the arguments of a call, and the state a waiting call is in: the request
  lies in the buffer, and not more than the request has been served.
\<close>

fun ctx_ok :: "io_context \<Rightarrow> bool" where
  "ctx_ok (Read_ctx c) \<longleftrightarrow> rc_ret c \<le> rc_count c \<and> unat (rc_count c) \<le> length (rc_buf c)"
| "ctx_ok (Write_ctx c) \<longleftrightarrow> wc_ret c \<le> wc_count c \<and> unat (wc_count c) \<le> length (wc_buf c)"
| "ctx_ok (Until_ctx c) \<longleftrightarrow> until_inv (map the (db_content (ru_buffer c))) c \<and> 0 \<le> ru_ret c"
| "ctx_ok (Connect_ctx c) \<longleftrightarrow> True"
| "ctx_ok (Accept_ctx c) \<longleftrightarrow> True"

text \<open>
  What the system calls promise: \<open>read\<close> and \<open>write\<close> transfer at most what they were asked for. For
  \<open>smart_read_until\<close> the received bytes have to fit the block of the buffer, which the code does
  not check, and the counters.
\<close>

fun answer_ok :: "answers \<Rightarrow> nat \<Rightarrow> io_context \<Rightarrow> bool" where
  "answer_ok ans a (Read_ctx c) = (case an_read ans a of (r, data, err) \<Rightarrow>
     -1 \<le> r \<and> r < 2 ^ 31 \<and> length data = nat r \<and> nat r \<le> unat (rc_count c - rc_ret c))"
| "answer_ok ans a (Write_ctx c) = (case an_write ans a of (r, err) \<Rightarrow>
     -1 \<le> r \<and> r < 2 ^ 31 \<and> nat r \<le> unat (wc_count c - wc_ret c))"
| "answer_ok ans a (Until_ctx c) = (case an_read ans a of (r, data, err) \<Rightarrow>
     -1 \<le> r \<and> r \<le> 64 \<and> length data = nat r \<and>
     unat (db_write_index (ru_buffer c)) + nat r \<le> unat (db_capacity (ru_buffer c)) \<and>
     ru_ret c + r < 2 ^ 31 \<and> unat (readable_bytes (ru_buffer c)) + nat r < 2 ^ 32)"
| "answer_ok ans a (Connect_ctx c) = True"
| "answer_ok ans a (Accept_ctx c) = True"

lemma db_mem_code [code]: "db_mem b \<longleftrightarrow> (case db_buffer b of None \<Rightarrow> False | Some blk \<Rightarrow>
     db_read_index b \<le> db_write_index b \<and> unat (db_write_index b) \<le> length blk \<and> length blk \<le> unat (db_capacity b))"
  by (auto simp: db_mem_def split: option.splits)

lemma db_ok_code [code]: "db_ok b \<longleftrightarrow> db_mem b \<and> (case db_buffer b of None \<Rightarrow> False | Some blk \<Rightarrow> length blk = unat (db_capacity b)) \<and>
     db_capacity b \<le> db_max_capacity b"
  by (auto simp: db_ok_def split: option.splits)

lemma ctx_ok_untilI: "until_inv ys c \<Longrightarrow> 0 \<le> ru_ret c \<Longrightarrow> ctx_ok (Until_ctx c)"
  by (simp add: until_inv_def)

lemma request_step:
  fixes ret cnt :: size_t
  assumes "ret \<le> cnt" "0 < r" "nat r \<le> unat (cnt - ret)"
  shows "unat (ret + of_int r) = unat ret + nat r" "ret + of_int r \<le> cnt"
proof -
  have r: "unat ret + nat r \<le> unat cnt" using assms by (simp add: unat_minus_le word_le_unat)
  have "unat cnt < 2 ^ LENGTH(64)" by (rule unsigned_less)
  then have lt: "unat cnt < 2 ^ 64" by simp
  have "of_int r = (of_nat (nat r) :: size_t)" using assms(2) by simp
  then have i: "unat (of_int r :: size_t) = nat r" using r lt by (simp add: unat_of_nat)
  have "unat ret + unat (of_int r :: size_t) < 2 ^ LENGTH(64)" using r i lt by simp
  from unat_plus_lt [OF this] i show u: "unat (ret + of_int r) = unat ret + nat r" by simp
  then show "ret + of_int r \<le> cnt" using r by (simp add: word_le_unat)
qed

lemma read_answer_ok:
  assumes "ctx_ok (Read_ctx c)" "answer_ok ans a (Read_ctx c)"
  shows "\<exists>c' fin. read_answer (an_read ans a) c = Inr (c', fin) \<and> (\<not> fin \<longrightarrow> ctx_ok (Read_ctx c'))"
proof -
  obtain r data err where out: "an_read ans a = (r, data, err)" by (cases "an_read ans a") auto
  have ok: "rc_ret c \<le> rc_count c" "unat (rc_count c) \<le> length (rc_buf c)" "-1 \<le> r" "r < 2 ^ 31" "length data = nat r"
      "nat r \<le> unat (rc_count c - rc_ret c)" using assms out by auto
  have "unat (rc_ret c) + length (map Some data) \<le> length (rc_buf c)"
    using ok by (simp add: unat_minus_le word_le_unat)
  then obtain buf where buf: "mem_write (rc_buf c) (unat (rc_ret c)) (map Some data) = Inr buf" "length buf = length (rc_buf c)"
    by (auto simp: mem_write_def)
  have "to_int r = r" using ok by (intro to_int_id) simp_all
  then show ?thesis
    using buf(2) ok request_step [OF ok(1) _ ok(6)] by (auto simp: out read_answer_def Let_def buf(1))
qed

lemma write_answer_ok:
  assumes "ctx_ok (Write_ctx c)" "answer_ok ans a (Write_ctx c)"
  shows "\<exists>c' fin. write_answer (an_write ans a) c = Inr (c', fin) \<and> (\<not> fin \<longrightarrow> ctx_ok (Write_ctx c'))"
proof -
  obtain r err where out: "an_write ans a = (r, err)" by (cases "an_write ans a") auto
  have ok: "wc_ret c \<le> wc_count c" "unat (wc_count c) \<le> length (wc_buf c)" "-1 \<le> r" "r < 2 ^ 31"
      "nat r \<le> unat (wc_count c - wc_ret c)" using assms out by auto
  have "unat (wc_ret c) + unat (wc_count c - wc_ret c) \<le> length (wc_buf c)"
    using ok by (simp add: unat_minus_le word_le_unat)
  then obtain xs where xs: "mem_read (wc_buf c) (unat (wc_ret c)) (unat (wc_count c - wc_ret c)) = Inr xs"
    by (simp add: mem_read_def)
  have "to_int r = r" using ok by (intro to_int_id) simp_all
  then show ?thesis
    using ok request_step [OF ok(1) _ ok(5)] by (auto simp: out write_answer_def Let_def xs)
qed

lemma until_answer_ok:
  assumes "ctx_ok (Until_ctx c)" "answer_ok ans a (Until_ctx c)"
  shows "\<exists>c' fin. until_answer fl mok (an_read ans a) c = Inr (c', fin) \<and> (\<not> fin \<longrightarrow> ctx_ok (Until_ctx c'))"
proof -
  obtain r data err where out: "an_read ans a = (r, data, err)" by (cases "an_read ans a") auto
  obtain ys where ys: "until_inv ys c" "0 \<le> ru_ret c" using assms(1) by auto
  have mem: "db_mem (ru_buffer c)" "db_content (ru_buffer c) = map Some ys" using ys(1) by (auto simp: until_inv_def db_ok_def)
  have len: "unat (readable_bytes (ru_buffer c)) = length ys" using db_content_length [OF mem(1)] mem(2) by simp
  have ok: "-1 \<le> r" "r \<le> 64" "length data = nat r" "unat (db_write_index (ru_buffer c)) + length data \<le> unat (db_capacity (ru_buffer c))"
      "ru_ret c + r < 2 ^ 31" "length ys + length data < 2 ^ 32" using assms(2) out len by auto
  have r: "to_int r = r" using ok(1,2) by (intro to_int_id) simp_all
  have tmp: "mem_write (replicate 64 None) 0 (map Some data) = Inr (map Some data @ replicate (64 - length data) None)"
    using ok(2,3) by (simp add: mem_write_def)
  show ?thesis
  proof (cases "r > 0")
    case True
    then have i: "r = int (length data)" using ok(3) by simp
    obtain c1 where c1: "until_append fl mok r data c = Inr (c1, False)" "until_inv (ys @ data) c1" "ru_ret c1 = ru_ret c + r"
      using until_inv_append [OF ys(1) ok(4) ys(2)] ok(5) unfolding i by blast
    have "length (ys @ data) < 2 ^ 32" using ok(6) by simp
    from until_search_ok [OF c1(2) this, of False] obtain c2 where
      c2: "until_search c1 False = Some (Inr (c2, sublist (ru_delim c1) (ys @ data)))" "until_inv (ys @ data) c2" "ru_ret c2 = ru_ret c1"
      by auto
    have "ctx_ok (Until_ctx c2)" using c2(2,3) c1(3) ys(2) True by (intro ctx_ok_untilI) auto
    then show ?thesis using True c1(1) c2(1) by (simp add: out until_answer_def tmp r ended_def)
  qed (use assms(1) ok r in \<open>auto simp: out until_answer_def ended_def Let_def mem_write_def\<close>)
qed

lemma answer_ok_returns:
  assumes "ctx_ok c" "answer_ok ans a c"
  shows "\<exists>c' fin. answer ans a c = Inr (c', fin) \<and> (\<not> fin \<longrightarrow> ctx_ok c')"
proof (cases c)
  case (Read_ctx d)
  with read_answer_ok [of d ans a] assms show ?thesis by auto
next
  case (Write_ctx d)
  with write_answer_ok [of d ans a] assms show ?thesis by auto
next
  case (Until_ctx d)
  with until_answer_ok [of d ans a "an_flags ans" "an_malloc ans a"] assms show ?thesis by auto
qed (auto split: prod.splits)

section \<open>A round over such calls\<close>

text \<open>What no answer changes of a call.\<close>

definition ctx_key :: "io_context \<Rightarrow> nat \<times> item_ptr \<times> fd \<times> bool" where
  "ctx_key c = (ctx_coro c, ctx_item c, ctx_fd c, reads c)"

definition calls_ok :: "served \<Rightarrow> bool" where
  "calls_ok S \<longleftrightarrow> (\<forall>a \<in> sv_wait S. \<exists>c. sv_ctx S a = Some c \<and> ctx_ok c) \<and>
     (\<forall>a c. sv_ctx S a = Some c \<longrightarrow> ctx_coro c = a)"

lemma serve_one_ok:
  assumes "calls_ok S" "a \<in> sv_wait S" "answer_ok ans a (the (sv_ctx S a))"
  shows "\<exists>S' cs. serve_one ans (a, e) S = Inr S' \<and> cs \<in> {[], [a]} \<and> sv_resumed S' = sv_resumed S @ cs \<and>
    sv_wait S' = sv_wait S - set cs \<and> calls_ok S' \<and> (\<forall>b. b \<noteq> a \<longrightarrow> sv_ctx S' b = sv_ctx S b) \<and>
    map_option ctx_key (sv_ctx S' a) = map_option ctx_key (sv_ctx S a)"
proof -
  obtain c where c: "sv_ctx S a = Some c" "ctx_ok c" "ctx_coro c = a" using assms(1,2) by (auto simp: calls_ok_def)
  show ?thesis
  proof (cases "triggers c e")
    case True
    obtain c' fin where c': "answer ans a c = Inr (c', fin)" "\<not> fin \<longrightarrow> ctx_ok c'"
      using answer_ok_returns [OF c(2)] assms(3) c(1) by fastforce
    note keep = answer_keeps [OF c'(1)]
    let ?S = "if fin then S\<lparr>sv_ctx := (sv_ctx S)(a \<mapsto> c'), sv_wait := sv_wait S - {a}, sv_resumed := sv_resumed S @ [ctx_coro c]\<rparr>
              else S\<lparr>sv_ctx := (sv_ctx S)(a \<mapsto> c')\<rparr>"
    have "serve_one ans (a, e) S = Inr ?S" using True c(1) c'(1) by (simp add: serve_one_def)
    moreover have "calls_ok ?S" using assms(1) c c'(2) keep(1) by (auto simp: calls_ok_def)
    ultimately show ?thesis
      using c keep by (intro exI [of _ ?S] exI [of _ "if fin then [a] else []"]) (simp add: ctx_key_def)
  next
    case False
    then show ?thesis using assms(1) c(1) by (intro exI [of _ S] exI [of _ "[]"]) (simp add: serve_one_def)
  qed
qed

lemma serve_ok:
  assumes "calls_ok S" "distinct (map fst pes)" "set (map fst pes) \<subseteq> sv_wait S"
    "\<forall>(a, e) \<in> set pes. answer_ok ans a (the (sv_ctx S a))"
  shows "\<exists>S' cs. serve ans pes S = Inr S' \<and> distinct cs \<and> set cs \<subseteq> set (map fst pes) \<and> sv_resumed S' = sv_resumed S @ cs \<and>
    sv_wait S' = sv_wait S - set cs \<and> calls_ok S' \<and> (\<forall>b. map_option ctx_key (sv_ctx S' b) = map_option ctx_key (sv_ctx S b))"
  using assms
proof (induction pes arbitrary: S)
  case (Cons pe pes)
  obtain a e where pe: "pe = (a, e)" by (cases pe)
  obtain S1 cs where S1: "serve_one ans (a, e) S = Inr S1" "cs \<in> {[], [a]}" "sv_resumed S1 = sv_resumed S @ cs"
    "sv_wait S1 = sv_wait S - set cs" "calls_ok S1" "\<forall>b. b \<noteq> a \<longrightarrow> sv_ctx S1 b = sv_ctx S b"
    "map_option ctx_key (sv_ctx S1 a) = map_option ctx_key (sv_ctx S a)"
    using serve_one_ok [OF Cons.prems(1), of a ans e] Cons.prems(3,4) pe by auto
  have "set (map fst pes) \<subseteq> sv_wait S1" using S1(2,4) Cons.prems(2,3) pe by force
  moreover have "\<forall>(b, e) \<in> set pes. answer_ok ans b (the (sv_ctx S1 b))"
  proof clarify
    fix b e assume b: "(b, e) \<in> set pes"
    then have "b \<noteq> a" using Cons.prems(2) pe by force
    then show "answer_ok ans b (the (sv_ctx S1 b))" using S1(6) Cons.prems(4) b by auto
  qed
  ultimately obtain S' ds where S': "serve ans pes S1 = Inr S'" "distinct ds" "set ds \<subseteq> set (map fst pes)"
    "sv_resumed S' = sv_resumed S1 @ ds" "sv_wait S' = sv_wait S1 - set ds" "calls_ok S'"
    "\<forall>b. map_option ctx_key (sv_ctx S' b) = map_option ctx_key (sv_ctx S1 b)"
    using Cons.IH [OF S1(5)] Cons.prems(2) by auto
  have "a \<notin> set ds" using S'(3) Cons.prems(2) pe by auto
  then have "distinct (cs @ ds)" "set (cs @ ds) \<subseteq> set (map fst (pe # pes))" using S1(2) S'(2,3) pe by auto
  moreover have "map_option ctx_key (sv_ctx S' b) = map_option ctx_key (sv_ctx S b)" for b
    using S'(7) S1(6,7) by (cases "b = a") auto
  ultimately show ?case using S1 S' pe by (intro exI [of _ S'] exI [of _ "cs @ ds"]) auto
qed simp

end
