(* ===== verification/Event_Calls.thy ===== *)
theory Event_Calls
  imports Event_Io
begin

text \<open>
  A blocking call inside the event loop. \<open>Event_Io\<close> shows that the loop serves a set of waiting
  calls; here one of them is followed, from its start after any history to its end beside any
  other calls. It moves on by its own answers only, and so it ends as the sequential models of
  \<open>Smart_Io\<close> and \<open>Read_Until\<close> say.
\<close>

unbundle bit_operations_syntax

section \<open>One call among the others\<close>

definition one_call_each :: "served \<Rightarrow> bool" where
  "one_call_each S \<longleftrightarrow> (\<forall>a b c d. sv_ctx S a = Some c \<longrightarrow> sv_ctx S b = Some d \<longrightarrow> ctx_coro c = ctx_coro d \<longrightarrow> a = b)"

lemma serve_one_coros:
  assumes "serve_one ans pe S = Inr S'"
  shows "map_option ctx_coro (sv_ctx S' a) = map_option ctx_coro (sv_ctx S a)"
  using assms answer_keeps(1)
  by (auto simp: serve_one_def bind_res_Inr_iff split: option.splits if_splits prod.splits)

lemma serve_coros:
  "serve ans pes S = Inr S' \<Longrightarrow> map_option ctx_coro (sv_ctx S' a) = map_option ctx_coro (sv_ctx S a)"
proof (induction pes arbitrary: S)
  case (Cons pe pes)
  then obtain S1 where "serve_one ans pe S = Inr S1" "serve ans pes S1 = Inr S'" by (auto simp: bind_res_Inr_iff)
  with Cons.IH [of S1] serve_one_coros [of ans pe S S1 a] show ?case by simp
qed simp

lemma one_call_each_coros:
  assumes "one_call_each S" "\<And>a. map_option ctx_coro (sv_ctx S' a) = map_option ctx_coro (sv_ctx S a)"
  shows "one_call_each S'"
  unfolding one_call_each_def
proof (intro allI impI)
  fix a b c d assume h: "sv_ctx S' a = Some c" "sv_ctx S' b = Some d" "ctx_coro c = ctx_coro d"
  obtain c' where "sv_ctx S a = Some c'" "ctx_coro c' = ctx_coro c"
    using assms(2) [of a] h(1) by (cases "sv_ctx S a") auto
  moreover obtain d' where "sv_ctx S b = Some d'" "ctx_coro d' = ctx_coro d"
    using assms(2) [of b] h(2) by (cases "sv_ctx S b") auto
  ultimately show "a = b" using assms(1) h(3) unfolding one_call_each_def by metis
qed

lemma one_call_each_step:
  assumes "one_call_each S" "allowed N pollable ev S" "sv_do ev S = Inr S'"
  shows "one_call_each S'"
proof (cases ev)
  case (Open a c)
  then show ?thesis using assms unfolding one_call_each_def by (auto split: if_splits) metis+
next
  case (Round pes ans)
  then show ?thesis using assms serve_coros [of ans pes S S'] by (intro one_call_each_coros [OF assms(1)]) simp
next
  case (Close a)
  then show ?thesis using assms unfolding one_call_each_def by (auto split: if_splits)
qed

text \<open>What the specification says about one call: its context, whether it waits, and how often its
  coroutine was resumed.\<close>

definition call_state :: "nat \<Rightarrow> served \<Rightarrow> (io_context \<times> bool \<times> nat) option" where
  "call_state a S = map_option (\<lambda>c. (c, a \<in> sv_wait S, count_list (sv_resumed S) (ctx_coro c))) (sv_ctx S a)"

definition call_step :: "answers \<Rightarrow> nat \<Rightarrow> uint32 \<Rightarrow> io_context \<times> bool \<times> nat \<Rightarrow> (io_context \<times> bool \<times> nat) res" where
  "call_step ans a e = (\<lambda>(c, w, n).
     if triggers c e then bind_res (answer ans a c) (\<lambda>(c', fin). Inr (c', w \<and> \<not> fin, if fin then Suc n else n))
     else Inr (c, w, n))"

lemma serve_one_call:
  assumes "serve_one ans (a, e) S = Inr S'" "call_state a S = Some x"
  shows "\<exists>y. call_step ans a e x = Inr y \<and> call_state a S' = Some y"
proof -
  obtain c where c: "sv_ctx S a = Some c" "x = (c, a \<in> sv_wait S, count_list (sv_resumed S) (ctx_coro c))"
    using assms(2) by (auto simp: call_state_def)
  show ?thesis
  proof (cases "triggers c e")
    case True
    then obtain c' fin where ans: "answer ans a c = Inr (c', fin)"
      using assms(1) c(1) by (auto simp: serve_one_def bind_res_Inr_iff)
    have "ctx_coro c' = ctx_coro c" by (rule answer_keeps(1) [OF ans])
    with assms(1) c True ans show ?thesis by (auto simp: serve_one_def call_state_def call_step_def)
  next
    case False
    with assms c show ?thesis by (auto simp: serve_one_def call_step_def)
  qed
qed

lemma serve_one_other:
  assumes "serve_one ans (b, e) S = Inr S'" "one_call_each S" "b \<noteq> a" "call_state a S = Some x"
  shows "call_state a S' = Some x"
proof -
  obtain c where c: "sv_ctx S a = Some c" using assms(4) by (auto simp: call_state_def)
  have "ctx_coro d \<noteq> ctx_coro c" if "sv_ctx S b = Some d" for d
    using assms(2,3) c that unfolding one_call_each_def by metis
  then show ?thesis using assms(1,3,4) c
    by (auto simp: serve_one_def call_state_def bind_res_Inr_iff split: option.splits if_splits)
qed

lemma serve_call:
  assumes "serve ans pes S = Inr S'" "one_call_each S" "distinct (map fst pes)" "call_state a S = Some x"
  shows "case map_of pes a of None \<Rightarrow> call_state a S' = Some x
    | Some e \<Rightarrow> \<exists>y. call_step ans a e x = Inr y \<and> call_state a S' = Some y"
  using assms
proof (induction pes arbitrary: S x)
  case (Cons pe pes)
  obtain b e where pe: "pe = (b, e)" by (cases pe)
  obtain S1 where S1: "serve_one ans (b, e) S = Inr S1" "serve ans pes S1 = Inr S'"
    using Cons.prems(1) pe by (auto simp: bind_res_Inr_iff)
  have one: "one_call_each S1" using one_call_each_coros [OF Cons.prems(2)] serve_one_coros [OF S1(1)] by blast
  show ?case
  proof (cases "b = a")
    case True
    obtain y where y: "call_step ans a e x = Inr y" "call_state a S1 = Some y"
      using serve_one_call [OF S1(1) [unfolded True] Cons.prems(4)] by blast
    have "map_of pes a = None" using Cons.prems(3) pe True by (auto simp: map_of_eq_None_iff)
    with Cons.IH [OF S1(2) one _ y(2)] Cons.prems(3) y(1) show ?thesis by (cases y) (simp add: pe True)
  next
    case False
    from Cons.IH [OF S1(2) one _ serve_one_other [OF S1(1) Cons.prems(2) False Cons.prems(4)]] Cons.prems(3) False
    show ?thesis by (simp add: pe)
  qed
qed simp

section \<open>A call through the loop\<close>

text \<open>The rounds in which the call at an address gets an answer.\<close>

fun rounds_of :: "bool \<Rightarrow> nat \<Rightarrow> io_event list \<Rightarrow> answers list" where
  "rounds_of rd a [] = []"
| "rounds_of rd a (Round pes ans # evs) =
     (case map_of pes a of Some e \<Rightarrow> if wakes rd e then ans # rounds_of rd a evs else rounds_of rd a evs
      | None \<Rightarrow> rounds_of rd a evs)"
| "rounds_of rd a (Open b c # evs) = rounds_of rd a evs"
| "rounds_of rd a (Close b # evs) = rounds_of rd a evs"

text \<open>The call on its own, over its answers: the context in the end, and whether it is finished.\<close>

fun settle :: "('x \<Rightarrow> 'c \<Rightarrow> ('c \<times> bool) res) \<Rightarrow> 'x list \<Rightarrow> 'c \<Rightarrow> ('c \<times> bool) res" where
  "settle g [] c = Inr (c, False)"
| "settle g (x # xs) c = bind_res (g x c) (\<lambda>(c', fin). if fin then Inr (c', True) else settle g xs c')"

abbreviation alone :: "nat \<Rightarrow> answers list \<Rightarrow> io_context \<Rightarrow> (io_context \<times> bool) res" where
  "alone a \<equiv> settle (\<lambda>ans. answer ans a)"

lemma finished_call_stays:
  assumes "sv_run N pollable evs S S'" "one_call_each S" "call_state a S = Some (c, False, n)" "Close a \<notin> set evs"
  shows "call_state a S' = Some (c, False, n)"
  using assms
proof (induction rule: sv_run.induct)
  case (sv_cons ev S S1 evs S')
  have "call_state a S1 = Some (c, False, n)"
  proof (cases ev)
    case (Round pes ans)
    then have "a \<notin> fst ` set pes" using sv_cons.hyps(1) sv_cons.prems(2) by (auto simp: call_state_def)
    then have "map_of pes a = None" by (simp add: map_of_eq_None_iff)
    with serve_call [of ans pes S S1 a] Round sv_cons show ?thesis by simp
  qed (use sv_cons in \<open>auto simp: call_state_def\<close>)
  with sv_cons.IH one_call_each_step [OF sv_cons.prems(1) sv_cons.hyps(1,2)] sv_cons.prems(3) show ?case by simp
qed

lemma sv_run_call:
  "\<lbrakk>sv_run N pollable evs S S'; one_call_each S; Close a \<notin> set evs; call_state a S = Some (c, True, n)\<rbrakk> \<Longrightarrow>
   \<exists>c' fin. alone a (rounds_of (reads c) a evs) c = Inr (c', fin) \<and>
     call_state a S' = Some (c', \<not> fin, if fin then Suc n else n)"
proof (induction arbitrary: c rule: sv_run.induct)
  case (sv_cons ev S S1 evs S')
  note one = one_call_each_step [OF sv_cons.prems(1) sv_cons.hyps(1,2)]
  have cl: "Close a \<notin> set evs" using sv_cons.prems(2) by simp
  show ?case
  proof (cases "rounds_of (reads c) a [ev]")
    case Nil
    have "call_state a S1 = Some (c, True, n)"
    proof (cases ev)
      case (Round pes ans)
      then show ?thesis
        using Nil serve_call [of ans pes S S1 a] sv_cons.hyps(1,2) sv_cons.prems(1,3)
        by (auto simp: call_step_def triggers_def split: option.splits if_splits)
    qed (use sv_cons in \<open>auto simp: call_state_def\<close>)
    moreover have "rounds_of (reads c) a (ev # evs) = rounds_of (reads c) a evs"
      using Nil by (cases ev) (auto split: option.splits if_splits)
    ultimately show ?thesis using sv_cons.IH [OF one cl] by simp
  next
    case (Cons ans anss)
    then obtain pes e where ev: "ev = Round pes ans" "map_of pes a = Some e" "triggers c e"
      by (cases ev) (auto simp: triggers_def split: option.splits if_splits)
    then have outs: "rounds_of (reads c) a (ev # evs) = ans # rounds_of (reads c) a evs" by (simp add: triggers_def)
    obtain y where y: "call_step ans a e (c, True, n) = Inr y" "call_state a S1 = Some y"
      using serve_call [of ans pes S S1 a] sv_cons.hyps(1,2) sv_cons.prems(1,3) ev(1,2) by auto
    then obtain c1 fin where c1: "answer ans a c = Inr (c1, fin)" "call_state a S1 = Some (c1, \<not> fin, if fin then Suc n else n)"
      using ev(3) by (auto simp: call_step_def bind_res_Inr_iff)
    show ?thesis
    proof (cases fin)
      case True
      then show ?thesis using finished_call_stays [OF sv_cons.hyps(3) one _ cl] c1 by (auto simp: outs)
    next
      case False
      then show ?thesis using sv_cons.IH [OF one cl, of c1] c1 answer_keeps(4) [OF c1(1)] by (simp add: outs)
    qed
  qed
qed auto

lemma alone_coro: "alone a xs c = Inr (c', fin) \<Longrightarrow> ctx_coro c' = ctx_coro c"
proof (induction xs arbitrary: c)
  case (Cons x xs)
  then obtain d f where d: "answer x a c = Inr (d, f)" by (auto simp: bind_res_Inr_iff)
  then show ?case using Cons answer_keeps(1) [OF d] by (cases f) simp_all
qed simp

text \<open>The sequential models are the calls on their own.\<close>

lemma settle_map:
  assumes "\<And>x c. f x (con c) = bind_res (g x c) (\<lambda>(c', fin). Inr (con c', fin))"
  shows "settle f xs (con c) = bind_res (settle g xs c) (\<lambda>(c', fin). Inr (con c', fin))"
proof (induction xs arbitrary: c)
  case (Cons x xs)
  show ?case
  proof (cases "g x c")
    case (Inr y)
    then show ?thesis by (cases y) (simp add: assms Cons)
  qed (simp add: assms)
qed simp

lemma settle_cong: "(\<And>x c. x \<in> set xs \<Longrightarrow> f x c = g x c) \<Longrightarrow> settle f xs c = settle g xs c"
  by (induction xs arbitrary: c) (auto intro!: arg_cong [of _ _ "bind_res _"])

lemma await_settle:
  assumes step: "\<And>x c. P c \<Longrightarrow> impl (out x) (c, w0) = bind_res (g x c) (\<lambda>(c', fin). Inr (c', if fin then w1 else w0))"
    and inv: "\<And>x c c' fin. P c \<Longrightarrow> g x c = Inr (c', fin) \<Longrightarrow> P c'"
    and "coro \<notin> set (snd w0)" "coro \<in> set (snd w1)"
  shows "P c \<Longrightarrow> await impl coro (map out xs) (c, w0) = bind_res (settle g xs c) (\<lambda>(c', fin). Inr (if fin then Some (c', w1) else None))"
proof (induction xs arbitrary: c)
  case (Cons x xs)
  show ?case
  proof (cases "g x c")
    case (Inr y)
    obtain c' fin where y: "y = (c', fin)" by (cases y)
    show ?thesis
      using Cons.IH [of c'] inv [OF Cons.prems, of x c' fin] Inr y step [OF Cons.prems, of x] assms(3,4) by (cases fin) simp_all
  qed (simp add: step [OF Cons.prems])
qed simp

lemma ended_simps: "ended None = Inl NoProgress" "ended (Some r) = r"
  by (simp_all add: ended_def)

lemma await_until_ended: "ended (await_until impl coro outs s) = await (\<lambda>out s. ended (impl out s)) coro outs s"
proof (induction outs arbitrary: s)
  case (Cons out outs)
  show ?case
  proof (cases "impl out s")
    case (Some r)
    then show ?thesis using Cons by (cases r) (simp_all add: ended_simps)
  qed (simp add: ended_simps)
qed (simp add: ended_simps)

text \<open>Each callback, in a world in which nothing else happens.\<close>

lemma read_keeps: "read_answer out c = Inr (c', fin) \<Longrightarrow> rc_coro c' = rc_coro c \<and> rc_item c' = rc_item c"
  by (cases out) (auto simp: read_answer_def bind_res_Inr_iff Let_def split: if_splits)

lemma write_keeps: "write_answer out c = Inr (c', fin) \<Longrightarrow> wc_coro c' = wc_coro c \<and> wc_item c' = wc_item c"
  by (cases out) (auto simp: write_answer_def bind_res_Inr_iff Let_def split: if_splits)

lemma connect_keeps: "connect_answer out c = (c', fin) \<Longrightarrow> cc_coro c' = cc_coro c \<and> cc_item c' = cc_item c"
  by (cases out) (auto simp: connect_answer_def split: if_splits)

lemma accept_keeps: "accept_answer out c = (c', fin) \<Longrightarrow> ac_coro c' = ac_coro c \<and> ac_item c' = ac_item c"
  by (cases out) (auto simp: accept_answer_def split: if_splits)

lemma await_alone:
  assumes "epoll_ctl_spec ctl pollable"
  shows "rc_coro rc = coro \<Longrightarrow> rc_item rc = a \<Longrightarrow>
      await (smart_read_impl ctl) coro (map (\<lambda>x. an_read x a) xs) (rc, registered a (reading_item cb fd) ep, []) =
      bind_res (settle (\<lambda>x. read_answer (an_read x a)) xs rc) (\<lambda>(c', fin). Inr (if fin then Some (c', unregistered a (reading_item cb fd) ep, [coro]) else None))"
    and "wc_coro wc = coro \<Longrightarrow> wc_item wc = a \<Longrightarrow>
      await (smart_write_impl ctl) coro (map (\<lambda>x. an_write x a) xs) (wc, registered a (writing_item cb fd) ep, []) =
      bind_res (settle (\<lambda>x. write_answer (an_write x a)) xs wc) (\<lambda>(c', fin). Inr (if fin then Some (c', unregistered a (writing_item cb fd) ep, [coro]) else None))"
    and "cc_coro cc = coro \<Longrightarrow> cc_item cc = a \<Longrightarrow>
      await (smart_connect_impl ctl) coro (map (\<lambda>x. an_getsockopt x a) xs) (cc, registered a (writing_item cb fd) ep, []) =
      bind_res (settle (\<lambda>x c. Inr (connect_answer (an_getsockopt x a) c)) xs cc)
        (\<lambda>(c', fin). Inr (if fin then Some (c', unregistered a (writing_item cb fd) ep, [coro]) else None))"
    and "ac_coro ac = coro \<Longrightarrow> ac_item ac = a \<Longrightarrow>
      await (smart_accept_impl ctl) coro (map (\<lambda>x. an_accept x a) xs) (ac, registered a (reading_item cb fd) ep, []) =
      bind_res (settle (\<lambda>x c. Inr (accept_answer (an_accept x a) c)) xs ac)
        (\<lambda>(c', fin). Inr (if fin then Some (c', unregistered a (reading_item cb fd) ep, [coro]) else None))"
proof -
  note resume = resume_read_coro_registered [OF assms] resume_write_coro_registered [OF assms]
  let ?r0 = "(registered a (reading_item cb fd) ep, [])" and ?r1 = "(unregistered a (reading_item cb fd) ep, [coro])"
  let ?w0 = "(registered a (writing_item cb fd) ep, [])" and ?w1 = "(unregistered a (writing_item cb fd) ep, [coro])"
  show "rc_coro rc = coro \<Longrightarrow> rc_item rc = a \<Longrightarrow>
      await (smart_read_impl ctl) coro (map (\<lambda>x. an_read x a) xs) (rc, ?r0) =
      bind_res (settle (\<lambda>x. read_answer (an_read x a)) xs rc) (\<lambda>(c', fin). Inr (if fin then Some (c', ?r1) else None))"
    by (rule await_settle [where P = "\<lambda>c. rc_coro c = coro \<and> rc_item c = a"])
      (auto simp: impl_answer resume bind_res_def split: sum.splits dest: read_keeps)
  show "wc_coro wc = coro \<Longrightarrow> wc_item wc = a \<Longrightarrow>
      await (smart_write_impl ctl) coro (map (\<lambda>x. an_write x a) xs) (wc, ?w0) =
      bind_res (settle (\<lambda>x. write_answer (an_write x a)) xs wc) (\<lambda>(c', fin). Inr (if fin then Some (c', ?w1) else None))"
    by (rule await_settle [where P = "\<lambda>c. wc_coro c = coro \<and> wc_item c = a"])
      (auto simp: impl_answer resume bind_res_def split: sum.splits dest: write_keeps)
  show "cc_coro cc = coro \<Longrightarrow> cc_item cc = a \<Longrightarrow>
      await (smart_connect_impl ctl) coro (map (\<lambda>x. an_getsockopt x a) xs) (cc, ?w0) =
      bind_res (settle (\<lambda>x c. Inr (connect_answer (an_getsockopt x a) c)) xs cc) (\<lambda>(c', fin). Inr (if fin then Some (c', ?w1) else None))"
    by (rule await_settle [where P = "\<lambda>c. cc_coro c = coro \<and> cc_item c = a"])
      (auto simp: impl_answer resume Let_def split: prod.splits dest: connect_keeps)
  show "ac_coro ac = coro \<Longrightarrow> ac_item ac = a \<Longrightarrow>
      await (smart_accept_impl ctl) coro (map (\<lambda>x. an_accept x a) xs) (ac, ?r0) =
      bind_res (settle (\<lambda>x c. Inr (accept_answer (an_accept x a) c)) xs ac) (\<lambda>(c', fin). Inr (if fin then Some (c', ?r1) else None))"
    by (rule await_settle [where P = "\<lambda>c. ac_coro c = coro \<and> ac_item c = a"])
      (auto simp: impl_answer resume Let_def split: prod.splits dest: accept_keeps)
qed

lemma until_keeps: "until_answer fl mok out c = Inr (c', fin) \<Longrightarrow> ru_coro c' = ru_coro c \<and> ru_item c' = ru_item c"
  using until_answer_keeps by blast

lemma await_until_alone:
  assumes "epoll_ctl_spec ctl pollable" "ru_coro c = coro" "ru_item c = a"
  shows "ended (await_until (smart_read_until_impl fl mok ctl) coro (map (\<lambda>x. an_read x a) xs) (c, registered a (reading_item cb fd) ep, [])) =
    bind_res (settle (\<lambda>x. until_answer fl mok (an_read x a)) xs c)
      (\<lambda>(c', fin). Inr (if fin then Some (c', unregistered a (reading_item cb fd) ep, [coro]) else None))"
  unfolding await_until_ended
  by (rule await_settle [where P = "\<lambda>c. ru_coro c = coro \<and> ru_item c = a"])
    (use assms(2,3) in \<open>auto simp: until_impl_answer resume_read_coro_registered [OF assms(1)] bind_res_def
      split: sum.splits dest: until_keeps\<close>)

lemma sv_run_append:
  "sv_run N pollable (evs @ evs') S S' \<longleftrightarrow> (\<exists>S1. sv_run N pollable evs S S1 \<and> sv_run N pollable evs' S1 S')"
proof (induction evs arbitrary: S)
  case Nil
  have "S1 = S" if "sv_run N pollable [] S S1" for S1 using that by cases auto
  then show ?case by (auto intro: sv_nil)
next
  case (Cons ev evs)
  then show ?case by (fastforce elim: sv_run_ConsE intro: sv_cons)
qed

lemma sv_run_one_call: "sv_run N pollable evs S S' \<Longrightarrow> one_call_each S \<Longrightarrow> one_call_each S'"
  by (induction rule: sv_run.induct) (auto intro: one_call_each_step)

text \<open>A call that starts after any history and runs beside any other calls ends as it does alone.\<close>

definition waits_in :: "io_loop \<Rightarrow> nat \<Rightarrow> bool" where
  "waits_in l a \<longleftrightarrow> (case ep_items l a of None \<Rightarrow> False | Some it \<Rightarrow> it_watching it)"

lemma call_in_loop:
  assumes "epoll_ctl_spec ctl pollable" "sv_run N pollable (past @ Open a c # evs) served_start S" "Close a \<notin> set evs"
  shows "\<exists>l0 l c'. io_run ctl past (io_start N) = Inr l0 \<and> io_run ctl (past @ Open a c # evs) (io_start N) = Inr l \<and>
    alone a (rounds_of (reads c) a evs) c = Inr (c', \<not> waits_in l a) \<and> il_ctx l a = Some c' \<and>
    count_list (il_resumed l) (ctx_coro c) = count_list (il_resumed l0) (ctx_coro c) + (if waits_in l a then 0 else 1) \<and>
    ctx_item c = a \<and> pollable (ctx_fd c)"
proof -
  obtain S0 S1 where S: "sv_run N pollable past served_start S0" "allowed N pollable (Open a c) S0" "sv_do (Open a c) S0 = Inr S1"
      "sv_run N pollable evs S1 S"
    using assms(2) unfolding sv_run_append by (auto elim: sv_run_ConsE)
  obtain l0 rv0 where l0: "io_run ctl past (io_start N) = Inr l0" "io_rel rv0 l0 S0"
    using io_run_rel [OF assms(1) S(1) start_rel] by (auto simp: io_loop_rel_def)
  obtain l rv where l: "io_run ctl (past @ Open a c # evs) (io_start N) = Inr l" "io_rel rv l S"
    using io_run_rel [OF assms(1,2) start_rel] by (auto simp: io_loop_rel_def)
  have one: "one_call_each S1"
    using sv_run_one_call [OF S(1)] one_call_each_step [OF _ S(2,3)] by (simp add: one_call_each_def served_start_def)
  let ?n = "count_list (sv_resumed S0) (ctx_coro c)"
  have "call_state a S1 = Some (c, True, ?n)" using S(3) by (auto simp: call_state_def)
  from sv_run_call [OF S(4) one assms(3) this] obtain c' fin where
    c': "alone a (rounds_of (reads c) a evs) c = Inr (c', fin)" "call_state a S = Some (c', \<not> fin, if fin then Suc ?n else ?n)" by blast
  then have S': "sv_ctx S a = Some c'" "a \<in> sv_wait S \<longleftrightarrow> \<not> fin"
      "count_list (sv_resumed S) (ctx_coro c') = (if fin then Suc ?n else ?n)"
    by (auto simp: call_state_def)
  have "ctx_coro c' = ctx_coro c" by (rule alone_coro [OF c'(1)])
  moreover have "waits_in l a \<longleftrightarrow> \<not> fin"
    using io_relD(3) [OF l(2) S'(1)] S'(2) by (simp add: waits_in_def idle_item_def)
  moreover have "il_resumed l0 = sv_resumed S0" "il_resumed l = sv_resumed S" using l0(2) l(2) by (simp_all add: io_rel_def)
  ultimately show ?thesis using l0(1) l(1) c'(1) S' io_relD(1) [OF l(2) S'(1)] S(2) by auto
qed

text \<open>What the sequential models return, from the context a call ends with.\<close>

definition read_return :: "int \<Rightarrow> read_context \<Rightarrow> block io_return" where
  "read_return errno c = \<lparr>io_ret = sint (rc_ret c), io_errno = (if rc_ret c < 0 then rc_errno c else errno),
     io_data = rc_buf c, io_epoller = SmartEPoller_new\<rparr>"

definition write_return :: "int \<Rightarrow> write_context \<Rightarrow> block io_return" where
  "write_return errno c = \<lparr>io_ret = sint (wc_ret c), io_errno = (if wc_ret c < 0 then wc_errno c else errno),
     io_data = wc_sent c, io_epoller = SmartEPoller_new\<rparr>"

definition connect_return :: "int \<Rightarrow> connect_context \<Rightarrow> unit io_return" where
  "connect_return errno c = \<lparr>io_ret = (if cc_errno c \<noteq> 0 then -1 else 0), io_errno = (if cc_errno c \<noteq> 0 then cc_errno c else errno),
     io_data = (), io_epoller = SmartEPoller_new\<rparr>"

definition accept_return :: "int \<Rightarrow> accept_context \<Rightarrow> unit io_return" where
  "accept_return errno c = \<lparr>io_ret = (if ac_ret c < 0 then -1 else ac_ret c), io_errno = (if ac_ret c < 0 then ac_errno c else errno),
     io_data = (), io_epoller = SmartEPoller_new\<rparr>"

definition until_return :: "int \<Rightarrow> code_val \<Rightarrow> read_until_context \<Rightarrow> (dynamic_buffer \<times> code_val) io_return" where
  "until_return errno ec c = \<lparr>io_ret = ru_ret c, io_errno = errno,
     io_data = (ru_buffer c, if ru_ret c < 0 then ru_ec c else ec), io_epoller = SmartEPoller_new\<rparr>"

lemma quiet_poller:
  assumes "epoll_ctl_spec ctl pollable" "pollable fd"
  shows "enable_reading ctl a (open_item (set_read_callback cb) fd a SmartEPoller_new) = Inr (registered a (reading_item cb fd) (SmartEPoller_new :: io_callback epoller))"
    "enable_writing ctl a (open_item (set_write_callback cb) fd a SmartEPoller_new) = Inr (registered a (writing_item cb fd) (SmartEPoller_new :: io_callback epoller))"
    "close_item a (unregistered a (reading_item cb fd) SmartEPoller_new) = (SmartEPoller_new :: io_callback epoller)"
    "close_item a (unregistered a (writing_item cb fd) SmartEPoller_new) = (SmartEPoller_new :: io_callback epoller)"
proof -
  have free: "free_for pollable fd a (SmartEPoller_new :: io_callback epoller)" using assms(2) by (simp add: free_for_def SmartEPoller_new_def)
  then show "enable_reading ctl a (open_item (set_read_callback cb) fd a SmartEPoller_new) = Inr (registered a (reading_item cb fd) (SmartEPoller_new :: io_callback epoller))"
    "enable_writing ctl a (open_item (set_write_callback cb) fd a SmartEPoller_new) = Inr (registered a (writing_item cb fd) (SmartEPoller_new :: io_callback epoller))"
    "close_item a (unregistered a (reading_item cb fd) SmartEPoller_new) = (SmartEPoller_new :: io_callback epoller)"
    "close_item a (unregistered a (writing_item cb fd) SmartEPoller_new) = (SmartEPoller_new :: io_callback epoller)"
    using enable_reading_opened [OF assms(1) free] enable_writing_opened [OF assms(1) free]
    by (simp_all add: close_item_unregistered [of pollable])
qed

lemma smart_read_alone:
  assumes "epoll_ctl_spec ctl pollable" "pollable fd" "alone a xs (Read_ctx (ReadContext fd buf cnt coro a)) = Inr (c', fin)"
  shows "\<exists>d. c' = Read_ctx d \<and> smart_read ctl True fd buf cnt coro a (map (\<lambda>x. an_read x a) xs) errno SmartEPoller_new =
    Inr (if fin then Some (read_return errno d) else None)"
proof -
  obtain d where d: "settle (\<lambda>x. read_answer (an_read x a)) xs (ReadContext fd buf cnt coro a) = Inr (d, fin)" "c' = Read_ctx d"
    using assms(3) settle_map [of "\<lambda>x. answer x a" Read_ctx "\<lambda>x. read_answer (an_read x a)"] by (auto simp: bind_res_Inr_iff)
  have "rc_coro (ReadContext fd buf cnt coro a) = coro" "rc_item (ReadContext fd buf cnt coro a) = a" by (simp_all add: ReadContext_def)
  with d show ?thesis
    by (simp add: smart_read_def quiet_poller [OF assms(1,2)] await_alone(1) [OF assms(1)] read_return_def)
qed

lemma smart_write_alone:
  assumes "epoll_ctl_spec ctl pollable" "pollable fd" "alone a xs (Write_ctx (WriteContext fd buf cnt coro a)) = Inr (c', fin)"
  shows "\<exists>d. c' = Write_ctx d \<and> smart_write ctl True fd buf cnt coro a (map (\<lambda>x. an_write x a) xs) errno SmartEPoller_new =
    Inr (if fin then Some (write_return errno d) else None)"
proof -
  obtain d where d: "settle (\<lambda>x. write_answer (an_write x a)) xs (WriteContext fd buf cnt coro a) = Inr (d, fin)" "c' = Write_ctx d"
    using assms(3) settle_map [of "\<lambda>x. answer x a" Write_ctx "\<lambda>x. write_answer (an_write x a)"] by (auto simp: bind_res_Inr_iff)
  have "wc_coro (WriteContext fd buf cnt coro a) = coro" "wc_item (WriteContext fd buf cnt coro a) = a" by (simp_all add: WriteContext_def)
  with d show ?thesis
    by (simp add: smart_write_def quiet_poller [OF assms(1,2)] await_alone(2) [OF assms(1)] write_return_def)
qed

abbreviation connect_start :: "fd \<Rightarrow> nat \<Rightarrow> nat \<Rightarrow> connect_context" where
  "connect_start fd coro a \<equiv> \<lparr>cc_sockfd = fd, cc_coro = coro, cc_item = a, cc_errno = 0\<rparr>"

abbreviation accept_start :: "fd \<Rightarrow> nat \<Rightarrow> nat \<Rightarrow> accept_context" where
  "accept_start fd coro a \<equiv> \<lparr>ac_sockfd = fd, ac_coro = coro, ac_item = a, ac_errno = 0, ac_ret = -1\<rparr>"

lemma smart_connect_alone:
  assumes "epoll_ctl_spec ctl pollable" "pollable fd" "alone a xs (Connect_ctx (connect_start fd coro a)) = Inr (c', fin)" "r < 0"
  shows "\<exists>d. c' = Connect_ctx d \<and> smart_connect ctl True fd coro a (r, EINPROGRESS) (map (\<lambda>x. an_getsockopt x a) xs) errno SmartEPoller_new =
    Inr (if fin then Some (connect_return errno d) else None)"
proof -
  let ?g = "\<lambda>x c. Inr (connect_answer (an_getsockopt x a) c)"
  obtain d where "settle ?g xs (connect_start fd coro a) = Inr (d, fin)" "c' = Connect_ctx d"
    using assms(3) settle_map [of "\<lambda>x. answer x a" Connect_ctx ?g xs "connect_start fd coro a"] by (auto simp: bind_res_Inr_iff Let_def)
  with assms(4) show ?thesis
    by (simp add: smart_connect_def quiet_poller [OF assms(1,2)] await_alone(3) [OF assms(1)] connect_return_def)
qed

lemma smart_accept_alone:
  assumes "epoll_ctl_spec ctl pollable" "pollable fd" "alone a xs (Accept_ctx (accept_start fd coro a)) = Inr (c', fin)"
  shows "\<exists>d. c' = Accept_ctx d \<and> smart_accept ctl True fd coro a (map (\<lambda>x. an_accept x a) xs) errno SmartEPoller_new =
    Inr (if fin then Some (accept_return errno d) else None)"
proof -
  let ?g = "\<lambda>x c. Inr (accept_answer (an_accept x a) c)"
  obtain d where "settle ?g xs (accept_start fd coro a) = Inr (d, fin)" "c' = Accept_ctx d"
    using assms(3) settle_map [of "\<lambda>x. answer x a" Accept_ctx ?g xs "accept_start fd coro a"] by (auto simp: bind_res_Inr_iff Let_def)
  then show ?thesis
    by (simp add: smart_accept_def quiet_poller [OF assms(1,2)] await_alone(4) [OF assms(1)] accept_return_def)
qed

lemma smart_read_until_alone:
  assumes "epoll_ctl_spec ctl pollable" "pollable fd" "alone a xs (Until_ctx (ReadUntilContext fd buffer delim coro a)) = Inr (c', fin)"
    and same: "\<forall>x \<in> set xs. an_flags x = fl \<and> an_malloc x a = mok"
  shows "\<exists>d. c' = Until_ctx d \<and> smart_read_until fl mok ctl True fd buffer delim ec coro a (map (\<lambda>x. an_read x a) xs) errno SmartEPoller_new =
    Some (Inr (if fin then Some (until_return errno ec d) else None))"
proof -
  let ?c = "ReadUntilContext fd buffer delim coro a" and ?it = "reading_item (Smart_read_until_impl a) fd"
  let ?run = "await_until (smart_read_until_impl fl mok ctl) coro (map (\<lambda>x. an_read x a) xs) (?c, registered a ?it SmartEPoller_new, [])"
  obtain d where d: "settle (\<lambda>x. until_answer (an_flags x) (an_malloc x a) (an_read x a)) xs ?c = Inr (d, fin)" "c' = Until_ctx d"
    using assms(3) settle_map [of "\<lambda>x. answer x a" Until_ctx "\<lambda>x. until_answer (an_flags x) (an_malloc x a) (an_read x a)"]
    by (auto simp: bind_res_Inr_iff)
  have "settle (\<lambda>x. until_answer fl mok (an_read x a)) xs ?c = Inr (d, fin)"
    unfolding d(1) [symmetric] by (rule settle_cong) (simp add: same)
  moreover have "ru_coro ?c = coro" "ru_item ?c = a" by (simp_all add: ReadUntilContext_def)
  ultimately have "ended ?run = Inr (if fin then Some (d, unregistered a ?it SmartEPoller_new, [coro]) else None)"
    by (simp add: await_until_alone [OF assms(1)])
  then have "?run = Some (Inr (if fin then Some (d, unregistered a ?it SmartEPoller_new, [coro]) else None))"
    by (simp add: ended_def split: option.splits)
  with d(2) show ?thesis by (simp add: smart_read_until_def quiet_poller [OF assms(1,2)] until_return_def)
qed

text \<open>
  How a call that began with the context \<open>c\<close> at \<open>a\<close> stands after the answers \<open>xs\<close> to it, with the context
  \<open>c'\<close> and still waiting or not: as the sequential model of its function says.
\<close>

definition call_returns :: "epoll_ctl \<Rightarrow> int \<Rightarrow> code_val \<Rightarrow> nat \<Rightarrow> answers list \<Rightarrow> io_context \<Rightarrow> bool \<Rightarrow> io_context \<Rightarrow> bool" where
  "call_returns ctl errno ec a xs c waits c' \<longleftrightarrow>
    (\<forall>fd buf cnt coro. c = Read_ctx (ReadContext fd buf cnt coro a) \<longrightarrow> (\<exists>d. c' = Read_ctx d \<and>
      smart_read ctl True fd buf cnt coro a (map (\<lambda>x. an_read x a) xs) errno SmartEPoller_new =
        Inr (if waits then None else Some (read_return errno d)))) \<and>
    (\<forall>fd buf cnt coro. c = Write_ctx (WriteContext fd buf cnt coro a) \<longrightarrow> (\<exists>d. c' = Write_ctx d \<and>
      smart_write ctl True fd buf cnt coro a (map (\<lambda>x. an_write x a) xs) errno SmartEPoller_new =
        Inr (if waits then None else Some (write_return errno d)))) \<and>
    (\<forall>fd coro r. c = Connect_ctx (connect_start fd coro a) \<and> r < 0 \<longrightarrow> (\<exists>d. c' = Connect_ctx d \<and>
      smart_connect ctl True fd coro a (r, EINPROGRESS) (map (\<lambda>x. an_getsockopt x a) xs) errno SmartEPoller_new =
        Inr (if waits then None else Some (connect_return errno d)))) \<and>
    (\<forall>fd coro. c = Accept_ctx (accept_start fd coro a) \<longrightarrow> (\<exists>d. c' = Accept_ctx d \<and>
      smart_accept ctl True fd coro a (map (\<lambda>x. an_accept x a) xs) errno SmartEPoller_new =
        Inr (if waits then None else Some (accept_return errno d)))) \<and>
    (\<forall>fd buffer delim coro fl mok. c = Until_ctx (ReadUntilContext fd buffer delim coro a) \<and>
        (\<forall>x \<in> set xs. an_flags x = fl \<and> an_malloc x a = mok) \<longrightarrow> (\<exists>d. c' = Until_ctx d \<and>
      smart_read_until fl mok ctl True fd buffer delim ec coro a (map (\<lambda>x. an_read x a) xs) errno SmartEPoller_new =
        Some (Inr (if waits then None else Some (until_return errno ec d)))))"

lemma alone_returns:
  assumes "epoll_ctl_spec ctl pollable" "pollable (ctx_fd c)" "alone a xs c = Inr (c', \<not> waits)"
  shows "call_returns ctl errno ec a xs c waits c'"
proof -
  have flip: "(if \<not> waits then Some x else None) = (if waits then None else Some x)" for x :: 'z by simp
  note defs = ReadContext_def WriteContext_def ReadUntilContext_def
  show ?thesis unfolding call_returns_def
  proof (intro conjI allI impI)
    fix fd buf cnt coro assume eq: "c = Read_ctx (ReadContext fd buf cnt coro a)"
    have "pollable fd" using assms(2) eq by (simp add: defs)
    from smart_read_alone [OF assms(1) this assms(3) [unfolded eq]]
    show "\<exists>d. c' = Read_ctx d \<and> smart_read ctl True fd buf cnt coro a (map (\<lambda>x. an_read x a) xs) errno SmartEPoller_new =
        Inr (if waits then None else Some (read_return errno d))" by (auto simp: flip)
  next
    fix fd buf cnt coro assume eq: "c = Write_ctx (WriteContext fd buf cnt coro a)"
    have "pollable fd" using assms(2) eq by (simp add: defs)
    from smart_write_alone [OF assms(1) this assms(3) [unfolded eq]]
    show "\<exists>d. c' = Write_ctx d \<and> smart_write ctl True fd buf cnt coro a (map (\<lambda>x. an_write x a) xs) errno SmartEPoller_new =
        Inr (if waits then None else Some (write_return errno d))" by (auto simp: flip)
  next
    fix fd coro r assume c: "c = Connect_ctx (connect_start fd coro a) \<and> (r :: int) < 0"
    note eq = conjunct1 [OF c]
    have "pollable fd" using assms(2) eq by simp
    from smart_connect_alone [OF assms(1) this assms(3) [unfolded eq] conjunct2 [OF c]]
    show "\<exists>d. c' = Connect_ctx d \<and> smart_connect ctl True fd coro a (r, EINPROGRESS) (map (\<lambda>x. an_getsockopt x a) xs) errno SmartEPoller_new =
        Inr (if waits then None else Some (connect_return errno d))" by (auto simp: flip)
  next
    fix fd coro assume eq: "c = Accept_ctx (accept_start fd coro a)"
    have "pollable fd" using assms(2) eq by simp
    from smart_accept_alone [OF assms(1) this assms(3) [unfolded eq]]
    show "\<exists>d. c' = Accept_ctx d \<and> smart_accept ctl True fd coro a (map (\<lambda>x. an_accept x a) xs) errno SmartEPoller_new =
        Inr (if waits then None else Some (accept_return errno d))" by (auto simp: flip)
  next
    fix fd buffer delim coro fl mok
    assume c: "c = Until_ctx (ReadUntilContext fd buffer delim coro a) \<and> (\<forall>x \<in> set xs. an_flags x = fl \<and> an_malloc x a = mok)"
    note eq = conjunct1 [OF c]
    have "pollable fd" using assms(2) eq by (simp add: defs)
    from smart_read_until_alone [OF assms(1) this assms(3) [unfolded eq] conjunct2 [OF c]]
    show "\<exists>d. c' = Until_ctx d \<and> smart_read_until fl mok ctl True fd buffer delim ec coro a (map (\<lambda>x. an_read x a) xs) errno SmartEPoller_new =
        Some (Inr (if waits then None else Some (until_return errno ec d)))" by (auto simp: flip)
  qed
qed

lemma call_returns_read:
  assumes "call_returns ctl errno ec a xs (Read_ctx (ReadContext fd buf cnt coro a)) waits c'"
  shows "\<exists>d. c' = Read_ctx d \<and> smart_read ctl True fd buf cnt coro a (map (\<lambda>x. an_read x a) xs) errno SmartEPoller_new =
    Inr (if waits then None else Some (read_return errno d))"
  using assms unfolding call_returns_def by blast

section \<open>Properties\<close>

text \<open>C23. The sequential models of the blocking calls are what happens in the event loop: a call that
  starts after any history and runs beside any other calls has been handed back to the scheduler
  exactly when the model of its function, given the answers of this call alone, returns; its
  context then gives the values the model returns, and the coroutine has been resumed once
  more. This holds for \<open>smart_read\<close>, \<open>smart_write\<close>, \<open>smart_connect\<close>, \<open>smart_accept\<close> and
  \<open>smart_read_until\<close>.\<close>

theorem calls_through_event_loop:
  assumes "epoll_ctl_spec ctl pollable" "sv_run N pollable (past @ Open a c # evs) served_start S" "Close a \<notin> set evs"
  shows "\<exists>l0 l c'. io_run ctl past (io_start N) = Inr l0 \<and> io_run ctl (past @ Open a c # evs) (io_start N) = Inr l \<and>
    count_list (il_resumed l) (ctx_coro c) = count_list (il_resumed l0) (ctx_coro c) + (if waits_in l a then 0 else 1) \<and>
    il_ctx l a = Some c' \<and> call_returns ctl errno ec a (rounds_of (reads c) a evs) c (waits_in l a) c'"
proof -
  obtain l0 l c' where l: "io_run ctl past (io_start N) = Inr l0" "io_run ctl (past @ Open a c # evs) (io_start N) = Inr l"
      "alone a (rounds_of (reads c) a evs) c = Inr (c', \<not> waits_in l a)" "il_ctx l a = Some c'"
      "count_list (il_resumed l) (ctx_coro c) = count_list (il_resumed l0) (ctx_coro c) + (if waits_in l a then 0 else 1)"
      "pollable (ctx_fd c)"
    using call_in_loop [OF assms(1-3)] by blast
  with alone_returns [OF assms(1) l(6,3)] show ?thesis by blast
qed

theorem calls_through_event_loop_witness:
  "\<exists>l c. io_run (epoll_ctl_map (\<lambda>_. True))
     [Open 2 (Accept_ctx \<lparr>ac_sockfd = 6, ac_coro = 8, ac_item = 2, ac_errno = 0, ac_ret = -1\<rparr>),
      Open 1 (Read_ctx (ReadContext 5 [None, None] 2 7 1)),
      Round [(1, EPOLLIN)] \<lparr>an_read = (\<lambda>_. (2, [3, 4], 0)), an_write = (\<lambda>_. (0, 0)), an_getsockopt = (\<lambda>_. (0, 0, 0)), an_accept = (\<lambda>_. (9, 0)), an_malloc = (\<lambda>_. True), an_flags = default_flags\<rparr>]
     (io_start 4) = Inr l \<and> il_ctx l 1 = Some (Read_ctx c) \<and> rc_buf c = [Some 3, Some 4] \<and> count_list (il_resumed l) 7 = 1"
proof -
  let ?ans = "\<lparr>an_read = (\<lambda>_. (2, [3, 4], 0)), an_write = (\<lambda>_. (0, 0)), an_getsockopt = (\<lambda>_. (0, 0, 0)), an_accept = (\<lambda>_. (9, 0)), an_malloc = (\<lambda>_. True), an_flags = default_flags\<rparr>"
  let ?past = "[Open 2 (Accept_ctx \<lparr>ac_sockfd = 6, ac_coro = 8, ac_item = 2, ac_errno = 0, ac_ret = -1\<rparr>)]"
  let ?evs = "[Round [(1, EPOLLIN)] ?ans]" and ?ctl = "epoll_ctl_map (\<lambda>_. True)"
  have outs: "rounds_of (reads (Read_ctx (ReadContext 5 [None, None] 2 7 1))) 1 ?evs = [?ans]" by (simp add: wakes_def)
  let ?c0 = "ReadContext 5 [None, None] 2 7 1" and ?d = "Accept_ctx \<lparr>ac_sockfd = 6, ac_coro = 8, ac_item = 2, ac_errno = 0, ac_ret = -1\<rparr>"
  let ?all = "?past @ Open 1 (Read_ctx ?c0) # ?evs"
  let ?S1 = "\<lparr>sv_ctx = [2 \<mapsto> ?d], sv_wait = {2}, sv_resumed = []\<rparr>"
  let ?S2 = "\<lparr>sv_ctx = [2 \<mapsto> ?d, 1 \<mapsto> Read_ctx ?c0], sv_wait = {1, 2}, sv_resumed = []\<rparr>"
  let ?S = "\<lparr>sv_ctx = [2 \<mapsto> ?d, 1 \<mapsto> Read_ctx (?c0\<lparr>rc_buf := [Some 3, Some 4], rc_ret := 2\<rparr>)], sv_wait = {2}, sv_resumed = [7]\<rparr>"
  have ok: "allowed 4 (\<lambda>_. True) (?all ! 0) served_start" "allowed 4 (\<lambda>_. True) (?all ! 1) ?S1" "allowed 4 (\<lambda>_. True) (?all ! 2) ?S2"
    by (auto simp: served_start_def ReadContext_def split: if_splits)
  have go: "sv_do (?all ! 0) served_start = Inr ?S1" "sv_do (?all ! 1) ?S1 = Inr ?S2" "sv_do (?all ! 2) ?S2 = Inr ?S"
    by (auto simp: served_start_def serve_one_def triggers_def wakes_def read_answer_def mem_write_def to_int_def Let_def ReadContext_def)
  have "sv_run 4 (\<lambda>_. True) [?all ! 0, ?all ! 1, ?all ! 2] served_start ?S"
    by (rule sv_cons [OF ok(1) go(1) sv_cons [OF ok(2) go(2) sv_cons [OF ok(3) go(3) sv_nil]]])
  then have S: "sv_run 4 (\<lambda>_. True) ?all served_start ?S" by simp
  have run: "smart_read ?ctl True 5 [None, None] 2 7 1 [(2, [3, 4], 0)] 0 SmartEPoller_new =
      Inr (Some \<lparr>io_ret = 2, io_errno = 0, io_data = [Some 3, Some 4], io_epoller = SmartEPoller_new\<rparr>)"
    using smart_read_outcome [OF epoll_ctl_map_spec [of "\<lambda>_. True"], of 5 1 SmartEPoller_new 2 "[None, None]" "[(2, [3, 4], 0)]" 7 0]
    by (simp add: free_for_def SmartEPoller_new_def)
  obtain l0 l c' where l': "io_run ?ctl ?past (io_start 4) = Inr l0" "io_run ?ctl ?all (io_start 4) = Inr l" "il_ctx l 1 = Some c'"
    "count_list (il_resumed l) 7 = count_list (il_resumed l0) 7 + (if waits_in l 1 then 0 else 1)"
    "call_returns ?ctl 0 Success 1 [?ans] (Read_ctx ?c0) (waits_in l 1) c'"
    using calls_through_event_loop [OF epoll_ctl_map_spec S, where errno = 0 and ec = Success, unfolded outs] by (auto simp: ReadContext_def)
  from call_returns_read [OF l'(5)] l' obtain d where l: "io_run ?ctl ?past (io_start 4) = Inr l0" "io_run ?ctl ?all (io_start 4) = Inr l"
    "count_list (il_resumed l) 7 = count_list (il_resumed l0) 7 + (if waits_in l 1 then 0 else 1)" "il_ctx l 1 = Some (Read_ctx d)"
    "smart_read ?ctl True 5 [None, None] 2 7 1 [(2, [3, 4], 0)] 0 SmartEPoller_new = Inr (if waits_in l 1 then None else Some (read_return 0 d))"
    by auto
  have fin: "\<not> waits_in l 1" "rc_buf d = [Some 3, Some 4]"
    using l(5) unfolding run by (auto simp: read_return_def split: if_splits)
  have "sv_run 4 (\<lambda>_. True) [?all ! 0] served_start ?S1" by (rule sv_cons [OF ok(1) go(1) sv_nil])
  then have "sv_run 4 (\<lambda>_. True) ?past served_start ?S1" by simp
  from io_run_rel [OF epoll_ctl_map_spec this start_rel] l(1) have "il_resumed l0 = []"
    by (auto simp: io_loop_rel_def io_rel_def)
  with l fin show ?thesis by (intro exI [of _ l] exI [of _ d]) simp
qed

end
