(* ===== verification/Smart_Program.thy ===== *)
theory Smart_Program
  imports Scheduler_Safety Call_Safety Event_Calls
begin

text \<open>
  The scheduler and the event loop as one program. The scheduler's model sees a coroutine in a blocking
  call as an element of a list that some event removes; the model of the event loop sees coroutines
  only as numbers it hands back. Here the deferred callback of the scheduler registers the item of the
  call, the loop runs the real callbacks, and the coroutines they resume go to the task list.
\<close>

section \<open>The program\<close>

text \<open>
  The state: the scheduler, the event loop with the contexts of the calls whose items were enabled,
  and the contexts of calls that have been constructed on the stack of their coroutine but whose
  item still waits for the deferred callback. Context and item of a call have the address of their
  coroutine, on whose stack they are; a coroutine is in one call at a time.
\<close>

record program =
  pg_sys :: sys
  pg_loop :: io_loop
  pg_call :: "coro \<rightharpoonup> io_context"

definition current :: "nat \<Rightarrow> program \<Rightarrow> coro" where
  "current t p = th_current_coro (sy_threads (pg_sys p) t)"

definition calls :: "program \<Rightarrow> coro \<rightharpoonup> io_context" where
  "calls p = pg_call p ++ il_ctx (pg_loop p)"

text \<open>
  The deferred callbacks \<open>enable_epoll_reading\<close> and \<open>enable_epoll_writing\<close>: the items of the coroutines
  that became waiting are enabled.
\<close>

fun enable_items :: "epoll_ctl \<Rightarrow> coro list \<Rightarrow> program \<Rightarrow> program res" where
  "enable_items ctl [] p = Inr p"
| "enable_items ctl (c # cs) p =
     (case pg_call p c of None \<Rightarrow> Inl UseAfterFree
      | Some x \<Rightarrow> bind_res (io_do ctl (Open c x) (pg_loop p)) (\<lambda>l.
          enable_items ctl cs (p\<lparr>pg_loop := l, pg_call := (pg_call p)(c := None)\<rparr>)))"

definition sched_do :: "epoll_ctl \<Rightarrow> flags \<Rightarrow> event \<Rightarrow> program \<Rightarrow> program res" where
  "sched_do ctl fl ev p = bind_res (perform fl ev (pg_sys p)) (\<lambda>s.
     enable_items ctl (drop (length (sy_waiting (pg_sys p))) (sy_waiting s)) (p\<lparr>pg_sys := s\<rparr>))"

text \<open>The coroutines a round of the event loop hands back, in order.\<close>

fun resume_all :: "coro list \<Rightarrow> sys \<Rightarrow> sys res" where
  "resume_all [] s = Inr s"
| "resume_all (c # cs) s = bind_res (resume_io_coro c s) (resume_all cs)"

text \<open>
  The steps: a step of the scheduler or of a thread outside; a coroutine begins a blocking call
  (it constructs context and item and yields); a round of the event loop, which reads the items
  on the stacks of their coroutines; a coroutine that was resumed leaves its call.
\<close>

datatype prog_event =
    Sched event | Begin nat io_context | Poll "(coro \<times> uint32) list" answers | Finish nat

fun prog_do :: "epoll_ctl \<Rightarrow> flags \<Rightarrow> prog_event \<Rightarrow> program \<Rightarrow> program res" where
  "prog_do ctl fl (Sched ev) p = sched_do ctl fl ev p"
| "prog_do ctl fl (Begin t x) p =
     sched_do ctl fl (Wait t (if reads x then By_read else By_write)) (p\<lparr>pg_call := (pg_call p)(current t p \<mapsto> x)\<rparr>)"
| "prog_do ctl fl (Poll pes ans) p =
     (if \<exists>(c, e) \<in> set pes. sy_coros (pg_sys p) c = None then Inl UseAfterFree
      else bind_res (io_do ctl (Round pes ans) (pg_loop p)) (\<lambda>l.
        bind_res (resume_all (drop (length (il_resumed (pg_loop p))) (il_resumed l)) (pg_sys p)) (\<lambda>s.
          Inr (p\<lparr>pg_sys := s, pg_loop := l\<rparr>))))"
| "prog_do ctl fl (Finish t) p = bind_res (io_do ctl (Close (current t p)) (pg_loop p)) (\<lambda>l. Inr (p\<lparr>pg_loop := l\<rparr>))"

text \<open>
  When a step can happen, and what is assumed of the environment. A coroutine in a call does nothing
  but leave it. A call has a buffer that covers its request, and two coroutines are not in calls on
  one descriptor. \<open>epoll_wait\<close> reports registered items, each once, and not more than asked for; the
  system calls in a round keep their promises.
\<close>

definition outside_calls :: "nat \<Rightarrow> program \<Rightarrow> bool" where
  "outside_calls t p \<longleftrightarrow> il_ctx (pg_loop p) (current t p) = None"

fun prog_enabled :: "nat \<Rightarrow> (fd \<Rightarrow> bool) \<Rightarrow> prog_event \<Rightarrow> program \<Rightarrow> bool" where
  "prog_enabled N pollable (Sched ev) p \<longleftrightarrow> enabled 1 ev (pg_sys p) \<and>
     (case ev of Wait t w \<Rightarrow> w = By_yield \<and> outside_calls t p | Return t \<Rightarrow> outside_calls t p
      | Start t \<Rightarrow> outside_calls t p | Io_done c \<Rightarrow> False | _ \<Rightarrow> True)"
| "prog_enabled N pollable (Begin t x) p \<longleftrightarrow> enabled 1 (Wait t By_read) (pg_sys p) \<and> outside_calls t p \<and>
     ctx_coro x = current t p \<and> ctx_item x = current t p \<and> pollable (ctx_fd x) \<and> ctx_ok x \<and>
     list_all (\<lambda>b. case calls p b of None \<Rightarrow> True | Some y \<Rightarrow> ctx_fd y \<noteq> ctx_fd x) [0..<sy_next (pg_sys p)]"
| "prog_enabled N pollable (Poll pes ans) p \<longleftrightarrow> pes \<noteq> [] \<and> length pes \<le> N \<and> distinct (map fst pes) \<and>
     (\<forall>(c, e) \<in> set pes. waits_in (pg_loop p) c \<and> answer_ok ans c (the (il_ctx (pg_loop p) c)))"
| "prog_enabled N pollable (Finish t) p \<longleftrightarrow> enabled 1 (Wait t By_read) (pg_sys p) \<and> \<not> outside_calls t p"

definition prog_start :: "flags \<Rightarrow> nat \<Rightarrow> program" where
  "prog_start fl N = \<lparr>pg_sys = sys_init fl 1, pg_loop = io_start N, pg_call = (\<lambda>_. None)\<rparr>"

inductive prog_step :: "epoll_ctl \<Rightarrow> flags \<Rightarrow> nat \<Rightarrow> (fd \<Rightarrow> bool) \<Rightarrow> program \<Rightarrow> program res \<Rightarrow> bool"
  for ctl :: epoll_ctl and fl :: flags and N :: nat and pollable :: "fd \<Rightarrow> bool" where
  prog_event: "prog_enabled N pollable ev p \<Longrightarrow> prog_step ctl fl N pollable p (prog_do ctl fl ev p)"

inductive_simps prog_step_iff: "prog_step ctl fl N pollable p r"

section \<open>What a scheduler step leaves to the event loop\<close>

fun enabling :: "delay_cb option \<Rightarrow> coro option" where
  "enabling (Some (Enable_epoll_reading c)) = Some c"
| "enabling (Some (Enable_epoll_writing c)) = Some c"
| "enabling _ = None"

definition announced :: "sys \<Rightarrow> sys \<Rightarrow> bool" where
  "announced s s' \<longleftrightarrow>
     sy_waiting s' = sy_waiting s \<and> (delay_of s' = delay_of s \<or> delay_of s' = None \<and> enabling (delay_of s) = None) \<or>
     (\<exists>c. enabling (delay_of s) = Some c \<and> sy_waiting s' = sy_waiting s @ [c] \<and> delay_of s' = None)"

lemma announced_refl: "sy_waiting s' = sy_waiting s \<Longrightarrow> delay_of s' = delay_of s \<Longrightarrow> announced s s'"
  by (simp add: announced_def)

lemma switch_to_frame:
  "switch_to 0 0 here c s = Inr s' \<Longrightarrow> sy_waiting s' = sy_waiting s \<and> delay_of s' = delay_of s"
  by (auto simp: switch_to_def Let_def sys_updates split: option.splits if_splits)

lemma get_task_frame:
  assumes "th_inv (thr s)" "sys_get_task fl 0 s = Inr (r, s')"
  shows "sy_waiting s' = sy_waiting s" "delay_of s' = delay_of s"
  using sys_get_task_ok [OF assms(1), of fl] assms(2) by (metis Inr_inject Pair_inject)+

lemma resume_frame:
  assumes "th_inv (thr s)" "tls = None \<or> tls = Some 0" "smart_routine_resume tls c s = Inr s'"
  shows "sy_waiting s' = sy_waiting s" "delay_of s' = delay_of s"
proof -
  obtain s1 where "sys_push_task 0 c s = Inr s1" "delay_of s1 = delay_of s" "sy_waiting s1 = sy_waiting s"
    by (rule sys_push_task_ok [OF assms(1)])
  then show "sy_waiting s' = sy_waiting s" "delay_of s' = delay_of s"
    using assms(2,3) by (auto simp: smart_routine_resume_def)
qed

lemma run_delay_frame:
  assumes "th_inv (thr s)" "run_delay_callback 0 0 s = Inr s'"
  shows "announced s s' \<and> cur_of s' = cur_of s"
proof (cases "delay_of s")
  case None
  with assms show ?thesis by (simp add: run_delay_callback_def announced_def)
next
  case (Some cb)
  then obtain s1 where e: "exec_callback 0 cb s = Inr s1" "s' = set_delay 0 None s1"
    using assms(2) by (auto simp: run_delay_callback_def bind_res_Inr_iff)
  show ?thesis
  proof (cases cb)
    case (Add_back_to_queue c)
    obtain s2 where "sys_push_task 0 c s = Inr s2" "same_coros s s2" "sy_waiting s2 = sy_waiting s"
      by (rule sys_push_task_ok [OF assms(1)])
    then show ?thesis using e Some Add_back_to_queue same_coros_simps [of s s2] by (simp add: announced_def sys_updates)
  qed (use e Some in \<open>auto simp: announced_def sys_updates split: if_splits\<close>)
qed

lemma land_frame:
  assumes inv: "sched_inv s" and pc: "sy_pc s 0 = Landed k" and r: "land 0 k s = Inr s'"
  shows "announced s s'"
proof (cases k)
  case (After_yield p)
  with r show ?thesis by (auto simp: sys_updates intro: announced_refl)
next
  case (After_loop this p)
  with r pc sched_invD(7) [OF inv] obtain s1 where "run_delay_callback 0 0 s = Inr s1" "s' = set_pc 0 (At_loop 0 p) s1"
    by (auto simp: bind_res_Inr_iff)
  with run_delay_frame [OF sched_invD(1) [OF inv]] show ?thesis by (auto simp: announced_def sys_updates)
next
  case (Entry p)
  then obtain s1 where s1: "run_delay_callback 0 0 s = Inr s1" "cur_of s1 = cur_of s"
      "sy_coros s1 (cur_of s) = sy_coros s (cur_of s)"
    using run_delay_callback_inv [OF inv] pc by (auto simp: at_loop_def)
  obtain oc where "sy_coros s (cur_of s) = Some oc" "co_fn oc" using sched_invD(7) [OF inv] pc Entry by auto
  then have "s' = set_pc 0 (In_user p) (s1\<lparr>sy_frames := (sy_frames s1)(p := (0, cur_of s))\<rparr>)"
    using r Entry s1 by (simp add: coro_runner_begin_def Let_def)
  with run_delay_frame [OF sched_invD(1) [OF inv] s1(1)] show ?thesis by (simp add: announced_def sys_updates)
qed

text \<open>
  Waiting and returning set the deferred callback; the other steps keep it or run it, and a callback
  that enables an item adds its coroutine to the waiting ones.
\<close>

lemma perform_frame:
  assumes inv: "sched_inv s" and en: "enabled 1 ev s" and r: "perform fl ev s = Inr s'"
  shows "case ev of Wait t w \<Rightarrow> sy_waiting s' = sy_waiting s \<and> delay_of s' = Some (wait_callback w (cur_of s))
    | Return t \<Rightarrow> sy_waiting s' = sy_waiting s \<and> delay_of s' = Some (Destroy_coro (cur_of s))
    | Io_done c \<Rightarrow> sy_waiting s' = remove1 c (sy_waiting s) \<and> delay_of s' = delay_of s
    | _ \<Rightarrow> announced s s'"
proof -
  note th = sched_invD(1) [OF inv]
  show ?thesis
  proof (cases ev)
    case (Wake t)
    with en r show ?thesis by (auto simp: leave_wait_def sys_updates intro: announced_refl)
  next
    case (Loop t)
    with en r sched_invD(7) [OF inv] obtain p where "main_loop_round fl 0 0 p s = Inr s'" by (cases "sy_pc s 0") auto
    then obtain c s1 where "sys_get_task fl 0 s = Inr (c, s1)" "case c of None \<Rightarrow> s' = s1 | Some c \<Rightarrow> switch_to 0 0 (After_loop 0 p) c s1 = Inr s'"
      by (auto simp: main_loop_round_def bind_res_Inr_iff split: option.splits)
    with get_task_frame [OF th] switch_to_frame Loop show ?thesis by (fastforce split: option.splits intro: announced_refl)
  next
    case (Land t)
    with en r land_frame [OF inv] show ?thesis by (cases "sy_pc s 0") auto
  next
    case (Wait t w)
    let ?cb = "Some (wait_callback w (cur_of s))" let ?s1 = "set_delay 0 ?cb s"
    have "th_inv (thr ?s1)" using th by (simp add: sys_updates th_inv_def)
    note g = get_task_frame [OF this]
    obtain p where "smart_routine_wait fl 0 p w s = Inr s'" using Wait en r by (cases "sy_pc s 0") auto
    then obtain c s2 where s2: "sys_get_task fl 0 ?s1 = Inr (c, s2)"
      "switch_to 0 0 (After_yield p) (case c of None \<Rightarrow> main_of s2 | Some c \<Rightarrow> c) s2 = Inr s'"
      by (auto simp: smart_routine_wait_def th_yield_def bind_res_Inr_iff split: option.splits)
    from switch_to_frame [OF s2(2)] g [OF s2(1)] Wait show ?thesis by (simp add: sys_updates)
  next
    case (Return t)
    then obtain p where p: "sy_pc s 0 = In_user p" "t = 0" using en by (cases "sy_pc s 0") auto
    then have "sy_frames s p = (0, cur_of s)" using sched_invD(7) [OF inv] by (simp add: user_frame_def)
    then show ?thesis using r Return p by (auto simp: coro_runner_end_def sys_updates)
  next
    case (Start t)
    then have "smart_routine_start (Some 0) s = Inr s'" using en r by (auto split: pc.splits)
    then have res: "smart_routine_resume (Some 0) (sy_next s) (s\<lparr>sy_coros := (sy_coros s)(sy_next s \<mapsto> \<lparr>co_fn = True, co_fcontext = Some (Entry (sy_next s))\<rparr>),
        sy_next := Suc (sy_next s)\<rparr>) = Inr s'" by (simp add: smart_routine_start_def Let_def)
    have "sy_waiting s' = sy_waiting s" "delay_of s' = delay_of s"
      using resume_frame [OF _ _ res] th by simp_all
    then show ?thesis using Start by (simp add: announced_refl)
  next
    case Start_outside
    then show ?thesis using r th by (auto simp: smart_routine_start_def smart_routine_resume_def Let_def intro!: announced_refl)
  next
    case (Io_done c)
    then show ?thesis using r by (auto simp: resume_io_coro_def smart_routine_resume_def)
  qed
qed

text \<open>Waiting and returning drop what was announced before.\<close>

lemma wait_live:
  assumes inv: "sched_inv s" and pc: "sy_pc s 0 = In_user p" and r: "smart_routine_wait fl 0 p w s = Inr s'"
  shows "live s' \<subseteq> set_mset (ready_tasks s + mset (sy_waiting s)) \<union> {cur_of s, main_of s}"
proof -
  note D = sched_invD [OF inv]
  have p: "p = cur_of s" using D(7) pc by simp
  let ?s0 = "set_delay 0 (Some (wait_callback w p)) s"
  have "pending (Some (wait_callback w p)) = {#p#}" by (cases w) simp_all
  then have "tokens ?s0 = ready_tasks s + mset (sy_waiting s) + {#p#}"
    by (simp add: tokens_def ready_tasks_def sys_updates)
  then have l0: "live ?s0 \<subseteq> set_mset (ready_tasks s + mset (sy_waiting s)) \<union> {cur_of s, main_of s}"
    using p by (auto simp: live_def sys_updates)
  obtain r sg c where g: "sys_get_task fl 0 ?s0 = Inr (r, sg)"
    and sw: "switch_to 0 0 (After_yield p) c sg = Inr s'" "r = Some c \<or> c = main_of sg"
    using assms(3) p by (auto simp: smart_routine_wait_def th_yield_def bind_res_Inr_iff split: option.splits)
  have "th_inv (thr ?s0)" using D(1) by (simp add: set_delay_keeps)
  note G = get_task_keeps [OF this g]
  have "c \<in> live ?s0" using sw(2) G(5,7) by (auto simp: live_def)
  then show ?thesis using switch_to_keeps(2) [OF sw(1)] G(2) l0 by blast
qed

lemma overwrite_live:
  assumes inv: "sched_inv s" and en: "enabled 1 ev s" and r: "perform fl ev s = Inr s'"
    and ev: "(\<exists>t w. ev = Wait t w) \<or> (\<exists>t. ev = Return t)"
  shows "live s' \<subseteq> set_mset (ready_tasks s + mset (sy_waiting s)) \<union> {cur_of s, main_of s}"
  using ev
proof (elim disjE exE)
  fix t w assume "ev = Wait t w"
  with en r wait_live [OF inv] show ?thesis by (cases "sy_pc s 0") auto
next
  fix t assume "ev = Return t"
  then obtain p where p: "sy_pc s 0 = In_user p" "ev = Return 0" using en by (cases "sy_pc s 0") auto
  then have "sy_frames s p = (0, cur_of s)" using sched_invD(7) [OF inv] by (simp add: user_frame_def)
  then show ?thesis using r p by (auto simp: coro_runner_end_def sys_updates live_def tokens_def ready_tasks_def)
qed

section \<open>The invariant\<close>

text \<open>
  \<open>calls_link\<close>: a call whose item is not enabled yet is as its coroutine began it, and no two calls are
  on one descriptor. \<open>sys_link\<close>: the coroutine of a call is not deleted and will not be; the item
  which the deferred callback will enable is there; a coroutine whose item is not enabled is
  announced by the deferred callback or will never run again. \<open>loop_link\<close>: the loop is where a trace of
  the theory \<open>Event_Io\<close> leads, and the waiting calls are those of the waiting coroutines.
\<close>

definition calls_link :: "(fd \<Rightarrow> bool) \<Rightarrow> program \<Rightarrow> bool" where
  "calls_link pollable p \<longleftrightarrow>
     (\<forall>c x. pg_call p c = Some x \<longrightarrow> ctx_coro x = c \<and> ctx_item x = c \<and> pollable (ctx_fd x) \<and> ctx_ok x \<and> il_ctx (pg_loop p) c = None) \<and>
     (\<forall>c d x y. calls p c = Some x \<longrightarrow> calls p d = Some y \<longrightarrow> ctx_fd x = ctx_fd y \<longrightarrow> c = d)"

definition sys_link :: "sys \<Rightarrow> program \<Rightarrow> bool" where
  "sys_link s p \<longleftrightarrow>
     (\<forall>c \<in> dom (calls p). sy_coros s c \<noteq> None \<and> delay_of s \<noteq> Some (Destroy_coro c)) \<and>
     (\<forall>c. enabling (delay_of s) = Some c \<longrightarrow> c \<in> dom (pg_call p)) \<and>
     (\<forall>c \<in> dom (pg_call p). enabling (delay_of s) = Some c \<or> c \<notin> live s)"

definition traced :: "epoll_ctl \<Rightarrow> nat \<Rightarrow> (fd \<Rightarrow> bool) \<Rightarrow> io_loop \<Rightarrow> served \<Rightarrow> bool" where
  "traced ctl N pollable l S \<longleftrightarrow> (\<exists>evs. sv_run N pollable evs served_start S \<and> io_run ctl evs (io_start N) = Inr l)"

definition loop_link :: "epoll_ctl \<Rightarrow> nat \<Rightarrow> (fd \<Rightarrow> bool) \<Rightarrow> sys \<Rightarrow> program \<Rightarrow> bool" where
  "loop_link ctl N pollable s p \<longleftrightarrow> (\<exists>S. traced ctl N pollable (pg_loop p) S \<and> io_loop_rel N (pg_loop p) S \<and> calls_ok S \<and> sv_wait S = set (sy_waiting s))"

definition prog_inv :: "epoll_ctl \<Rightarrow> nat \<Rightarrow> (fd \<Rightarrow> bool) \<Rightarrow> program \<Rightarrow> bool" where
  "prog_inv ctl N pollable p \<longleftrightarrow> sched_inv (pg_sys p) \<and> calls_link pollable p \<and> sys_link (pg_sys p) p \<and> loop_link ctl N pollable (pg_sys p) p"

lemma traced_step:
  assumes "traced ctl N pollable l S" "allowed N pollable ev S" "sv_do ev S = Inr S'" "io_do ctl ev l = Inr l'"
  shows "traced ctl N pollable l' S'"
proof -
  obtain evs where "sv_run N pollable evs served_start S" "io_run ctl evs (io_start N) = Inr l"
    using assms(1) by (auto simp: traced_def)
  moreover have "sv_run N pollable [ev] S S'" using sv_cons [OF assms(2,3) sv_nil] .
  moreover have "io_run ctl (evs @ [ev]) l0 = bind_res (io_run ctl evs l0) (io_do ctl ev)" for l0
    by (induction evs arbitrary: l0) (auto simp: bind_res_def fun_eq_iff split: sum.splits)
  ultimately show ?thesis using assms(4) unfolding traced_def by (intro exI [of _ "evs @ [ev]"]) (auto simp: sv_run_append)
qed

text \<open>What a step of the program is for the event loop, and that the loop makes these steps.\<close>

definition enabled_by :: "flags \<Rightarrow> event \<Rightarrow> program \<Rightarrow> coro list" where
  "enabled_by fl ev p = (case perform fl ev (pg_sys p) of Inl u \<Rightarrow> []
     | Inr s \<Rightarrow> drop (length (sy_waiting (pg_sys p))) (sy_waiting s))"

fun io_events :: "flags \<Rightarrow> prog_event \<Rightarrow> program \<Rightarrow> io_event list" where
  "io_events fl (Sched ev) p = map (\<lambda>c. Open c (the (pg_call p c))) (enabled_by fl ev p)"
| "io_events fl (Begin t x) p = []"
| "io_events fl (Poll pes ans) p = [Round pes ans]"
| "io_events fl (Finish t) p = [Close (current t p)]"

definition loop_moves :: "nat \<Rightarrow> (fd \<Rightarrow> bool) \<Rightarrow> io_loop \<Rightarrow> io_event list \<Rightarrow> io_loop \<Rightarrow> bool" where
  "loop_moves N pollable l evs l' \<longleftrightarrow>
     (\<exists>S S'. io_loop_rel N l S \<and> one_call_each S \<and> sv_run N pollable evs S S' \<and> io_loop_rel N l' S')"

lemma calls_ok_one: "calls_ok S \<Longrightarrow> one_call_each S"
  by (auto simp: calls_ok_def one_call_each_def)

lemma loop_moves_one:
  assumes "io_loop_rel N l S" "calls_ok S" "allowed N pollable ev S" "sv_do ev S = Inr S'" "io_loop_rel N l' S'"
  shows "loop_moves N pollable l [ev] l'"
  unfolding loop_moves_def using assms calls_ok_one sv_cons [OF assms(3,4) sv_nil] by blast

lemma loop_stays: "prog_inv ctl N pollable p \<Longrightarrow> loop_moves N pollable (pg_loop p) [] (pg_loop p)"
  unfolding loop_moves_def prog_inv_def loop_link_def using calls_ok_one sv_nil by blast

lemma prog_start_inv:
  assumes "ucast (FLAGS_task_queue_length fl) \<noteq> (0 :: uint32)"
  shows "prog_inv ctl N pollable (prog_start fl N)"
proof -
  have "delay_of (sys_init fl 1) = None" "sy_waiting (sys_init fl 1) = []" by (simp_all add: sys_init_def SmartThread_new_def)
  then show ?thesis
    using sys_init_inv [OF assms] start_rel [of N]
    by (auto simp: prog_inv_def prog_start_def calls_link_def sys_link_def loop_link_def calls_def io_start_def served_start_def
        calls_ok_def traced_def intro!: exI [of _ served_start] exI [of _ "[]"] sv_nil)
qed

lemma dom_pg_call: "dom (pg_call p) \<subseteq> dom (calls p)"
  by (auto simp: calls_def)

lemma loop_rel_ctx: "io_loop_rel N l S \<Longrightarrow> il_ctx l = sv_ctx S" "io_loop_rel N l S \<Longrightarrow> il_resumed l = sv_resumed S"
  by (auto simp: io_loop_rel_def io_rel_def)

lemma sys_linkD:
  assumes "sys_link s p"
  shows "c \<in> dom (calls p) \<Longrightarrow> sy_coros s c \<noteq> None" "c \<in> dom (calls p) \<Longrightarrow> delay_of s \<noteq> Some (Destroy_coro c)"
    "enabling (delay_of s) = Some c \<Longrightarrow> c \<in> dom (pg_call p)" "c \<in> dom (pg_call p) \<Longrightarrow> enabling (delay_of s) \<noteq> Some c \<Longrightarrow> c \<notin> live s"
  using assms unfolding sys_link_def by blast+

lemma call_not_current:
  assumes "sched_inv s" "sys_link s p" "c \<in> dom (pg_call p)"
  shows "c \<noteq> cur_of s"
proof (cases "enabling (delay_of s) = Some c")
  case True
  then have "c \<in># tokens s" by (cases "delay_of s" rule: enabling.cases) (auto simp: tokens_def)
  then show ?thesis using sched_invD(4) [OF assms(1)] by blast
next
  case False
  then show ?thesis using assms(2,3) by (auto simp: sys_link_def live_def)
qed

lemma call_alive:
  assumes "sched_inv s" "sys_link s p" "c \<in> dom (calls p)"
  shows "c < sy_next s"
  using sys_linkD(1) [OF assms(2,3)] sched_invD(8) [OF assms(1)] by (meson not_le)

lemma call_kept:
  assumes "sched_inv s" "sys_link s p" "keeps_dead s s'"
  shows "c \<in> dom (calls p) \<Longrightarrow> sy_coros s' c \<noteq> None" "c \<in> dom (calls p) \<Longrightarrow> c \<notin> live s \<Longrightarrow> c \<notin> live s'"
proof -
  assume c: "c \<in> dom (calls p)"
  have "c \<in> dom (sy_coros s) - {d. delay_of s = Some (Destroy_coro d)}" using sys_linkD(1,2) [OF assms(2) c] by blast
  then show "sy_coros s' c \<noteq> None" using assms(3) unfolding keeps_dead_def by blast
  show "c \<notin> live s'" if "c \<notin> live s" using assms(3) call_alive [OF assms(1,2) c] that unfolding keeps_dead_def by (meson not_le)
qed

text \<open>A scheduler step that enables nothing.\<close>

lemma sys_link_same:
  assumes "sched_inv s" "sys_link s p" "keeps_dead s s'" "delay_of s' = delay_of s \<or> delay_of s' = None \<and> enabling (delay_of s) = None"
  shows "sys_link s' p"
proof -
  have en: "enabling (delay_of s') = Some c \<longleftrightarrow> enabling (delay_of s) = Some c" for c using assms(4) by auto
  have "c \<notin> live s'" if "c \<in> dom (pg_call p)" "enabling (delay_of s) \<noteq> Some c" for c
    using call_kept(2) [OF assms(1-3)] sys_linkD(4) [OF assms(2) that] that(1) dom_pg_call by blast
  moreover have "delay_of s' \<noteq> Some (Destroy_coro c)" if "c \<in> dom (calls p)" for c
    using sys_linkD(2) [OF assms(2) that] assms(4) by auto
  ultimately show ?thesis
    using call_kept(1) [OF assms(1-3)] sys_linkD(3) [OF assms(2)] unfolding sys_link_def en by blast
qed

lemma overwrite_dead:
  assumes "sched_inv s" "sys_link s p" "keeps_dead s s'" "c \<in> dom (pg_call p)"
    and "live s' \<subseteq> set_mset (ready_tasks s + mset (sy_waiting s)) \<union> {cur_of s, main_of s}"
  shows "c \<notin> live s'"
proof (cases "enabling (delay_of s) = Some c")
  case True
  then have p: "pending (delay_of s) = {#c#}" by (cases "delay_of s" rule: enabling.cases) auto
  then have "c \<in># tokens s" "c \<notin># ready_tasks s + mset (sy_waiting s)" using sched_invD(2) [OF assms(1)] by (auto simp: tokens_def)
  then show ?thesis using assms(5) sched_invD(4) [OF assms(1)] by blast
next
  case False
  then have "c \<notin> live s" using sys_linkD(4) [OF assms(2,4)] by blast
  then show ?thesis using call_kept(2) [OF assms(1-3)] dom_pg_call assms(4) by blast
qed

lemma sys_link_overwrite:
  assumes "sched_inv s" "sys_link s p" "keeps_dead s s'" "delay_of s' = Some cb" "enabling (Some cb) = None"
    and "\<forall>c. cb = Destroy_coro c \<longrightarrow> c \<notin> dom (calls p)"
    and "live s' \<subseteq> set_mset (ready_tasks s + mset (sy_waiting s)) \<union> {cur_of s, main_of s}"
  shows "sys_link s' p"
proof -
  have "c \<notin> live s'" if "c \<in> dom (pg_call p)" for c using overwrite_dead [OF assms(1-3) that assms(7)] .
  moreover have "sy_coros s' c \<noteq> None" if "c \<in> dom (calls p)" for c using call_kept(1) [OF assms(1-3) that] .
  moreover have "enabling (delay_of s') = None" using assms(4,5) by simp
  moreover have "delay_of s' \<noteq> Some (Destroy_coro c)" if "c \<in> dom (calls p)" for c using assms(4,6) that by auto
  ultimately show ?thesis unfolding sys_link_def by simp
qed

text \<open>A scheduler step that enables the item of a call: the call moves from the stack to the loop.\<close>

lemma enable_link:
  assumes "epoll_ctl_spec ctl pollable" "calls_link pollable p" "io_loop_rel N (pg_loop p) S" "calls_ok S" "pg_call p c = Some x"
  shows "allowed N pollable (Open c x) S \<and> (\<exists>l. io_do ctl (Open c x) (pg_loop p) = Inr l \<and>
    io_loop_rel N l (S\<lparr>sv_ctx := (sv_ctx S)(c \<mapsto> x), sv_wait := insert c (sv_wait S)\<rparr>) \<and> il_ctx l = (il_ctx (pg_loop p))(c \<mapsto> x))"
proof -
  have x: "ctx_coro x = c" "ctx_item x = c" "pollable (ctx_fd x)" "il_ctx (pg_loop p) c = None"
    using assms(2,5) by (auto simp: calls_link_def)
  have l: "il_ctx (pg_loop p) = sv_ctx S" by (rule loop_rel_ctx [OF assms(3)])
  have cx: "calls p c = Some x" using assms(5) x(4) by (simp add: calls_def map_add_def)
  have other: "ctx_coro y \<noteq> c \<and> ctx_fd y \<noteq> ctx_fd x" if y: "sv_ctx S b = Some y" for b y
  proof -
    have b: "b \<noteq> c" using x(4) y l by auto
    have "calls p b = Some y" using y l by (simp add: calls_def)
    then have "ctx_fd y \<noteq> ctx_fd x" using assms(2) cx b unfolding calls_link_def by metis
    moreover have "ctx_coro y = b" using assms(4) y by (simp add: calls_ok_def)
    ultimately show ?thesis using b by simp
  qed
  have al: "allowed N pollable (Open c x) S" using x l other by auto
  from open_rel [OF assms(1,3) al] obtain l' where
    l': "io_do ctl (Open c x) (pg_loop p) = Inr l'"
      "io_loop_rel N l' (S\<lparr>sv_ctx := (sv_ctx S)(c \<mapsto> x), sv_wait := insert c (sv_wait S)\<rparr>)" by blast
  then show ?thesis using loop_rel_ctx(1) [OF l'(2)] l al by auto
qed

lemma calls_move:
  assumes "il_ctx l = (il_ctx (pg_loop p))(c \<mapsto> x)" "pg_call p c = Some x" "il_ctx (pg_loop p) c = None"
  shows "calls (p\<lparr>pg_sys := s, pg_loop := l, pg_call := (pg_call p)(c := None)\<rparr>) = calls p"
  using assms by (auto simp: calls_def map_add_def fun_eq_iff split: option.splits)

definition follows :: "nat \<Rightarrow> (fd \<Rightarrow> bool) \<Rightarrow> flags \<Rightarrow> event \<Rightarrow> program \<Rightarrow> program \<Rightarrow> bool" where
  "follows N pollable fl ev p p' \<longleftrightarrow> loop_moves N pollable (pg_loop p) (io_events fl (Sched ev) p) (pg_loop p') \<and>
     length (enabled_by fl ev p) \<le> 1 \<and>
     (\<forall>d. pg_call p' d = (if d \<in> set (enabled_by fl ev p) then None else pg_call p d))"

lemma announced_inv:
  assumes "epoll_ctl_spec ctl pollable" "prog_inv ctl N pollable p"
    and "perform fl ev (pg_sys p) = Inr s" "sched_inv s" "keeps_dead (pg_sys p) s" "announced (pg_sys p) s"
  shows "\<exists>p'. sched_do ctl fl ev p = Inr p' \<and> prog_inv ctl N pollable p' \<and> pg_sys p' = s \<and> follows N pollable fl ev p p'"
proof -
  have inv: "sched_inv (pg_sys p)" "calls_link pollable p" "sys_link (pg_sys p) p" using assms(2) by (simp_all add: prog_inv_def)
  obtain S where S: "io_loop_rel N (pg_loop p) S" "calls_ok S" "sv_wait S = set (sy_waiting (pg_sys p))"
      "traced ctl N pollable (pg_loop p) S"
    using assms(2) by (auto simp: prog_inv_def loop_link_def)
  consider (same) "sy_waiting s = sy_waiting (pg_sys p)"
      "delay_of s = delay_of (pg_sys p) \<or> delay_of s = None \<and> enabling (delay_of (pg_sys p)) = None"
    | (enable) c where "enabling (delay_of (pg_sys p)) = Some c" "sy_waiting s = sy_waiting (pg_sys p) @ [c]" "delay_of s = None"
    using assms(6) unfolding announced_def by blast
  then show ?thesis
  proof cases
    case same
    have "sys_link s p" by (rule sys_link_same [OF inv(1,3) assms(5) same(2)])
    then have "prog_inv ctl N pollable (p\<lparr>pg_sys := s\<rparr>)"
      using inv(2) S same(1) assms(4) by (auto simp: prog_inv_def loop_link_def calls_link_def sys_link_def calls_def)
    moreover have "enabled_by fl ev p = []" using assms(3) same(1) by (simp add: enabled_by_def)
    ultimately show ?thesis using assms(3) same(1) loop_stays [OF assms(2)] by (simp add: sched_do_def follows_def)
  next
    case enable
    obtain x where x: "pg_call p c = Some x" using sys_linkD(3) [OF inv(3) enable(1)] by blast
    have xx: "il_ctx (pg_loop p) c = None" "ctx_ok x" "ctx_coro x = c" using inv(2) x by (auto simp: calls_link_def)
    have al: "allowed N pollable (Open c x) S" using enable_link [OF assms(1) inv(2) S(1,2) x] by blast
    obtain l where l: "io_do ctl (Open c x) (pg_loop p) = Inr l"
      "io_loop_rel N l (S\<lparr>sv_ctx := (sv_ctx S)(c \<mapsto> x), sv_wait := insert c (sv_wait S)\<rparr>)" "il_ctx l = (il_ctx (pg_loop p))(c \<mapsto> x)"
      using enable_link [OF assms(1) inv(2) S(1,2) x] by blast
    let ?p = "p\<lparr>pg_sys := s, pg_loop := l, pg_call := (pg_call p)(c := None)\<rparr>"
    have cs: "calls ?p = calls p" by (rule calls_move [OF l(3) x xx(1)])
    have "calls_link pollable ?p" using inv(2) l(3) unfolding calls_link_def cs by auto
    moreover have "sys_link s ?p"
    proof -
      have "d \<notin> live s" if "d \<in> dom (pg_call p)" "d \<noteq> c" for d
        using call_kept(2) [OF inv(1,3) assms(5)] sys_linkD(4) [OF inv(3) that(1)] enable(1) that dom_pg_call by fastforce
      then show ?thesis using call_kept(1) [OF inv(1,3) assms(5)] enable(3) unfolding sys_link_def cs by auto
    qed
    moreover have "loop_link ctl N pollable s ?p"
      using l(2) S(2,3) enable(2) xx traced_step [OF S(4) al _ l(1)] unfolding loop_link_def
      by (intro exI [of _ "S\<lparr>sv_ctx := (sv_ctx S)(c \<mapsto> x), sv_wait := insert c (sv_wait S)\<rparr>"]) (auto simp: calls_ok_def)
    ultimately have "prog_inv ctl N pollable ?p" using assms(4) by (simp add: prog_inv_def)
    moreover have "enabled_by fl ev p = [c]" using assms(3) enable(2) by (simp add: enabled_by_def)
    moreover have "loop_moves N pollable (pg_loop p) [Open c x] l" by (rule loop_moves_one [OF S(1,2) al _ l(2)]) simp
    ultimately show ?thesis using assms(3) enable(2) x l(1) by (simp add: sched_do_def follows_def)
  qed
qed

text \<open>A step that sets the deferred callback.\<close>

lemma overwrite_inv:
  assumes "prog_inv ctl N pollable p" "perform fl ev (pg_sys p) = Inr s" "sched_inv s" "sy_waiting s = sy_waiting (pg_sys p)" "sys_link s p"
  shows "\<exists>p'. sched_do ctl fl ev p = Inr p' \<and> prog_inv ctl N pollable p' \<and> pg_sys p' = s \<and> follows N pollable fl ev p p'"
proof -
  have "prog_inv ctl N pollable (p\<lparr>pg_sys := s\<rparr>)"
    using assms by (auto simp: prog_inv_def loop_link_def calls_link_def sys_link_def calls_def)
  moreover have "enabled_by fl ev p = []" using assms(2,4) by (simp add: enabled_by_def)
  ultimately show ?thesis using assms(2,4) loop_stays [OF assms(1)] by (simp add: sched_do_def follows_def)
qed

lemma current_0: "current 0 p = cur_of (pg_sys p)"
  by (simp add: current_def)

lemma outside_calls_current:
  assumes "prog_inv ctl N pollable p" "outside_calls 0 p"
  shows "cur_of (pg_sys p) \<notin> dom (calls p)"
proof -
  have "cur_of (pg_sys p) \<notin> dom (pg_call p)" using call_not_current assms(1) unfolding prog_inv_def by blast
  then show ?thesis using assms(2) by (auto simp: outside_calls_def current_0 calls_def)
qed

lemma sched_inv_step:
  assumes "epoll_ctl_spec ctl pollable" "prog_inv ctl N pollable p" "prog_enabled N pollable (Sched ev) p"
  shows "\<exists>p'. sched_do ctl fl ev p = Inr p' \<and> prog_inv ctl N pollable p' \<and> sched_step fl (pg_sys p) (pg_sys p') \<and>
    follows N pollable fl ev p p'"
proof -
  have en: "enabled 1 ev (pg_sys p)" using assms(3) by simp
  have inv: "sched_inv (pg_sys p)" "sys_link (pg_sys p) p" using assms(2) by (simp_all add: prog_inv_def)
  obtain s where s: "perform fl ev (pg_sys p) = Inr s" "sched_inv s" using perform_inv [OF inv(1) en] by blast
  have step: "sched_step fl (pg_sys p) s" using en s(1) by (metis sched_step_def sys_step.event)
  note k = perform_keeps [OF inv(1) en s(1)]
  note f = perform_frame [OF inv(1) en s(1)]
  have "\<exists>p'. sched_do ctl fl ev p = Inr p' \<and> prog_inv ctl N pollable p' \<and> pg_sys p' = s \<and> follows N pollable fl ev p p'"
  proof (cases ev)
    case (Wait t w)
    have "sys_link s p"
      by (rule sys_link_overwrite [OF inv k, where cb = "wait_callback w (cur_of (pg_sys p))"])
        (use f Wait assms(3) overwrite_live [OF inv(1) en s(1)] in auto)
    then show ?thesis using overwrite_inv [OF assms(2) s(1,2)] f Wait by simp
  next
    case (Return t)
    then have t: "t = 0" "outside_calls t p" using assms(3) by auto
    have "sys_link s p"
      by (rule sys_link_overwrite [OF inv k, where cb = "Destroy_coro (cur_of (pg_sys p))"])
        (use f Return t outside_calls_current [OF assms(2)] overwrite_live [OF inv(1) en s(1)] in auto)
    then show ?thesis using overwrite_inv [OF assms(2) s(1,2)] f Return by simp
  qed (use announced_inv [OF assms(1,2) s k] f assms(3) in auto)
  with step show ?thesis by auto
qed

lemma set_sys_links:
  "calls (p\<lparr>pg_sys := s\<rparr>) = calls p" "calls_link pollable (p\<lparr>pg_sys := s\<rparr>) = calls_link pollable p"
  "sys_link s' (p\<lparr>pg_sys := s\<rparr>) = sys_link s' p" "loop_link ctl N pollable s' (p\<lparr>pg_sys := s\<rparr>) = loop_link ctl N pollable s' p"
  by (simp_all add: calls_link_def sys_link_def loop_link_def calls_def)

lemma calls_linkI:
  assumes "\<And>c x. pg_call p c = Some x \<Longrightarrow>
      ctx_coro x = c \<and> ctx_item x = c \<and> pollable (ctx_fd x) \<and> ctx_ok x \<and> il_ctx (pg_loop p) c = None"
    and "\<And>c d x y. calls p c = Some x \<Longrightarrow> calls p d = Some y \<Longrightarrow> ctx_fd x = ctx_fd y \<Longrightarrow> c = d"
  shows "calls_link pollable p"
  using assms unfolding calls_link_def by blast

lemma calls_linkD:
  assumes "calls_link pollable p"
  shows "pg_call p c = Some x \<Longrightarrow>
      ctx_coro x = c \<and> ctx_item x = c \<and> pollable (ctx_fd x) \<and> ctx_ok x \<and> il_ctx (pg_loop p) c = None"
    and "calls p c = Some x \<Longrightarrow> calls p d = Some y \<Longrightarrow> ctx_fd x = ctx_fd y \<Longrightarrow> c = d"
  using assms unfolding calls_link_def by blast+

text \<open>A coroutine begins a call.\<close>

lemma begin_inv_step:
  assumes "prog_inv ctl N pollable p" "prog_enabled N pollable (Begin t x) p"
  shows "\<exists>p'. prog_do ctl fl (Begin t x) p = Inr p' \<and> prog_inv ctl N pollable p' \<and> sched_step fl (pg_sys p) (pg_sys p') \<and>
    pg_loop p' = pg_loop p \<and> pg_call p' = (pg_call p)(cur_of (pg_sys p) \<mapsto> x)"
proof -
  let ?s = "pg_sys p" let ?c = "cur_of (pg_sys p)" let ?p = "p\<lparr>pg_call := (pg_call p)(?c \<mapsto> x)\<rparr>"
  define w where "w = (if reads x then By_read else By_write)"
  have t: "t = 0" using assms(2) by simp
  have en: "enabled 1 (Wait 0 w) ?s" using assms(2) by (auto simp: t)
  have inv: "sched_inv ?s" "sys_link ?s p" "calls_link pollable p" "loop_link ctl N pollable ?s p" using assms(1) by (simp_all add: prog_inv_def)
  have x: "ctx_coro x = ?c" "ctx_item x = ?c" "pollable (ctx_fd x)" "ctx_ok x" "il_ctx (pg_loop p) ?c = None"
      "\<And>b. b < sy_next ?s \<Longrightarrow> case calls p b of None \<Rightarrow> True | Some y \<Rightarrow> ctx_fd y \<noteq> ctx_fd x"
    using assms(2) by (auto simp: t current_0 outside_calls_def list_all_iff)
  have free: "ctx_fd y \<noteq> ctx_fd x" if "calls p b = Some y" for b y
    using x(6) [of b] call_alive [OF inv(1,2), of b] that by (auto simp: dom_def)
  have new: "?c \<notin> dom (calls p)" using outside_calls_current [OF assms(1)] x(5) by (simp add: outside_calls_def current_0)
  have cs: "calls ?p = (calls p)(?c \<mapsto> x)" using x(5) by (auto simp: calls_def map_add_def fun_eq_iff split: option.splits)
  obtain s where s: "perform fl (Wait 0 w) ?s = Inr s" "sched_inv s" using perform_inv [OF inv(1) en] by blast
  note k = perform_keeps [OF inv(1) en s(1)]
  have f: "sy_waiting s = sy_waiting ?s" "delay_of s = Some (wait_callback w ?c)" using perform_frame [OF inv(1) en s(1)] by simp_all
  have e: "enabling (delay_of s) = Some ?c" "\<And>d. delay_of s \<noteq> Some (Destroy_coro d)" using f(2) by (simp_all add: w_def)
  obtain pc where "sy_pc ?s 0 = In_user pc" using en by (cases "sy_pc ?s 0") auto
  then have "delay_of ?s \<noteq> Some (Destroy_coro ?c)" using sched_invD(6) [OF inv(1)] by (auto simp: destroy_ok_def at_loop_def)
  then have "sy_coros s ?c \<noteq> None" using k sched_invD(9) [OF inv(1)] unfolding keeps_dead_def by blast
  moreover have "sy_coros s c \<noteq> None" if "c \<in> dom (calls p)" for c using call_kept(1) [OF inv(1,2) k that] .
  moreover have "c \<notin> live s" if "c \<in> dom (pg_call p)" for c
    using overwrite_dead [OF inv(1,2) k that overwrite_live [OF inv(1) en s(1)]] by blast
  ultimately have sl: "sys_link s ?p" using e unfolding sys_link_def cs by auto
  have old: "b \<noteq> ?c \<and> ctx_fd z \<noteq> ctx_fd x" if "calls p b = Some z" for b z using that free new by blast
  have fds: "a = b" if "((calls p)(?c \<mapsto> x)) a = Some y" "((calls p)(?c \<mapsto> x)) b = Some z" "ctx_fd y = ctx_fd z" for a b y z
  proof (cases "a = ?c \<or> b = ?c")
    case True
    then show ?thesis using that old [of a y] old [of b z] by (cases "a = ?c"; cases "b = ?c") simp_all
  next
    case False
    then show ?thesis using that calls_linkD(2) [OF inv(3)] by simp
  qed
  have "ctx_coro y = a \<and> ctx_item y = a \<and> pollable (ctx_fd y) \<and> ctx_ok y \<and> il_ctx (pg_loop p) a = None"
    if "((pg_call p)(?c \<mapsto> x)) a = Some y" for a y
    using that calls_linkD(1) [OF inv(3), of a y] x(1-5) by (cases "a = ?c") simp_all
  then have "calls_link pollable ?p" using fds unfolding cs [symmetric] by (intro calls_linkI) simp_all
  moreover have "loop_link ctl N pollable s ?p" using inv(4) f(1) by (simp add: loop_link_def)
  ultimately have "prog_inv ctl N pollable (?p\<lparr>pg_sys := s\<rparr>)"
    using s(2) sl by (simp add: prog_inv_def set_sys_links)
  moreover have "prog_do ctl fl (Begin t x) p = Inr (?p\<lparr>pg_sys := s\<rparr>)"
    using s(1) f(1) by (simp add: t current_0 sched_do_def w_def del: perform.simps)
  moreover have "sched_step fl ?s s" using en s(1) by (metis sched_step_def sys_step.event)
  ultimately show ?thesis by auto
qed

text \<open>A coroutine leaves its call.\<close>

lemma finish_inv_step:
  assumes "prog_inv ctl N pollable p" "prog_enabled N pollable (Finish t) p"
  shows "\<exists>p'. prog_do ctl fl (Finish t) p = Inr p' \<and> prog_inv ctl N pollable p' \<and> pg_sys p' = pg_sys p \<and>
    loop_moves N pollable (pg_loop p) (io_events fl (Finish t) p) (pg_loop p') \<and> pg_call p' = pg_call p"
proof -
  let ?s = "pg_sys p" let ?c = "cur_of (pg_sys p)"
  have t: "t = 0" "il_ctx (pg_loop p) ?c \<noteq> None" using assms(2) by (auto simp: outside_calls_def current_0)
  have inv: "sched_inv ?s" "sys_link ?s p" "calls_link pollable p" using assms(1) by (simp_all add: prog_inv_def)
  obtain S where S: "io_loop_rel N (pg_loop p) S" "calls_ok S" "sv_wait S = set (sy_waiting ?s)" "traced ctl N pollable (pg_loop p) S"
    using assms(1) by (auto simp: prog_inv_def loop_link_def)
  have "?c \<notin># tokens ?s" using sched_invD(4) [OF inv(1)] by blast
  then have nw: "?c \<notin> sv_wait S" using S(3) by (simp add: tokens_def)
  define l where "l = (close_item ?c (pg_loop p))\<lparr>il_ctx := (il_ctx (pg_loop p))(?c := None)\<rparr>"
  have al: "allowed N pollable (Close ?c) S" using t(2) nw loop_rel_ctx(1) [OF S(1)] by simp
  have "io_do ctl (Close ?c) (pg_loop p) = Inr l" by (simp add: l_def)
  note tr = traced_step [OF S(4) al _ this]
  from close_rel [OF S(1) al] have rel: "io_loop_rel N l (S\<lparr>sv_ctx := (sv_ctx S)(?c := None)\<rparr>)" by (simp add: l_def)
  let ?p = "p\<lparr>pg_loop := l\<rparr>"
  have "pg_call p ?c = None" using inv(3) t(2) unfolding calls_link_def by (cases "pg_call p ?c") auto
  then have cs: "calls ?p = (calls p)(?c := None)" by (auto simp: calls_def l_def map_add_def fun_eq_iff split: option.splits)
  have "calls_link pollable ?p" using inv(3) unfolding calls_link_def cs by (auto simp: l_def)
  moreover have "sys_link ?s ?p" using inv(2) unfolding sys_link_def cs by auto
  moreover have "loop_link ctl N pollable ?s ?p"
    using rel S(2,3) nw tr unfolding loop_link_def by (intro exI [of _ "S\<lparr>sv_ctx := (sv_ctx S)(?c := None)\<rparr>"]) (auto simp: calls_ok_def)
  ultimately have "prog_inv ctl N pollable ?p" using inv(1) by (simp add: prog_inv_def)
  moreover have "prog_do ctl fl (Finish t) p = Inr ?p" by (simp add: t(1) current_0 l_def)
  moreover have "loop_moves N pollable (pg_loop p) [Close ?c] l" by (rule loop_moves_one [OF S(1,2) al _ rel]) simp
  moreover have "current t p = ?c" by (simp add: t(1) current_0)
  ultimately show ?thesis by auto
qed

text \<open>A round of the event loop hands the coroutines it resumed to the task list.\<close>

lemma distinct_waiting: "sched_inv s \<Longrightarrow> distinct (sy_waiting s)"
proof -
  assume "sched_inv s"
  then have "uniq (tokens s)" by (rule sched_invD)
  then have "\<forall>c. count (mset (sy_waiting s)) c \<le> 1" unfolding uniq_def tokens_def by (metis add_leE count_union)
  then show "distinct (sy_waiting s)"
    by (metis count_mset distinct_count_atmost_1 count_eq_zero_iff le_Suc_eq le_zero_eq One_nat_def set_mset_mset)
qed

lemma resume_io_coro_tasks:
  assumes "sched_inv s" "c \<in> set (sy_waiting s)" "resume_io_coro c s = Inr s'"
  shows "sy_waiting s' = remove1 c (sy_waiting s)" "ready_tasks s' = add_mset c (ready_tasks s)" "delay_of s' = delay_of s"
  using assms(3) by (auto simp: resume_io_coro_def smart_routine_resume_def rt_push_task_def ready_tasks_def)

lemma resume_all_inv:
  assumes "sched_inv s" "sys_link s p" "distinct cs" "set cs \<subseteq> set (sy_waiting s)"
  shows "\<exists>s'. resume_all cs s = Inr s' \<and> sched_inv s' \<and> sys_link s' p \<and> (sched_step fl)\<^sup>*\<^sup>* s s' \<and>
    set (sy_waiting s') = set (sy_waiting s) - set cs \<and> ready_tasks s' = ready_tasks s + mset cs"
  using assms
proof (induction cs arbitrary: s)
  case (Cons c cs)
  have c: "c \<in> set (sy_waiting s)" "enabled 1 (Io_done c) s" using Cons.prems(4) by simp_all
  obtain s1 where s1: "resume_io_coro c s = Inr s1" "sched_inv s1" using resume_io_coro_inv [OF Cons.prems(1) c(1)] by blast
  have pf: "perform fl (Io_done c) s = Inr s1" using s1(1) by simp
  note r = resume_io_coro_tasks [OF Cons.prems(1) c(1) s1(1)]
  have link: "sys_link s1 p" by (rule sys_link_same [OF Cons.prems(1,2) perform_keeps [OF Cons.prems(1) c(2) pf]]) (simp add: r(3))
  have w: "set (sy_waiting s1) = set (sy_waiting s) - {c}" using r(1) distinct_waiting [OF Cons.prems(1)] by simp
  then have "set cs \<subseteq> set (sy_waiting s1)" using Cons.prems(3,4) by auto
  from Cons.IH [OF s1(2) link _ this] Cons.prems(3) obtain s' where
    s': "resume_all cs s1 = Inr s'" "sched_inv s'" "sys_link s' p" "(sched_step fl)\<^sup>*\<^sup>* s1 s'"
      "set (sy_waiting s') = set (sy_waiting s1) - set cs" "ready_tasks s' = ready_tasks s1 + mset cs" by auto
  have "sched_step fl s s1" using c(2) pf by (metis sched_step_def sys_step.event)
  then have "(sched_step fl)\<^sup>*\<^sup>* s s'" using s'(4) by (rule converse_rtranclp_into_rtranclp)
  with s1 s' w r show ?case by auto
qed simp

lemma waits_in_wait:
  assumes "io_loop_rel N l S" "waits_in l c"
  shows "c \<in> sv_wait S"
proof -
  obtain rv where "io_rel rv l S" using assms(1) by (auto simp: io_loop_rel_def)
  then have "ep_items l c = map_option (\<lambda>x. set_revents (rv c) (if c \<in> sv_wait S then call_item x c else idle_item (call_item x c))) (sv_ctx S c)"
    unfolding io_rel_def by blast
  then show ?thesis using assms(2) by (auto simp: waits_in_def idle_item_def split: if_splits option.splits)
qed

lemma calls_link_round:
  assumes "calls_link pollable p" "\<And>c. map_option ctx_key (il_ctx l c) = map_option ctx_key (il_ctx (pg_loop p) c)"
  shows "calls_link pollable (p\<lparr>pg_sys := s, pg_loop := l\<rparr>)" "dom (calls (p\<lparr>pg_sys := s, pg_loop := l\<rparr>)) = dom (calls p)"
proof -
  let ?p = "p\<lparr>pg_sys := s, pg_loop := l\<rparr>"
  have none: "il_ctx l c = None \<longleftrightarrow> il_ctx (pg_loop p) c = None" for c using assms(2) [of c] by (metis map_option_is_None)
  have key: "map_option ctx_key (calls ?p c) = map_option ctx_key (calls p c)" for c
    using assms(2) [of c] none [of c] by (auto simp: calls_def map_add_def split: option.splits)
  show "dom (calls ?p) = dom (calls p)" using key by (auto simp: dom_def) (metis map_option_is_None option.exhaust)+
  have fd: "\<exists>y. calls p c = Some y \<and> ctx_fd y = ctx_fd x" if "calls ?p c = Some x" for c x
    using key [of c] that by (cases "calls p c") (simp_all add: ctx_key_def)
  show "calls_link pollable ?p"
  proof (rule calls_linkI)
    fix c x assume "pg_call ?p c = Some x"
    then show "ctx_coro x = c \<and> ctx_item x = c \<and> pollable (ctx_fd x) \<and> ctx_ok x \<and> il_ctx (pg_loop ?p) c = None"
      using calls_linkD(1) [OF assms(1), of c x] none [of c] by simp
  next
    fix c d x y assume "calls ?p c = Some x" "calls ?p d = Some y" "ctx_fd x = ctx_fd y"
    then show "c = d" using fd [of c x] fd [of d y] calls_linkD(2) [OF assms(1)] by metis
  qed
qed

lemma poll_inv_step:
  assumes "epoll_ctl_spec ctl pollable" "prog_inv ctl N pollable p" "prog_enabled N pollable (Poll pes ans) p"
  shows "\<exists>p' cs. prog_do ctl fl (Poll pes ans) p = Inr p' \<and> prog_inv ctl N pollable p' \<and> (sched_step fl)\<^sup>*\<^sup>* (pg_sys p) (pg_sys p') \<and>
    il_resumed (pg_loop p') = il_resumed (pg_loop p) @ cs \<and> distinct cs \<and> set cs \<subseteq> set (map fst pes) \<and>
    set (sy_waiting (pg_sys p')) = set (sy_waiting (pg_sys p)) - set cs \<and>
    ready_tasks (pg_sys p') = ready_tasks (pg_sys p) + mset cs \<and>
    loop_moves N pollable (pg_loop p) (io_events fl (Poll pes ans) p) (pg_loop p') \<and> pg_call p' = pg_call p"
proof -
  let ?s = "pg_sys p" let ?l = "pg_loop p"
  have inv: "sched_inv ?s" "sys_link ?s p" "calls_link pollable p" using assms(2) by (simp_all add: prog_inv_def)
  obtain S where S: "io_loop_rel N ?l S" "calls_ok S" "sv_wait S = set (sy_waiting ?s)" "traced ctl N pollable ?l S"
    using assms(2) by (auto simp: prog_inv_def loop_link_def)
  have en: "pes \<noteq> []" "length pes \<le> N" "distinct (map fst pes)"
    "\<And>c e. (c, e) \<in> set pes \<Longrightarrow> c \<in> sv_wait S \<and> answer_ok ans c (the (sv_ctx S c))"
    using assms(3) waits_in_wait [OF S(1)] loop_rel_ctx(1) [OF S(1)] by auto
  have sub: "set (map fst pes) \<subseteq> sv_wait S" using en(4) by auto
  have "sy_coros ?s c \<noteq> None" if "(c, e) \<in> set pes" for c e
  proof -
    have "c \<in># tokens ?s" using en(4) [OF that] S(3) by (simp add: tokens_def)
    then show ?thesis using sched_invD(4) [OF inv(1)] by (auto simp: parked_def)
  qed
  then have alive: "\<not> (\<exists>(c, e) \<in> set pes. sy_coros ?s c = None)" by blast
  obtain S' cs where S': "serve ans pes S = Inr S'" "distinct cs" "set cs \<subseteq> set (map fst pes)" "sv_resumed S' = sv_resumed S @ cs"
    "sv_wait S' = sv_wait S - set cs" "calls_ok S'" "\<forall>b. map_option ctx_key (sv_ctx S' b) = map_option ctx_key (sv_ctx S b)"
    using serve_ok [OF S(2) en(3) sub, of ans] en(4) by blast
  obtain l where l: "eventloop_round (run_io ctl ans) (int (length pes)) 0 (map (\<lambda>(p, e). (e, Some p)) pes) ?l = Inr (None, l)"
    "io_loop_rel N l S'" using round_rel [OF assms(1) S(1) en(1,2,3) sub S'(1)] by blast
  note L = loop_rel_ctx [OF S(1)] loop_rel_ctx [OF l(2)]
  have tr: "traced ctl N pollable l S'"
    by (rule traced_step [OF S(4), of "Round pes ans"]) (use en(1-3) sub S'(1) l(1) in simp_all)
  have "set cs \<subseteq> set (sy_waiting ?s)" using S'(3) sub S(3) by auto
  from resume_all_inv [OF inv(1,2) S'(2) this, of fl] obtain s where
    s: "resume_all cs ?s = Inr s" "sched_inv s" "sys_link s p" "(sched_step fl)\<^sup>*\<^sup>* ?s s"
      "set (sy_waiting s) = set (sy_waiting ?s) - set cs" "ready_tasks s = ready_tasks ?s + mset cs" by blast
  let ?p = "p\<lparr>pg_sys := s, pg_loop := l\<rparr>"
  have run: "prog_do ctl fl (Poll pes ans) p = Inr ?p" using alive l(1) s(1) L(2,4) S'(4) by simp
  have "map_option ctx_key (il_ctx l c) = map_option ctx_key (il_ctx ?l c)" for c using S'(7) L(1,3) by simp
  note cl = calls_link_round [OF inv(3) this, of s]
  have "sys_link s ?p" using s(3) unfolding sys_link_def cl(2) by simp
  moreover have "loop_link ctl N pollable s ?p" using l(2) tr S'(5,6) s(5) S(3) unfolding loop_link_def by auto
  ultimately have "prog_inv ctl N pollable ?p" using cl(1) s(2) by (simp add: prog_inv_def)
  moreover have "loop_moves N pollable ?l [Round pes ans] l"
    by (rule loop_moves_one [OF S(1,2) _ _ l(2)]) (use en(1-3) sub S'(1) in simp_all)
  ultimately show ?thesis using run s S'(2,3,4) L(2,4) by (intro exI [of _ ?p] exI [of _ cs]) simp
qed

lemma prog_do_inv:
  assumes "epoll_ctl_spec ctl pollable" "prog_inv ctl N pollable p" "prog_enabled N pollable ev p"
  shows "\<exists>p'. prog_do ctl fl ev p = Inr p' \<and> prog_inv ctl N pollable p' \<and> (sched_step fl)\<^sup>*\<^sup>* (pg_sys p) (pg_sys p')"
proof (cases ev)
  case (Sched e)
  with sched_inv_step [OF assms(1,2), of e fl] assms(3) show ?thesis by (auto simp del: prog_enabled.simps)
next
  case (Begin t x)
  with begin_inv_step [OF assms(2), of t x fl] assms(3) show ?thesis by (auto simp del: prog_enabled.simps prog_do.simps)
next
  case (Poll pes ans)
  with poll_inv_step [OF assms(1,2), of pes ans fl] assms(3) show ?thesis by (auto simp del: prog_enabled.simps prog_do.simps)
next
  case (Finish t)
  with finish_inv_step [OF assms(2), of t fl] assms(3) show ?thesis by (auto simp del: prog_enabled.simps prog_do.simps)
qed

definition prog_init :: "epoll_ctl \<Rightarrow> flags \<Rightarrow> nat \<Rightarrow> (fd \<Rightarrow> bool) \<Rightarrow> program \<Rightarrow> bool" where
  "prog_init ctl fl N pollable p \<longleftrightarrow>
     epoll_ctl_spec ctl pollable \<and> ucast (FLAGS_task_queue_length fl) \<noteq> (0 :: uint32) \<and> p = prog_start fl N"

definition prog_next :: "epoll_ctl \<Rightarrow> flags \<Rightarrow> nat \<Rightarrow> (fd \<Rightarrow> bool) \<Rightarrow> program \<Rightarrow> program \<Rightarrow> bool" where
  "prog_next ctl fl N pollable p p' \<longleftrightarrow> prog_step ctl fl N pollable p (Inr p')"

definition prog_good :: "epoll_ctl \<Rightarrow> flags \<Rightarrow> nat \<Rightarrow> (fd \<Rightarrow> bool) \<Rightarrow> program \<Rightarrow> bool" where
  "prog_good ctl fl N pollable p \<longleftrightarrow> epoll_ctl_spec ctl pollable \<and> prog_inv ctl N pollable p \<and>
     reaches (sched_init fl) (sched_step fl) (pg_sys p)"

lemma reaches_star: "step\<^sup>*\<^sup>* s t \<Longrightarrow> reaches init step s \<Longrightarrow> reaches init step t"
  by (induction rule: rtranclp_induct) (auto intro: reaches.next_state)

interpretation prog: inv_system "prog_init ctl fl N pollable" "prog_next ctl fl N pollable" "prog_good ctl fl N pollable"
  for ctl fl N pollable
proof (unfold_locales, goal_cases)
  case (1 p)
  then have "sched_init fl (pg_sys p)" by (simp add: prog_init_def sched_init_def prog_start_def)
  then show ?case using 1 prog_start_inv by (auto simp: prog_good_def prog_init_def intro: reaches.start)
next
  case (2 p p')
  then obtain ev where "prog_enabled N pollable ev p" "prog_do ctl fl ev p = Inr p'"
    by (auto simp: prog_next_def prog_step_iff)
  with prog_do_inv [of ctl pollable N p ev fl] 2(1) show ?case by (auto simp: prog_good_def intro: reaches_star)
qed

abbreviation prog_reaches :: "epoll_ctl \<Rightarrow> flags \<Rightarrow> nat \<Rightarrow> (fd \<Rightarrow> bool) \<Rightarrow> program \<Rightarrow> bool" where
  "prog_reaches ctl fl N pollable \<equiv> reaches (prog_init ctl fl N pollable) (prog_next ctl fl N pollable)"

text \<open>A run of given events; \<open>None\<close> at an event that is not enabled.\<close>

fun prog_run :: "epoll_ctl \<Rightarrow> flags \<Rightarrow> nat \<Rightarrow> (fd \<Rightarrow> bool) \<Rightarrow> prog_event list \<Rightarrow> program \<Rightarrow> program res option" where
  "prog_run ctl fl N pollable [] p = Some (Inr p)"
| "prog_run ctl fl N pollable (ev # evs) p =
     (if prog_enabled N pollable ev p
      then (case prog_do ctl fl ev p of Inl u \<Rightarrow> Some (Inl u) | Inr p' \<Rightarrow> prog_run ctl fl N pollable evs p')
      else None)"

lemma prog_run_reaches:
  assumes "prog_reaches ctl fl N pollable p" "prog_run ctl fl N pollable evs p = Some (Inr p')"
  shows "prog_reaches ctl fl N pollable p'"
  using assms
proof (induction evs arbitrary: p)
  case (Cons ev evs)
  then obtain p1 where "prog_enabled N pollable ev p" "prog_do ctl fl ev p = Inr p1" "prog_run ctl fl N pollable evs p1 = Some (Inr p')"
    by (auto split: if_splits sum.splits)
  moreover from this have "prog_next ctl fl N pollable p p1"
    by (metis prog_next_def prog_step.prog_event)
  ultimately show ?case using Cons by (blast intro: reaches.next_state)
qed simp

abbreviation test_ctl :: epoll_ctl where
  "test_ctl \<equiv> epoll_ctl_map (\<lambda>_. True)"

text \<open>A coroutine accepts on descriptor 5 and the thread goes back to the main loop.\<close>

definition accepting :: "prog_event list" where
  "accepting = [Sched Start_outside, Sched (Wake 0), Sched (Loop 0), Sched (Land 0),
     Begin 0 (Accept_ctx \<lparr>ac_sockfd = 5, ac_coro = 1, ac_item = 1, ac_errno = 0, ac_ret = -1\<rparr>), Sched (Land 0)]"

definition accepted :: answers where
  "accepted = \<lparr>an_read = (\<lambda>_. (0, [], 0)), an_write = (\<lambda>_. (0, 0)), an_getsockopt = (\<lambda>_. (0, 0, 0)), an_accept = (\<lambda>_. (9, 0)),
     an_malloc = (\<lambda>_. True), an_flags = default_flags\<rparr>"

definition test_run :: "prog_event list \<Rightarrow> program res option" where
  "test_run evs = prog_run test_ctl default_flags 4 (\<lambda>_. True) evs (prog_start default_flags 4)"

lemma test_run_reaches: "test_run evs = Some (Inr p) \<Longrightarrow> prog_reaches test_ctl default_flags 4 (\<lambda>_. True) p"
proof -
  have "prog_init test_ctl default_flags 4 (\<lambda>_. True) (prog_start default_flags 4)"
    using epoll_ctl_map_spec by (simp add: prog_init_def default_flags_def)
  then show "test_run evs = Some (Inr p) \<Longrightarrow> prog_reaches test_ctl default_flags 4 (\<lambda>_. True) p"
    unfolding test_run_def by (intro prog_run_reaches [OF reaches.start])
qed

lemma accepting_runs:
  "case test_run accepting of Some (Inr p) \<Rightarrow> sy_waiting (pg_sys p) = [1] \<and> prog_enabled 4 (\<lambda>_. True) (Poll [(1, EPOLLIN)] accepted) p \<and>
      ep_interest (pg_loop p) 5 = Some (EPOLLIN, 1) \<and>
      (case prog_do test_ctl default_flags (Poll [(1, EPOLLIN)] accepted) p of Inl u \<Rightarrow> False | Inr p' \<Rightarrow> sy_waiting (pg_sys p') = [])
    | _ \<Rightarrow> False"
  by code_simp

section \<open>Properties\<close>

lemma prog_reaches_good: "prog_reaches ctl fl N pollable p \<Longrightarrow> prog_good ctl fl N pollable p"
  by (rule prog.reaches_inv)

lemma registered_iff_waiting:
  assumes "io_loop_rel N l S"
  shows "(\<exists>fd m. ep_interest l fd = Some (m, c)) \<longleftrightarrow> c \<in> sv_wait S"
proof -
  obtain rv where rel: "io_rel rv l S" using assms by (auto simp: io_loop_rel_def)
  have "sv_wait S \<subseteq> dom (sv_ctx S)" using rel by (simp add: io_rel_def)
  then show ?thesis using io_relD(4) [OF rel] io_rel_interest(1) [OF rel] by blast
qed

lemma accepting_state:
  obtains p where "prog_reaches test_ctl default_flags 4 (\<lambda>_. True) p" "sy_waiting (pg_sys p) = [1]"
    "prog_enabled 4 (\<lambda>_. True) (Poll [(1, EPOLLIN)] accepted) p" "ep_interest (pg_loop p) 5 = Some (EPOLLIN, 1)"
    "\<forall>p'. prog_do test_ctl default_flags (Poll [(1, EPOLLIN)] accepted) p = Inr p' \<longrightarrow> sy_waiting (pg_sys p') = []"
proof -
  obtain p p' where p: "test_run accepting = Some (Inr p)" "sy_waiting (pg_sys p) = [1]"
    "prog_enabled 4 (\<lambda>_. True) (Poll [(1, EPOLLIN)] accepted) p" "ep_interest (pg_loop p) 5 = Some (EPOLLIN, 1)"
    "prog_do test_ctl default_flags (Poll [(1, EPOLLIN)] accepted) p = Inr p'" "sy_waiting (pg_sys p') = []"
    using accepting_runs by (auto split: option.splits sum.splits simp del: prog_enabled.simps prog_do.simps)
  show thesis by (rule that [OF test_run_reaches [OF p(1)] p(2-4)]) (use p(5,6) in simp)
qed





text \<open>C24. A round of the event loop hands over: it returns, the coroutines whose calls it finished, each
  of which had a reported event, stop waiting and are in the task lists, once each and in addition to
  what was there, and nothing else of the task lists and the waiting coroutines changes.\<close>

theorem round_hands_over:
  assumes "prog_reaches ctl fl N pollable p" "prog_enabled N pollable (Poll pes ans) p"
  shows "\<exists>p' cs. prog_do ctl fl (Poll pes ans) p = Inr p' \<and> il_resumed (pg_loop p') = il_resumed (pg_loop p) @ cs \<and>
    distinct cs \<and> set cs \<subseteq> set (map fst pes) \<and> set cs \<subseteq> set (sy_waiting (pg_sys p)) \<and>
    set (sy_waiting (pg_sys p')) = set (sy_waiting (pg_sys p)) - set cs \<and>
    ready_tasks (pg_sys p') = ready_tasks (pg_sys p) + mset cs"
proof -
  have good: "epoll_ctl_spec ctl pollable" "prog_inv ctl N pollable p"
    using prog_reaches_good [OF assms(1)] by (auto simp: prog_good_def)
  then obtain S where S: "io_loop_rel N (pg_loop p) S" "sv_wait S = set (sy_waiting (pg_sys p))"
    by (auto simp: prog_inv_def loop_link_def)
  have "set (map fst pes) \<subseteq> set (sy_waiting (pg_sys p))" using assms(2) waits_in_wait [OF S(1)] S(2) by auto
  with poll_inv_step [OF good assms(2), of fl] show ?thesis by blast
qed

theorem round_hands_over_witness:
  "\<exists>p p'. sy_waiting (pg_sys p) = [1] \<and> prog_do test_ctl default_flags (Poll [(1, EPOLLIN)] accepted) p = Inr p' \<and>
    il_resumed (pg_loop p') = il_resumed (pg_loop p) @ [1] \<and> ready_tasks (pg_sys p') = add_mset 1 (ready_tasks (pg_sys p))"
proof -
  obtain p where p: "prog_reaches test_ctl default_flags 4 (\<lambda>_. True) p" "sy_waiting (pg_sys p) = [1]"
    "prog_enabled 4 (\<lambda>_. True) (Poll [(1, EPOLLIN)] accepted) p" "ep_interest (pg_loop p) 5 = Some (EPOLLIN, 1)"
    "\<forall>p'. prog_do test_ctl default_flags (Poll [(1, EPOLLIN)] accepted) p = Inr p' \<longrightarrow> sy_waiting (pg_sys p') = []"
    by (rule accepting_state)
  from round_hands_over [OF p(1,3)] obtain p' cs where
    r: "prog_do test_ctl default_flags (Poll [(1, EPOLLIN)] accepted) p = Inr p'" "il_resumed (pg_loop p') = il_resumed (pg_loop p) @ cs"
      "distinct cs" "set (sy_waiting (pg_sys p')) = {1} - set cs" "set cs \<subseteq> {1}"
      "ready_tasks (pg_sys p') = ready_tasks (pg_sys p) + mset cs"
    unfolding p(2) by auto
  have "set cs = {1}" using r(4,5) p(5) r(1) by auto
  then have "cs = [1]" using r(3) by (cases cs; cases "tl cs") auto
  with r(1,2,6) p(2) show ?thesis by (intro exI [of _ p] exI [of _ p']) (simp del: prog_do.simps)
qed

end
