(* ===== verification/Program_Calls.thy ===== *)
theory Program_Calls
  imports Smart_Program
begin

text \<open>
  A blocking call in the whole program: from the step in which a coroutine begins it until the
  coroutine leaves it, whatever the scheduler, the event loop and the other coroutines do in
  between, it stands as the sequential model of its function says.
\<close>

section \<open>One call in the program\<close>

lemma settle_append:
  assumes "settle g xs c = Inr (c', fin)"
  shows "settle g (xs @ ys) c = (if fin then Inr (c', True) else settle g ys c')"
  using assms
proof (induction xs arbitrary: c)
  case (Cons x xs)
  obtain d f where d: "g x c = Inr (d, f)" using Cons.prems by (auto simp: bind_res_Inr_iff)
  then show ?case using Cons by (cases f) auto
qed auto

lemma alone_reads: "alone a xs c = Inr (c', fin) \<Longrightarrow> reads c' = reads c"
proof (induction xs arbitrary: c)
  case (Cons x xs)
  obtain d f where d: "answer x a c = Inr (d, f)" using Cons.prems by (auto simp: bind_res_Inr_iff)
  then show ?case using Cons answer_keeps(4) [OF d] by (cases f) auto
qed auto

text \<open>How the call that began with \<open>x\<close> stands in the loop after the answers \<open>xs\<close>.\<close>

definition stands :: "nat \<Rightarrow> io_context \<Rightarrow> answers list \<Rightarrow> io_loop \<Rightarrow> bool" where
  "stands c x xs l \<longleftrightarrow> (\<exists>y. il_ctx l c = Some y \<and> alone c xs x = Inr (y, \<not> waits_in l c))"

lemma call_state_loop:
  assumes "io_loop_rel N l S"
  shows "call_state c S = Some (y, w, n) \<longleftrightarrow> il_ctx l c = Some y \<and> w = waits_in l c \<and> n = count_list (sv_resumed S) (ctx_coro y)"
proof -
  obtain rv where rel: "io_rel rv l S" using assms by (auto simp: io_loop_rel_def)
  have "waits_in l c \<longleftrightarrow> c \<in> sv_wait S" if "sv_ctx S c = Some y" for y
    using io_relD(3) [OF rel that] by (simp add: waits_in_def idle_item_def)
  then show ?thesis using loop_rel_ctx(1) [OF assms] by (auto simp: call_state_def)
qed

lemma stands_moves:
  assumes "stands c x xs l" "loop_moves N pollable l evs l'" "Close c \<notin> set evs"
  shows "stands c x (xs @ rounds_of (reads x) c evs) l'"
proof -
  obtain S S' where S: "io_loop_rel N l S" "one_call_each S" "sv_run N pollable evs S S'" "io_loop_rel N l' S'"
    using assms(2) by (auto simp: loop_moves_def)
  obtain y where y: "il_ctx l c = Some y" "alone c xs x = Inr (y, \<not> waits_in l c)" using assms(1) by (auto simp: stands_def)
  obtain n where st: "call_state c S = Some (y, waits_in l c, n)" using call_state_loop [OF S(1)] y(1) by blast
  show ?thesis
  proof (cases "waits_in l c")
    case True
    then have "call_state c S = Some (y, True, n)" using st by simp
    from sv_run_call [OF S(3,2) assms(3) this] obtain z fin m where
      z: "alone c (rounds_of (reads y) c evs) y = Inr (z, fin)" "call_state c S' = Some (z, \<not> fin, m)" by blast
    then show ?thesis using settle_append [OF y(2)] True alone_reads [OF y(2)] call_state_loop [OF S(4)] by (auto simp: stands_def)
  next
    case False
    then have "call_state c S = Some (y, False, n)" using st by simp
    from finished_call_stays [OF S(3,2) this assms(3)] show ?thesis
      using settle_append [OF y(2)] False call_state_loop [OF S(4)] by (auto simp: stands_def)
  qed
qed

lemma stands_open:
  assumes "loop_moves N pollable l [Open c x] l'"
  shows "stands c x [] l'"
proof -
  obtain S S' where S: "io_loop_rel N l' S'" "sv_do (Open c x) S = Inr S'"
    using assms by (auto simp: loop_moves_def elim!: sv_run_ConsE elim: sv_run.cases)
  then have "call_state c S' = Some (x, True, count_list (sv_resumed S') (ctx_coro x))" by (auto simp: call_state_def)
  then show ?thesis using call_state_loop [OF S(1)] by (auto simp: stands_def)
qed

text \<open>The rounds of a run, and whether a coroutine stays in its call.\<close>

fun polls :: "prog_event list \<Rightarrow> io_event list" where
  "polls [] = []"
| "polls (Poll pes ans # evs) = Round pes ans # polls evs"
| "polls (_ # evs) = polls evs"

fun stays :: "epoll_ctl \<Rightarrow> flags \<Rightarrow> coro \<Rightarrow> prog_event list \<Rightarrow> program \<Rightarrow> bool" where
  "stays ctl fl c [] p = True"
| "stays ctl fl c (ev # evs) p =
     ((case ev of Finish t \<Rightarrow> current t p \<noteq> c | _ \<Rightarrow> True) \<and>
      (case prog_do ctl fl ev p of Inl u \<Rightarrow> True | Inr p' \<Rightarrow> stays ctl fl c evs p'))"

lemma rounds_of_append: "rounds_of rd c (evs @ evs') = rounds_of rd c evs @ rounds_of rd c evs'"
  by (induction rd c evs rule: rounds_of.induct) (auto split: option.splits)

lemma rounds_of_opens: "rounds_of rd c (map (\<lambda>d. Open d (f d)) ds) = []"
  by (induction ds) auto

definition call_at :: "coro \<Rightarrow> io_context \<Rightarrow> answers list \<Rightarrow> program \<Rightarrow> bool" where
  "call_at c x xs p \<longleftrightarrow> pg_call p c = Some x \<and> xs = [] \<or> stands c x xs (pg_loop p)"

lemma sched_call:
  assumes "follows N pollable fl ev p p'" "call_at c x xs p"
  shows "call_at c x xs p'"
proof -
  let ?ds = "enabled_by fl ev p"
  have f: "loop_moves N pollable (pg_loop p) (map (\<lambda>d. Open d (the (pg_call p d))) ?ds) (pg_loop p')" "length ?ds \<le> 1"
    "pg_call p' c = (if c \<in> set ?ds then None else pg_call p c)" using assms(1) by (simp_all add: follows_def)
  have keep: "stands c x xs (pg_loop p) \<Longrightarrow> stands c x xs (pg_loop p')"
    using stands_moves [OF _ f(1), of c x xs] by (auto simp: rounds_of_opens)
  show ?thesis
  proof (cases "pg_call p c = Some x \<and> xs = [] \<and> c \<in> set ?ds")
    case True
    then have "?ds = [c]" using f(2) by (cases ?ds) auto
    then have "stands c x [] (pg_loop p')" using f(1) True stands_open by fastforce
    then show ?thesis using True by (simp add: call_at_def)
  qed (use assms(2) keep f(3) in \<open>auto simp: call_at_def\<close>)
qed

lemma not_polled:
  assumes "prog_inv ctl N pollable p" "prog_enabled N pollable (Poll pes ans) p" "pg_call p c = Some x"
  shows "rounds_of rd c [Round pes ans] = []"
proof -
  obtain S where S: "io_loop_rel N (pg_loop p) S" using assms(1) by (auto simp: prog_inv_def loop_link_def)
  have "il_ctx (pg_loop p) c = None" using assms(1,3) calls_linkD(1) by (auto simp: prog_inv_def)
  then have "c \<notin> sv_wait S" using S by (auto simp: io_loop_rel_def io_rel_def)
  then have "c \<notin> fst ` set pes" using assms(2) waits_in_wait [OF S] by auto
  then have "map_of pes c = None" by (simp add: map_of_eq_None_iff)
  then show ?thesis by simp
qed

lemma call_at_step:
  assumes "epoll_ctl_spec ctl pollable" "prog_inv ctl N pollable p" "prog_enabled N pollable ev p" "prog_do ctl fl ev p = Inr p'"
    and "call_at c x xs p" "stays ctl fl c [ev] p"
  shows "call_at c x (xs @ rounds_of (reads x) c (polls [ev])) p'"
proof (cases ev)
  case (Sched e)
  with sched_inv_step [OF assms(1,2), of e fl] assms(3,4) have "follows N pollable fl e p p'"
    by (auto simp del: prog_enabled.simps)
  from sched_call [OF this assms(5)] Sched show ?thesis by simp
next
  case (Begin t z)
  note en = assms(3) [unfolded Begin]
  from begin_inv_step [OF assms(2) en, of fl] assms(4) Begin
  have p': "pg_loop p' = pg_loop p" "pg_call p' = (pg_call p)(cur_of (pg_sys p) \<mapsto> z)" by (auto simp del: prog_do.simps)
  have t: "t = 0" using en by simp
  have "outside_calls 0 p" using en by (simp add: t)
  from outside_calls_current [OF assms(2) this] have "pg_call p (cur_of (pg_sys p)) = None"
    using dom_pg_call by blast
  then have "c \<noteq> cur_of (pg_sys p)" if "pg_call p c = Some x" using that by auto
  then show ?thesis using assms(5) p' Begin by (auto simp: call_at_def)
next
  case (Poll pes ans)
  note en = assms(3) [unfolded Poll]
  from poll_inv_step [OF assms(1,2) en, of fl] assms(4) Poll
  have p': "loop_moves N pollable (pg_loop p) [Round pes ans] (pg_loop p')" "pg_call p' = pg_call p" by (auto simp del: prog_do.simps)
  show ?thesis
  proof (cases "pg_call p c = Some x \<and> xs = []")
    case True
    then show ?thesis using not_polled [OF assms(2) en] p'(2) Poll by (auto simp: call_at_def)
  next
    case False
    then have "stands c x xs (pg_loop p)" using assms(5) by (auto simp: call_at_def)
    from stands_moves [OF this p'(1)] show ?thesis using Poll by (simp add: call_at_def)
  qed
next
  case (Finish t)
  note en = assms(3) [unfolded Finish]
  from finish_inv_step [OF assms(2) en, of fl] assms(4) Finish
  have p': "loop_moves N pollable (pg_loop p) [Close (current t p)] (pg_loop p')" "pg_call p' = pg_call p" by (auto simp del: prog_do.simps)
  have "current t p \<noteq> c" using assms(6) Finish by simp
  then show ?thesis using stands_moves [OF _ p'(1), of c x xs] assms(5) p'(2) Finish by (auto simp: call_at_def)
qed

lemma call_run:
  "\<lbrakk>prog_good ctl fl N pollable p; prog_run ctl fl N pollable evs p = Some (Inr p'); call_at c x xs p; stays ctl fl c evs p\<rbrakk> \<Longrightarrow>
   call_at c x (xs @ rounds_of (reads x) c (polls evs)) p'"
proof (induction evs arbitrary: p xs)
  case (Cons ev evs)
  obtain p1 where p1: "prog_enabled N pollable ev p" "prog_do ctl fl ev p = Inr p1" "prog_run ctl fl N pollable evs p1 = Some (Inr p')"
    using Cons.prems(2) by (auto split: if_splits sum.splits)
  have good: "epoll_ctl_spec ctl pollable" "prog_inv ctl N pollable p" using Cons.prems(1) by (auto simp: prog_good_def)
  have "prog_next ctl fl N pollable p p1" using p1(1,2) by (metis prog_next_def prog_step.prog_event)
  then have g1: "prog_good ctl fl N pollable p1" by (rule prog.step_inv [OF Cons.prems(1)])
  have st: "stays ctl fl c [ev] p" "stays ctl fl c evs p1" using Cons.prems(4) p1(2) by auto
  note one = call_at_step [OF good p1(1,2) Cons.prems(3) st(1)]
  have "polls (ev # evs) = polls [ev] @ polls evs" by (cases ev) simp_all
  then show ?case using Cons.IH [OF g1 p1(3) one st(2)] by (simp add: rounds_of_append)
qed simp

section \<open>Properties\<close>

text \<open>C3. A blocking call in the program is its sequential model: after a coroutine has begun a call,
  through every run of the program in which it has not left the call, the item of the call waits for its
  deferred callback and the loop has asked nothing, or the context in the loop and whether the
  call still waits are what the model of the called function (\<open>smart_read\<close>, \<open>smart_write\<close>,
  \<open>smart_connect\<close>, \<open>smart_accept\<close>, \<open>smart_read_until\<close>) says on the answers of the rounds that reported
  this call, in their order. No other call and no scheduling matters.\<close>

theorem program_call_returns:
  assumes "prog_reaches ctl fl N pollable p" "prog_enabled N pollable (Begin 0 x) p"
    and "prog_do ctl fl (Begin 0 x) p = Inr p1" "prog_run ctl fl N pollable evs p1 = Some (Inr p')"
    and "stays ctl fl (current 0 p) evs p1"
  shows "pg_call p' (current 0 p) = Some x \<and> rounds_of (reads x) (current 0 p) (polls evs) = [] \<or>
    (\<exists>y. il_ctx (pg_loop p') (current 0 p) = Some y \<and>
      call_returns ctl errno ec (current 0 p) (rounds_of (reads x) (current 0 p) (polls evs)) x
        (waits_in (pg_loop p') (current 0 p)) y)"
proof -
  let ?c = "current 0 p"
  have good: "epoll_ctl_spec ctl pollable" "prog_inv ctl N pollable p"
    using prog_reaches_good [OF assms(1)] by (auto simp: prog_good_def)
  from begin_inv_step [OF good(2) assms(2), of fl] assms(3) have "pg_call p1 ?c = Some x"
    by (auto simp: current_0 simp del: prog_do.simps)
  then have at: "call_at ?c x [] p1" by (simp add: call_at_def)
  have "prog_next ctl fl N pollable p p1" using assms(2,3) by (metis prog_next_def prog_step.prog_event)
  then have "prog_good ctl fl N pollable p1" by (rule prog.step_inv [OF prog_reaches_good [OF assms(1)]])
  from call_run [OF this assms(4) at assms(5)] have
    "call_at ?c x (rounds_of (reads x) ?c (polls evs)) p'" by simp
  moreover have "pollable (ctx_fd x)" using assms(2) by simp
  ultimately show ?thesis using alone_returns [OF good(1)] unfolding call_at_def stands_def by blast
qed

theorem program_call_returns_witness:
  "\<exists>p' y. test_run (accepting @ [Poll [(1, EPOLLIN)] accepted]) = Some (Inr p') \<and> il_ctx (pg_loop p') 1 = Some y \<and>
    call_returns test_ctl 0 Success 1 [accepted] (Accept_ctx (accept_start 5 1 1)) False y"
proof -
  let ?x = "Accept_ctx \<lparr>ac_sockfd = 5, ac_coro = 1, ac_item = 1, ac_errno = 0, ac_ret = -1\<rparr>"
  let ?evs = "[Sched (Land 0), Poll [(1, EPOLLIN)] accepted]"
  let ?run = "prog_run test_ctl default_flags 4 (\<lambda>_. True)"
  have "case test_run (take 4 accepting) of Some (Inr p) \<Rightarrow> current 0 p = 1 \<and> prog_enabled 4 (\<lambda>_. True) (Begin 0 ?x) p \<and>
      (case prog_do test_ctl default_flags (Begin 0 ?x) p of Inl u \<Rightarrow> False | Inr p1 \<Rightarrow>
        stays test_ctl default_flags 1 ?evs p1 \<and>
        (case ?run ?evs p1 of Some (Inr p') \<Rightarrow> \<not> waits_in (pg_loop p') 1 | _ \<Rightarrow> False)) | _ \<Rightarrow> False"
    by code_simp
  from run_someD [OF this] obtain p where p0: "test_run (take 4 accepting) = Some (Inr p)" "current 0 p = 1"
    "prog_enabled 4 (\<lambda>_. True) (Begin 0 ?x) p" "case prog_do test_ctl default_flags (Begin 0 ?x) p of Inl u \<Rightarrow> False | Inr p1 \<Rightarrow>
        stays test_ctl default_flags 1 ?evs p1 \<and>
        (case ?run ?evs p1 of Some (Inr p') \<Rightarrow> \<not> waits_in (pg_loop p') 1 | _ \<Rightarrow> False)" by blast
  from res_rightD [OF p0(4)] obtain p1 where p1: "prog_do test_ctl default_flags (Begin 0 ?x) p = Inr p1"
    "stays test_ctl default_flags 1 ?evs p1" "case ?run ?evs p1 of Some (Inr p') \<Rightarrow> \<not> waits_in (pg_loop p') 1 | _ \<Rightarrow> False" by blast
  from run_someD [OF p1(3)] obtain p' where p': "?run ?evs p1 = Some (Inr p')" "\<not> waits_in (pg_loop p') 1" by blast
  note p = p0(1-3) p1(1,2) p'
  have outs: "rounds_of (reads ?x) 1 (polls ?evs) = [accepted]" by (simp add: wakes_def)
  obtain y where y: "il_ctx (pg_loop p') 1 = Some y" "call_returns test_ctl 0 Success 1 [accepted] ?x False y"
    using program_call_returns [OF test_run_reaches [OF p(1)] p(3,4,6), of 0 Success] p(5,7) unfolding p(2) outs by auto
  have "?run (xs @ ys) q = (case ?run xs q of Some (Inr q') \<Rightarrow> ?run ys q' | r \<Rightarrow> r)" for xs ys q
    by (induction xs arbitrary: q) (auto split: option.splits sum.splits simp del: prog_enabled.simps prog_do.simps)
  note run_app = this
  have all: "accepting @ [Poll [(1, EPOLLIN)] accepted] = take 4 accepting @ Begin 0 ?x # ?evs" by (simp add: accepting_def)
  have "?run (Begin 0 ?x # ?evs) p = Some (Inr p')"
    unfolding prog_run.simps(2) [of _ _ _ _ "Begin 0 ?x"] using p(3,4,6) by (simp only: if_True sum.case)
  then have "test_run (accepting @ [Poll [(1, EPOLLIN)] accepted]) = Some (Inr p')"
    using p(1) unfolding test_run_def all run_app by (simp only: option.case sum.case)
  with y show ?thesis by blast
qed

end
