(* ===== verification/Scheduler_Progress.thy ===== *)
theory Scheduler_Progress
  imports Scheduler_Safety
begin

text \<open>
  When a coroutine runs, with one scheduler thread: the queue of the thread is served in order whatever
  else happens, and the shared list is served only when that queue is empty, which may be never.
\<close>

section \<open>The queue of the thread\<close>

abbreviation queue_of :: "sys \<Rightarrow> coro list" where
  "queue_of s \<equiv> th_queue (thr s)"

abbreviation shared_of :: "sys \<Rightarrow> coro list" where
  "shared_of s \<equiv> rt_task_list (sy_runtime s)"

definition appended :: "sys \<Rightarrow> sys \<Rightarrow> bool" where
  "appended s s' \<longleftrightarrow> (\<exists>cs. queue_of s' = queue_of s @ cs)"

lemma appended_same: "queue_of s' = queue_of s \<Longrightarrow> appended s s'"
  by (simp add: appended_def)

lemma sys_get_task_front:
  assumes "th_inv (thr s)" "queue_of s = c # cs"
  shows "\<exists>s'. sys_get_task fl 0 s = Inr (Some c, s') \<and> queue_of s' = cs \<and>
    s' = set_thread 0 (thr s') s\<lparr>sy_runtime := sy_runtime s'\<rparr> \<and> th_current_coro (thr s') = cur_of s \<and>
    th_delay_callback (thr s') = delay_of s \<and> shared_of s' = shared_of s"
proof -
  have "abs_get_task (batch_of fl) (th_cap (thr s)) (queue_of s) (rt_task_list (sy_runtime s)) = (Some c, cs, rt_task_list (sy_runtime s))"
    by (simp add: abs_get_task_def assms(2))
  from th_get_task_ok [OF assms(1) this] show ?thesis by (auto simp: sys_get_task_def sys_updates)
qed

lemma sys_push_task_appends:
  assumes "th_inv (thr s)" "sys_push_task 0 c s = Inr s'"
  shows "appended s s'"
  using th_push_task_ok [OF assms(1), of "sy_runtime s" c] assms(2)
  by (auto simp: sys_push_task_def sys_updates appended_def split: if_splits)

lemma switch_to_queue:
  "switch_to 0 0 here c s = Inr s' \<Longrightarrow> queue_of s' = queue_of s \<and> cur_of s' = c"
  by (auto simp: switch_to_def Let_def sys_updates split: option.splits if_splits)

lemma run_delay_appends:
  assumes "th_inv (thr s)" "run_delay_callback 0 0 s = Inr s'"
  shows "appended s s'"
proof (cases "delay_of s")
  case None
  with assms show ?thesis by (simp add: run_delay_callback_def appended_same)
next
  case (Some cb)
  then obtain s1 where e: "exec_callback 0 cb s = Inr s1" "s' = set_delay 0 None s1"
    using assms(2) by (auto simp: run_delay_callback_def bind_res_Inr_iff)
  have "appended s s1"
    using e(1) sys_push_task_appends [OF assms(1)] by (cases cb) (auto intro: appended_same split: if_splits)
  then show ?thesis by (simp add: e(2) appended_def sys_updates)
qed

fun takes :: "event \<Rightarrow> bool" where
  "takes (Loop t) = True"
| "takes (Wait t w) = True"
| "takes _ = False"

text \<open>Taking the front; every other step leaves the queue or appends to it.\<close>

lemma take_front:
  assumes inv: "sched_inv s" and en: "enabled 1 ev s" and r: "perform fl ev s = Inr s'" and "takes ev" "queue_of s = c # cs"
  shows "queue_of s' = cs \<and> cur_of s' = c"
proof (cases ev)
  case (Loop t)
  with en r sched_invD(7) [OF inv] obtain p where "main_loop_round fl 0 0 p s = Inr s'" by (cases "sy_pc s 0") auto
  then show ?thesis
    using sys_get_task_front [OF sched_invD(1) [OF inv] assms(5), of fl] switch_to_queue
    by (fastforce simp: main_loop_round_def)
next
  case (Wait t w)
  obtain p where p: "smart_routine_wait fl 0 p w s = Inr s'" using Wait en r by (cases "sy_pc s 0") auto
  let ?s1 = "set_delay 0 (Some (wait_callback w (cur_of s))) s"
  have "th_inv (thr ?s1)" "queue_of ?s1 = c # cs" using sched_invD(1) [OF inv] assms(5) by (simp_all add: sys_updates th_inv_def)
  from sys_get_task_front [OF this, of fl] p switch_to_queue show ?thesis
    by (fastforce simp: smart_routine_wait_def th_yield_def)
qed (use assms(4) in simp_all)

lemma other_appends:
  assumes inv: "sched_inv s" and en: "enabled 1 ev s" and r: "perform fl ev s = Inr s'" and "\<not> takes ev"
  shows "appended s s'"
proof (cases ev)
  case (Wake t)
  with en r show ?thesis by (auto simp: leave_wait_def sys_updates intro!: appended_same)
next
  case (Land t)
  then obtain k where k: "land 0 k s = Inr s'" "sy_pc s 0 = Landed k" using en r by (cases "sy_pc s 0") auto
  note th = run_delay_appends [OF sched_invD(1) [OF inv]]
  show ?thesis
  proof (cases k)
    case (Entry p)
    then show ?thesis using k(1) th
      by (fastforce simp: coro_runner_begin_def coro_runner_end_def bind_res_Inr_iff Let_def sys_updates appended_def split: option.splits if_splits prod.splits)
  next
    case (After_yield p)
    then show ?thesis using k(1) by (auto simp: sys_updates intro: appended_same)
  next
    case (After_loop this p)
    then have "this = 0" using sched_invD(7) [OF inv] k(2) by simp
    then show ?thesis using After_loop k(1) th by (fastforce simp: bind_res_Inr_iff sys_updates appended_def)
  qed
next
  case (Return t)
  with en r show ?thesis by (auto simp: coro_runner_end_def sys_updates intro!: appended_same split: pc.splits prod.splits)
next
  case (Start t)
  then have "smart_routine_start (Some 0) s = Inr s'" using en r by (auto split: pc.splits)
  then have "sys_push_task 0 (sy_next s) (s\<lparr>sy_coros := (sy_coros s)(sy_next s \<mapsto> \<lparr>co_fn = True, co_fcontext = Some (Entry (sy_next s))\<rparr>),
      sy_next := Suc (sy_next s)\<rparr>) = Inr s'" by (simp add: smart_routine_start_def smart_routine_resume_def Let_def)
  from sys_push_task_appends [OF _ this] sched_invD(1) [OF inv] show ?thesis by (simp add: appended_def)
next
  case Start_outside
  with r show ?thesis by (auto simp: smart_routine_start_def smart_routine_resume_def Let_def intro!: appended_same)
next
  case (Io_done c)
  with r show ?thesis by (auto simp: resume_io_coro_def smart_routine_resume_def intro!: appended_same)
qed (use assms(4) in simp_all)

lemma queue_run:
  "\<lbrakk>sched_inv s; sys_run fl 1 evs s = Some (Inr s'); k < length (queue_of s); k < length (filter takes evs)\<rbrakk> \<Longrightarrow>
   \<exists>evs1 evs2 t. evs = evs1 @ evs2 \<and> length (filter takes evs1) = Suc k \<and> sys_run fl 1 evs1 s = Some (Inr t) \<and>
     sys_run fl 1 evs2 t = Some (Inr s') \<and> cur_of t = queue_of s ! k"
proof (induction evs arbitrary: s k)
  case (Cons ev evs)
  obtain s1 where s1: "enabled 1 ev s" "perform fl ev s = Inr s1" "sys_run fl 1 evs s1 = Some (Inr s')"
    using Cons.prems(2) by (auto split: if_splits sum.splits)
  have inv1: "sched_inv s1" using perform_inv [OF Cons.prems(1) s1(1), of fl] s1(2) by simp
  have run: "sys_run fl 1 (ev # evs') s = sys_run fl 1 evs' s1" for evs' using s1(1,2) by simp
  show ?case
  proof (cases "takes ev")
    case True
    obtain c cs where q: "queue_of s = c # cs" using Cons.prems(3) by (cases "queue_of s") auto
    note f = take_front [OF Cons.prems(1) s1(1,2) True q]
    show ?thesis
    proof (cases k)
      case 0
      then show ?thesis using f q True run s1(3) by (intro exI [of _ "[ev]"] exI [of _ evs] exI [of _ s1]) (simp del: sys_run.simps(2))
    next
      case (Suc j)
      have "j < length (queue_of s1)" "j < length (filter takes evs)" using Cons.prems(3,4) Suc f q True by auto
      from Cons.IH [OF inv1 s1(3) this] obtain evs1 evs2 t where
        "evs = evs1 @ evs2" "length (filter takes evs1) = Suc j" "sys_run fl 1 evs1 s1 = Some (Inr t)"
        "sys_run fl 1 evs2 t = Some (Inr s')" "cur_of t = queue_of s1 ! j" by blast
      then show ?thesis using f q True run Suc
        by (intro exI [of _ "ev # evs1"] exI [of _ evs2] exI [of _ t]) (simp del: sys_run.simps(2))
    qed
  next
    case False
    obtain cs where q: "queue_of s1 = queue_of s @ cs"
      using other_appends [OF Cons.prems(1) s1(1,2) False] by (auto simp: appended_def)
    have "k < length (queue_of s1)" "k < length (filter takes evs)" using Cons.prems(3,4) False q by auto
    from Cons.IH [OF inv1 s1(3) this] obtain evs1 evs2 t where
      "evs = evs1 @ evs2" "length (filter takes evs1) = Suc k" "sys_run fl 1 evs1 s1 = Some (Inr t)"
      "sys_run fl 1 evs2 t = Some (Inr s')" "cur_of t = queue_of s1 ! k" by blast
    then show ?thesis using False run q Cons.prems(3)
      by (intro exI [of _ "ev # evs1"] exI [of _ evs2] exI [of _ t]) (simp add: nth_append del: sys_run.simps(2))
  qed
qed simp

section \<open>The shared list\<close>

text \<open>A coroutine that starts another and returns hands the thread to the new one: the deferred
  callback destroys it, its successor runs, and the shared list is not looked at.\<close>

definition handover :: "event list" where
  "handover = [Start 0, Return 0, Loop 0, Land 0]"

lemma start_here:
  assumes inv: "sched_inv s" and "sy_pc s 0 = In_user p" "queue_of s = []"
  obtains s' where "perform fl (Start 0) s = Inr s'" "sched_inv s'" "sy_pc s' 0 = In_user p"
    "queue_of s' = [sy_next s]" "cur_of s' = cur_of s" "shared_of s' = shared_of s"
    "sy_coros s' (sy_next s) = Some \<lparr>co_fn = True, co_fcontext = Some (Entry (sy_next s))\<rparr>" "sy_next s \<noteq> cur_of s"
proof -
  let ?s = "s\<lparr>sy_coros := (sy_coros s)(sy_next s \<mapsto> \<lparr>co_fn = True, co_fcontext = Some (Entry (sy_next s))\<rparr>), sy_next := Suc (sy_next s)\<rparr>"
  obtain s' where s': "perform fl (Start 0) s = Inr s'" "sched_inv s'" using perform_inv [OF inv, of "Start 0" fl] assms(2) by auto
  then have "sys_push_task 0 (sy_next s) ?s = Inr s'" by (simp add: smart_routine_start_def smart_routine_resume_def Let_def)
  moreover have "0 < th_cap (thr s)" using sched_invD(1) [OF inv] by (simp add: th_inv_def bq_inv_nat(3))
  ultimately have "sy_pc s' 0 = In_user p \<and> queue_of s' = [sy_next s] \<and> cur_of s' = cur_of s \<and> shared_of s' = shared_of s \<and>
      sy_coros s' = sy_coros ?s"
    using th_push_task_ok [OF sched_invD(1) [OF inv], of "sy_runtime s" "sy_next s"] assms(2,3)
    by (auto simp: sys_push_task_def sys_updates)
  moreover have "sy_next s \<noteq> cur_of s" using sched_invD(8,9) [OF inv] by fastforce
  ultimately show thesis using that s' by simp
qed

lemma loop_takes:
  assumes inv: "sched_inv s" and "sy_pc s 0 = At_loop 0 p" "queue_of s = [c]" "c \<noteq> cur_of s"
    "sy_coros s c = Some \<lparr>co_fn = True, co_fcontext = Some (Entry c)\<rparr>"
  obtains s' where "perform fl (Loop 0) s = Inr s'" "sched_inv s'" "sy_pc s' 0 = Landed (Entry c)"
    "queue_of s' = []" "cur_of s' = c" "shared_of s' = shared_of s" "delay_of s' = delay_of s" "\<exists>f. sy_coros s' c = Some \<lparr>co_fn = True, co_fcontext = f\<rparr>"
proof -
  obtain s' where s': "perform fl (Loop 0) s = Inr s'" "sched_inv s'" using perform_inv [OF inv, of "Loop 0" fl] assms(2) by auto
  obtain s1 where g: "sys_get_task fl 0 s = Inr (Some c, s1)" "queue_of s1 = []" "s1 = set_thread 0 (thr s1) s\<lparr>sy_runtime := sy_runtime s1\<rparr>"
    "cur_of s1 = cur_of s" "delay_of s1 = delay_of s" "shared_of s1 = shared_of s"
    using sys_get_task_front [OF sched_invD(1) [OF inv] assms(3), of fl] by auto
  have "sy_coros s1 = sy_coros s" "sy_pc s1 = sy_pc s" by (subst g(3), simp add: sys_updates)+
  moreover have "switch_to 0 0 (After_loop 0 p) c s1 = Inr s'" using s'(1) assms(2) g(1) by (simp add: main_loop_round_def)
  ultimately show thesis using that s' assms(4,5) g(2,4-6)
    by (auto simp: switch_to_def Let_def sys_updates split: option.splits)
qed

lemma entry_runs:
  assumes inv: "sched_inv s" and "sy_pc s 0 = Landed (Entry c)" "cur_of s = c" "delay_of s = Some (Destroy_coro d)" "d \<noteq> c"
    "sy_coros s c = Some \<lparr>co_fn = True, co_fcontext = f\<rparr>"
  obtains s' where "perform fl (Land 0) s = Inr s'" "sched_inv s'" "sy_pc s' 0 = In_user c"
    "queue_of s' = queue_of s" "shared_of s' = shared_of s"
proof -
  obtain s' where s': "perform fl (Land 0) s = Inr s'" "sched_inv s'" using perform_inv [OF inv, of "Land 0" fl] assms(2) by auto
  then have "coro_runner_begin 0 c s = Inr s'" using assms(2) by simp
  then have "sy_pc s' 0 = In_user c \<and> queue_of s' = queue_of s \<and> shared_of s' = shared_of s"
    using assms(3-6) by (auto simp: coro_runner_begin_def run_delay_callback_def bind_res_Inr_iff sys_updates Let_def split: if_splits)
  then show thesis using that s' by simp
qed

lemma handover_once:
  assumes inv: "sched_inv s" and pc: "sy_pc s 0 = In_user p" and "queue_of s = []"
  obtains s' c where "sys_run fl 1 handover s = Some (Inr s')" "sched_inv s'" "sy_pc s' 0 = In_user c"
    "queue_of s' = []" "shared_of s' = shared_of s"
proof -
  let ?c = "sy_next s"
  obtain s1 where s1: "perform fl (Start 0) s = Inr s1" "sched_inv s1" "sy_pc s1 0 = In_user p"
    "queue_of s1 = [?c]" "cur_of s1 = cur_of s" "shared_of s1 = shared_of s"
    "sy_coros s1 ?c = Some \<lparr>co_fn = True, co_fcontext = Some (Entry ?c)\<rparr>" "?c \<noteq> cur_of s"
    using start_here [OF assms] by blast
  obtain s2 where s2: "perform fl (Return 0) s1 = Inr s2" "sched_inv s2" using perform_inv [OF s1(2), of "Return 0" fl] s1(3) by auto
  have "sy_frames s1 p = (0, cur_of s1)" using sched_invD(7) [OF s1(2)] s1(3) by (simp add: user_frame_def)
  then have r: "sy_pc s2 0 = At_loop 0 p" "queue_of s2 = [?c]" "cur_of s2 = cur_of s" "shared_of s2 = shared_of s"
    "delay_of s2 = Some (Destroy_coro (cur_of s))" "sy_coros s2 = sy_coros s1"
    using s2(1) s1 by (auto simp: coro_runner_end_def sys_updates)
  obtain s3 f where s3: "perform fl (Loop 0) s2 = Inr s3" "sched_inv s3" "sy_pc s3 0 = Landed (Entry ?c)"
    "queue_of s3 = []" "cur_of s3 = ?c" "shared_of s3 = shared_of s2" "delay_of s3 = delay_of s2" "sy_coros s3 ?c = Some \<lparr>co_fn = True, co_fcontext = f\<rparr>"
    using loop_takes [OF s2(2) r(1,2), of fl thesis] s1(7,8) r by auto
  obtain s4 where s4: "perform fl (Land 0) s3 = Inr s4" "sched_inv s4" "sy_pc s4 0 = In_user ?c" "queue_of s4 = []" "shared_of s4 = shared_of s3"
    using entry_runs [OF s3(2,3,5) _ _ s3(8), of "cur_of s" fl thesis] s3(4,7) r(5) s1(8) by auto
  have "sys_run fl 1 handover s = Some (Inr s4)" unfolding handover_def
    using pc s1(1,3) s2(1) r(1) s3(1,3) s4(1) by (simp del: perform.simps)
  then show thesis using that s4 s3(6) r(4) by simp
qed

lemma sys_run_append:
  "sys_run fl n evs1 s = Some (Inr t) \<Longrightarrow> sys_run fl n (evs1 @ evs2) s = sys_run fl n evs2 t"
  by (induction evs1 arbitrary: s) (auto split: if_splits sum.splits)

lemma handovers:
  "\<lbrakk>sched_inv s; sy_pc s 0 = In_user p; queue_of s = []\<rbrakk> \<Longrightarrow>
   \<exists>s'. sys_run fl 1 (concat (replicate n handover)) s = Some (Inr s') \<and> shared_of s' = shared_of s"
proof (induction n arbitrary: s p)
  case (Suc n)
  obtain s1 c where s1: "sys_run fl 1 handover s = Some (Inr s1)" "sched_inv s1" "sy_pc s1 0 = In_user c"
    "queue_of s1 = []" "shared_of s1 = shared_of s" using handover_once [OF Suc.prems] by blast
  from Suc.IH [OF s1(2-4)] sys_run_append [OF s1(1)] s1(5) show ?case by simp
qed simp

section \<open>Properties\<close>

text \<open>C6. A queued coroutine runs: with one scheduler thread a coroutine that has \<open>k\<close> others before it
  in the queue of the thread gets the thread with the \<open>k + 1\<close>st switch of tasks, whatever is started,
  resumed and queued meanwhile, and however the epoll thread and outside threads interleave. (The
  thread looks at the shared list only when its queue is empty.)\<close>

theorem queued_coroutine_runs:
  assumes "sched_reaches fl s" "sys_run fl 1 evs s = Some (Inr s')"
    and "k < length (queue_of s)" "k < length (filter takes evs)"
  shows "\<exists>evs1 evs2 t. evs = evs1 @ evs2 \<and> length (filter takes evs1) = Suc k \<and> sys_run fl 1 evs1 s = Some (Inr t) \<and>
     sys_run fl 1 evs2 t = Some (Inr s') \<and> cur_of t = queue_of s ! k"
  using queue_run [OF reaches_sched_inv [OF assms(1)] assms(2-4)] .

text \<open>Of the three coroutines the first runs; with the second yield the third runs.\<close>

theorem queued_coroutine_runs_witness:
  "\<exists>s evs1 t. sched_reaches default_flags s \<and> queue_of s = [2, 3] \<and> length (filter takes evs1) = 2 \<and>
    sys_run default_flags 1 evs1 s = Some (Inr t) \<and> cur_of t = 3"
proof -
  let ?evs = "[Wait 0 By_yield, Land 0, Wait 0 By_yield, Land 0, Return 0]"
  have "case default_run 1 [Start_outside, Start_outside, Start_outside, Wake 0, Loop 0, Land 0] of
      Some (Inr s) \<Rightarrow> queue_of s = [2, 3] \<and> (case sys_run default_flags 1 ?evs s of Some (Inr s') \<Rightarrow> True | _ \<Rightarrow> False) | _ \<Rightarrow> False"
    by code_simp
  from run_someD [OF this] obtain s where s: "default_run 1 [Start_outside, Start_outside, Start_outside, Wake 0, Loop 0, Land 0] = Some (Inr s)"
    "queue_of s = [2, 3]" "case sys_run default_flags 1 ?evs s of Some (Inr s') \<Rightarrow> True | _ \<Rightarrow> False" by blast
  from run_someD [OF s(3)] obtain s' where s': "sys_run default_flags 1 ?evs s = Some (Inr s')" by blast
  from queued_coroutine_runs [OF default_run_reaches [OF s(1)] s', of 1] s(2) obtain evs1 t where
    "length (filter takes evs1) = 2" "sys_run default_flags 1 evs1 s = Some (Inr t)" "cur_of t = 3"
    by (auto simp: numeral_2_eq_2 simp del: sys_run.simps)
  with default_run_reaches [OF s(1)] s(2) show ?thesis by blast
qed

text \<open>C7. The shared list can starve: \<open>get_task\<close> looks at it only when the thread's own queue is
  empty. From every reachable state in which a coroutine runs and the queue of its thread is empty there are runs of any
  length, by coroutines that start another and return, after which the shared list is as it was.
  The epoll thread puts the coroutines whose reads and writes are done into that list.\<close>

theorem shared_list_starves:
  assumes "sched_reaches fl s" "sy_pc s 0 = In_user p" "queue_of s = []"
  shows "\<exists>s'. sys_run fl 1 (concat (replicate n handover)) s = Some (Inr s') \<and> shared_of s' = shared_of s"
  using handovers [OF reaches_sched_inv [OF assms(1)] assms(2,3)] .

text \<open>Coroutine 1 waits for a read, the read is done, coroutine 2 runs: coroutine 1 stays in the list.\<close>

theorem shared_list_starves_witness:
  "\<exists>s. sched_reaches default_flags s \<and> shared_of s = [1] \<and>
    (\<forall>n. \<exists>s'. sys_run default_flags 1 (concat (replicate n handover)) s = Some (Inr s') \<and> shared_of s' = [1])"
proof -
  let ?evs = "[Start_outside, Start_outside, Wake 0, Loop 0, Land 0, Wait 0 By_read, Land 0, Io_done 1]"
  have "case default_run 1 ?evs of Some (Inr s) \<Rightarrow> shared_of s = [1] \<and> queue_of s = [] \<and> sy_pc s 0 = In_user 2 | _ \<Rightarrow> False"
    by code_simp
  from run_someD [OF this] obtain s where s: "default_run 1 ?evs = Some (Inr s)" "shared_of s = [1]" "queue_of s = []"
    "sy_pc s 0 = In_user 2" by blast
  from shared_list_starves [OF default_run_reaches [OF s(1)] s(4,3)] s default_run_reaches [OF s(1)] show ?thesis by auto
qed

end
