(* ===== verification/Smart_Timer.thy ===== *)
theory Smart_Timer
  imports Smart_Prelude "HOL-Library.While_Combinator"
begin

text \<open>
  The timer of \<open>src/smart_timer.cpp\<close>, \<open>include/smart_timer.h\<close> and \<open>include/timer_item.h\<close>:
  a heap of items ordered by their time stamp, the cached nearest time stamp, and the loop that
  fires what is due. The clock is an argument. The blocks under \<open>timer_heap_lock_\<close> are single
  steps, so an interleaving of threads is a sequence of operations.
\<close>

section \<open>The heap\<close>

record timer_item =
  ti_callback :: nat
  ti_args :: nat
  ti_timestamp :: uint64

text \<open>The interface of \<open>std::priority_queue\<close> that the timer relies on.\<close>

locale prio_queue =
  fixes is_empty :: "'h \<Rightarrow> bool" and push :: "'e \<Rightarrow> 'h \<Rightarrow> 'h" and top :: "'h \<Rightarrow> 'e" and pop :: "'h \<Rightarrow> 'h"
    and elems :: "'h \<Rightarrow> 'e multiset" and key :: "'e \<Rightarrow> 'k::linorder"
  assumes empty_iff: "is_empty h \<longleftrightarrow> elems h = {#}"
    and push_elems: "elems (push x h) = add_mset x (elems h)"
    and top_in: "\<not> is_empty h \<Longrightarrow> top h \<in># elems h"
    and top_least: "x \<in># elems h \<Longrightarrow> key (top h) \<le> key x"
    and pop_elems: "\<not> is_empty h \<Longrightarrow> elems (pop h) = elems h - {#top h#}"
begin

text \<open>The loop that takes all elements below a bound off the heap.\<close>

abbreviation pop_below :: "'k \<Rightarrow> 'h \<Rightarrow> 'e list \<Rightarrow> ('h \<times> 'e list) option" where
  "pop_below now h l \<equiv> while_option (\<lambda>(h, l). \<not> is_empty h \<and> key (top h) < now)
     (\<lambda>(h, l). (pop h, l @ [top h])) (h, l)"

lemma pop_size: "\<not> is_empty h \<Longrightarrow> size (elems (pop h)) < size (elems h)"
  using top_in [of h] by (simp add: pop_elems size_Diff_singleton empty_iff nonempty_has_size)

lemma pop_below_returns:
  "\<exists>h' fired. pop_below now h l = Some (h', l @ fired) \<and>
     mset fired = filter_mset (\<lambda>x. key x < now) (elems h) \<and> sorted (map key fired) \<and>
     elems h' = filter_mset (\<lambda>x. \<not> key x < now) (elems h)"
proof (induction "size (elems h)" arbitrary: h l rule: less_induct)
  case less
  show ?case
  proof (cases "\<not> is_empty h \<and> key (top h) < now")
    case False
    have "\<not> key x < now" if "x \<in># elems h" for x
    proof -
      have "\<not> is_empty h" using that empty_iff by auto
      with False have "\<not> key (top h) < now" by simp
      then show ?thesis using top_least [OF that] by (meson not_le order_trans)
    qed
    then have "filter_mset (\<lambda>x. key x < now) (elems h) = filter_mset (\<lambda>_. False) (elems h)"
      "filter_mset (\<lambda>x. \<not> key x < now) (elems h) = filter_mset (\<lambda>_. True) (elems h)"
      by - (rule filter_mset_cong; simp)+
    moreover have "pop_below now h l = Some (h, l)"
      by (subst while_option_unfold) (use False in auto)
    ultimately show ?thesis by (intro exI [of _ h] exI [of _ "[]"]) simp
  next
    case True
    let ?x = "top h"
    have e: "elems h = add_mset ?x (elems (pop h))"
      using pop_elems [of h] top_in [of h] True by simp
    obtain h' fired where IH: "pop_below now (pop h) (l @ [?x]) = Some (h', (l @ [?x]) @ fired)"
        "mset fired = filter_mset (\<lambda>x. key x < now) (elems (pop h))" "sorted (map key fired)"
        "elems h' = filter_mset (\<lambda>x. \<not> key x < now) (elems (pop h))"
      using less.hyps [of "pop h" "l @ [?x]"] pop_size [of h] True by blast
    have "key ?x \<le> key y" if "y \<in> set fired" for y
    proof -
      have "y \<in># mset fired" using that by simp
      then have "y \<in># elems h" using IH(2) e by auto
      then show ?thesis by (rule top_least)
    qed
    then have "sorted (map key (?x # fired))" using IH(3) by simp
    moreover have "pop_below now h l = Some (h', l @ ?x # fired)"
      by (subst while_option_unfold) (use True IH(1) in simp)
    ultimately show ?thesis using IH True e by (intro exI [of _ h'] exI [of _ "?x # fired"]) auto
  qed
qed

end

text \<open>
  \<open>std::priority_queue\<close> with \<open>TimerComp\<close>: the library does not say which of several items with
  the least time stamp is on top; here it is the first.
\<close>

type_synonym timer_heap = "timer_item list"

fun heap_top :: "timer_heap \<Rightarrow> timer_item" where
  "heap_top [x] = x"
| "heap_top (x # xs) = (if ti_timestamp (heap_top xs) < ti_timestamp x then heap_top xs else x)"

definition heap_empty :: "timer_heap \<Rightarrow> bool" where
  "heap_empty h \<longleftrightarrow> h = []"

definition heap_push :: "timer_item \<Rightarrow> timer_heap \<Rightarrow> timer_heap" where
  "heap_push x h = h @ [x]"

definition heap_pop :: "timer_heap \<Rightarrow> timer_heap" where
  "heap_pop h = remove1 (heap_top h) h"

lemma heap_top_in: "h \<noteq> [] \<Longrightarrow> heap_top h \<in> set h"
  by (induction h rule: heap_top.induct) auto

lemma heap_top_least: "x \<in> set h \<Longrightarrow> ti_timestamp (heap_top h) \<le> ti_timestamp x"
proof (induction h rule: heap_top.induct)
  case (2 y z zs)
  then show ?case by (auto simp: not_less dest: order_trans less_imp_le)
qed auto

interpretation th: prio_queue heap_empty heap_push heap_top heap_pop mset ti_timestamp
  by unfold_locales (auto simp: heap_push_def heap_pop_def heap_top_in heap_top_least heap_empty_def)

section \<open>Operations\<close>

record smart_timer =
  tm_heap :: timer_heap
  tm_nearest :: uint64
  tm_timeout_list :: "timer_item list"

definition SmartTimer_new :: smart_timer where
  "SmartTimer_new = \<lparr>tm_heap = [], tm_nearest = -1, tm_timeout_list = []\<rparr>"

type_synonym timeval = "int \<times> int"

definition get_timestamp :: "timeval \<Rightarrow> uint64" where
  "get_timestamp tv = of_int (fst tv * 1000 + snd tv)"

definition set_timer :: "nat \<Rightarrow> nat \<Rightarrow> uint64 \<Rightarrow> smart_timer \<Rightarrow> int \<times> smart_timer" where
  "set_timer callback args timestamp tm =
     (let tm1 = (if tm_nearest tm > timestamp then tm\<lparr>tm_nearest := timestamp\<rparr> else tm)
      in (0, tm1\<lparr>tm_heap := heap_push \<lparr>ti_callback = callback, ti_args = args, ti_timestamp = timestamp\<rparr> (tm_heap tm1)\<rparr>))"

definition set_timer_after :: "timeval \<Rightarrow> nat \<Rightarrow> nat \<Rightarrow> timeval \<Rightarrow> smart_timer \<Rightarrow> int \<times> smart_timer" where
  "set_timer_after clock callback args expire_time_duration tm =
     (let tp = get_timestamp clock;
          tp = tp + of_int (fst expire_time_duration * 1000);
          tp = tp + of_int (snd expire_time_duration)
      in set_timer callback args tp tm)"

definition set_timer_until :: "timeval \<Rightarrow> nat \<Rightarrow> nat \<Rightarrow> timeval \<Rightarrow> smart_timer \<Rightarrow> int \<times> smart_timer" where
  "set_timer_until clock callback args expire_time_point tm =
     (let now = get_timestamp clock; tp = get_timestamp expire_time_point
      in if tp < now then (-1, tm) else set_timer callback args tp tm)"

definition pop_expired :: "uint64 \<Rightarrow> smart_timer \<Rightarrow> smart_timer option" where
  "pop_expired now tm =
     map_option (\<lambda>(h, l). tm\<lparr>tm_heap := h, tm_timeout_list := l\<rparr>)
       (while_option (\<lambda>(h, l). \<not> heap_empty h \<and> ti_timestamp (heap_top h) < now)
          (\<lambda>(h, l). (heap_pop h, l @ [heap_top h])) (tm_heap tm, tm_timeout_list tm))"

text \<open>
  One round of \<open>run\<close> with what \<open>epoll_wait\<close> returned and the clock: the result of \<open>run\<close> when it
  is left, the items whose callbacks were called, in order, and the timer.
\<close>

definition timer_round :: "int \<Rightarrow> int \<Rightarrow> timeval \<Rightarrow> smart_timer \<Rightarrow> (int option \<times> timer_item list \<times> smart_timer) option" where
  "timer_round ret err clock tm =
     (if ret < 0 \<and> err \<noteq> 4 then Some (Some (-1), [], tm)
      else let now = get_timestamp clock in
        Option.bind
          (if tm_nearest tm < now
           then map_option (\<lambda>tm1. tm1\<lparr>tm_nearest :=
                  (if heap_empty (tm_heap tm1) then -1 else ti_timestamp (heap_top (tm_heap tm1)))\<rparr>) (pop_expired now tm)
           else Some tm)
          (\<lambda>tm1. Some (None, tm_timeout_list tm1, tm1\<lparr>tm_timeout_list := []\<rparr>)))"

section \<open>Correctness\<close>

text \<open>The cached time stamp is the least of the heap, or the maximum when it is empty.\<close>

definition timer_inv :: "smart_timer \<Rightarrow> bool" where
  "timer_inv tm \<longleftrightarrow> tm_timeout_list tm = [] \<and>
     tm_nearest tm = (if tm_heap tm = [] then -1 else ti_timestamp (heap_top (tm_heap tm)))"

lemma max_word_top: "(x :: uint64) \<le> -1"
  by simp

lemma heap_top_eqI:
  assumes "t \<in> ti_timestamp ` set h" "\<forall>x \<in> set h. t \<le> ti_timestamp x"
  shows "ti_timestamp (heap_top h) = t"
proof -
  have "h \<noteq> []" using assms(1) by auto
  then have "t \<le> ti_timestamp (heap_top h)" using assms(2) heap_top_in by blast
  moreover have "ti_timestamp (heap_top h) \<le> t" using assms(1) heap_top_least by auto
  ultimately show ?thesis by simp
qed

lemma SmartTimer_new_inv: "timer_inv SmartTimer_new"
  by (simp add: timer_inv_def SmartTimer_new_def)

lemma set_timer_inv:
  assumes "timer_inv tm"
  shows "timer_inv (snd (set_timer cb args ts tm))"
proof (cases "tm_heap tm = []")
  case True
  have "ts = - 1" if "\<not> ts < - 1" using that max_word_top [of ts] by (simp add: not_less)
  with True assms show ?thesis by (auto simp: timer_inv_def set_timer_def heap_push_def)
next
  case False
  let ?x = "\<lparr>ti_callback = cb, ti_args = args, ti_timestamp = ts\<rparr>"
  have n: "tm_nearest tm = ti_timestamp (heap_top (tm_heap tm))" using False assms by (simp add: timer_inv_def)
  have "ti_timestamp (heap_top (tm_heap tm @ [?x])) = min ts (tm_nearest tm)"
    by (rule heap_top_eqI) (auto simp: n min_def heap_top_in [OF False] intro: heap_top_least order_trans [OF _ heap_top_least])
  with assms False show ?thesis by (auto simp: timer_inv_def set_timer_def heap_push_def min_def not_less)
qed

lemma timer_round_ok:
  assumes "timer_inv tm" "ret \<ge> 0 \<or> err = 4"
  shows "\<exists>fired tm'. timer_round ret err clock tm = Some (None, fired, tm') \<and> timer_inv tm' \<and>
    mset fired = filter_mset (\<lambda>x. ti_timestamp x < get_timestamp clock) (mset (tm_heap tm)) \<and>
    sorted (map ti_timestamp fired) \<and>
    mset (tm_heap tm') = filter_mset (\<lambda>x. \<not> ti_timestamp x < get_timestamp clock) (mset (tm_heap tm))"
proof (cases "tm_nearest tm < get_timestamp clock")
  case True
  obtain h fired where d: "th.pop_below (get_timestamp clock) (tm_heap tm) [] = Some (h, [] @ fired)"
      "mset fired = filter_mset (\<lambda>x. ti_timestamp x < get_timestamp clock) (mset (tm_heap tm))"
      "sorted (map ti_timestamp fired)"
      "mset h = filter_mset (\<lambda>x. \<not> ti_timestamp x < get_timestamp clock) (mset (tm_heap tm))"
    using th.pop_below_returns [of "get_timestamp clock" "tm_heap tm" "[]"] by blast
  let ?tm = "tm\<lparr>tm_heap := h, tm_timeout_list := [], tm_nearest := (if h = [] then -1 else ti_timestamp (heap_top h))\<rparr>"
  have "pop_expired (get_timestamp clock) tm = Some (tm\<lparr>tm_heap := h, tm_timeout_list := fired\<rparr>)"
    using d(1) assms(1) by (simp add: pop_expired_def timer_inv_def)
  then have "timer_round ret err clock tm = Some (None, fired, ?tm)"
    using True assms(2) by (auto simp: timer_round_def heap_empty_def)
  moreover have "timer_inv ?tm" by (simp add: timer_inv_def)
  ultimately show ?thesis using d(2-4) by (intro exI [of _ fired] exI [of _ ?tm]) simp
next
  case False
  have "\<not> ti_timestamp x < get_timestamp clock" if "x \<in> set (tm_heap tm)" for x
  proof -
    have "tm_nearest tm = ti_timestamp (heap_top (tm_heap tm))" using that assms(1) by (auto simp: timer_inv_def)
    then have "tm_nearest tm \<le> ti_timestamp x" using heap_top_least [OF that] by simp
    then show ?thesis using False by (auto dest: le_less_trans)
  qed
  then have "filter_mset (\<lambda>x. ti_timestamp x < get_timestamp clock) (mset (tm_heap tm)) = filter_mset (\<lambda>_. False) (mset (tm_heap tm))"
    "filter_mset (\<lambda>x. \<not> ti_timestamp x < get_timestamp clock) (mset (tm_heap tm)) = filter_mset (\<lambda>_. True) (mset (tm_heap tm))"
    by - (rule filter_mset_cong; simp)+
  moreover have "timer_round ret err clock tm = Some (None, [], tm)"
    using False assms by (auto simp: timer_round_def timer_inv_def)
  ultimately show ?thesis using assms(1) by (intro exI [of _ "[]"] exI [of _ tm]) simp
qed

section \<open>Sequences of operations\<close>

datatype timer_op =
    Set_after timeval nat nat timeval      \<comment> \<open>clock, callback, argument, duration\<close>
  | Set_until timeval nat nat timeval      \<comment> \<open>clock, callback, argument, time point\<close>
  | Round timeval                          \<comment> \<open>a round of \<open>run\<close> at that clock\<close>

fun timer_do :: "timer_op \<Rightarrow> smart_timer \<Rightarrow> smart_timer option" where
  "timer_do (Set_after clock cb args d) tm = Some (snd (set_timer_after clock cb args d tm))"
| "timer_do (Set_until clock cb args p) tm = Some (snd (set_timer_until clock cb args p tm))"
| "timer_do (Round clock) tm = map_option (snd \<circ> snd) (timer_round 0 0 clock tm)"

fun run_timer :: "timer_op list \<Rightarrow> smart_timer \<Rightarrow> smart_timer option" where
  "run_timer [] tm = Some tm"
| "run_timer (t # ts) tm = Option.bind (timer_do t tm) (run_timer ts)"

text \<open>The abstract timer: the items that are set and not yet due.\<close>

abbreviation item :: "nat \<Rightarrow> nat \<Rightarrow> uint64 \<Rightarrow> timer_item" where
  "item cb args ts \<equiv> \<lparr>ti_callback = cb, ti_args = args, ti_timestamp = ts\<rparr>"

fun pending :: "timer_op list \<Rightarrow> timer_item multiset \<Rightarrow> timer_item multiset" where
  "pending [] m = m"
| "pending (Set_after clock cb args d # ts) m =
     pending ts (add_mset (item cb args (get_timestamp clock + of_int (fst d * 1000) + of_int (snd d))) m)"
| "pending (Set_until clock cb args p # ts) m =
     pending ts (if get_timestamp p < get_timestamp clock then m else add_mset (item cb args (get_timestamp p)) m)"
| "pending (Round clock # ts) m = pending ts (filter_mset (\<lambda>x. \<not> ti_timestamp x < get_timestamp clock) m)"

lemma set_timer_heap: "mset (tm_heap (snd (set_timer cb args ts tm))) = add_mset (item cb args ts) (mset (tm_heap tm))"
  by (simp add: set_timer_def heap_push_def Let_def)

lemma run_timer_pending:
  "timer_inv tm \<Longrightarrow> \<exists>tm'. run_timer ts tm = Some tm' \<and> timer_inv tm' \<and> mset (tm_heap tm') = pending ts (mset (tm_heap tm))"
proof (induction ts arbitrary: tm)
  case (Cons t ts)
  have "\<exists>tm1. timer_do t tm = Some tm1 \<and> timer_inv tm1 \<and> pending ts (mset (tm_heap tm1)) = pending (t # ts) (mset (tm_heap tm))"
  proof (cases t)
    case (Set_after clock cb args d)
    then show ?thesis using set_timer_inv [OF Cons.prems]
      by (simp add: set_timer_after_def Let_def set_timer_heap)
  next
    case (Set_until clock cb args p)
    then show ?thesis using set_timer_inv [OF Cons.prems] Cons.prems
      by (simp add: set_timer_until_def Let_def set_timer_heap)
  next
    case (Round clock)
    then show ?thesis using timer_round_ok [OF Cons.prems, of 0 0 clock] by auto
  qed
  then obtain tm1 where tm1: "timer_do t tm = Some tm1" "timer_inv tm1"
    "pending ts (mset (tm_heap tm1)) = pending (t # ts) (mset (tm_heap tm))" by blast
  from Cons.IH [OF tm1(2)] tm1 show ?case by simp
qed simp

section \<open>Properties\<close>

text \<open>C19. The timer loop is exact with respect to its time stamps: after any sequence of settings and
  rounds, a round returns and fires precisely the pending items whose time stamp is below the clock's,
  each once and in the order of their time stamps, and keeps all others; the cached nearest
  time stamp never makes it miss one.\<close>

theorem timer_fires_exactly_due:
  assumes "ret \<ge> 0 \<or> err = 4"
  shows "\<exists>tm fired tm'. run_timer ts SmartTimer_new = Some tm \<and> timer_round ret err clock tm = Some (None, fired, tm') \<and>
    mset fired = filter_mset (\<lambda>x. ti_timestamp x < get_timestamp clock) (pending ts {#}) \<and>
    sorted (map ti_timestamp fired) \<and>
    mset (tm_heap tm') = filter_mset (\<lambda>x. \<not> ti_timestamp x < get_timestamp clock) (pending ts {#})"
proof -
  obtain tm where tm: "run_timer ts SmartTimer_new = Some tm" "timer_inv tm" "mset (tm_heap tm) = pending ts {#}"
    using run_timer_pending [OF SmartTimer_new_inv, of ts] by (auto simp: SmartTimer_new_def)
  from timer_round_ok [OF tm(2) assms, of clock] tm show ?thesis by auto
qed

theorem timer_fires_exactly_due_witness:
  "\<exists>tm fired tm'. run_timer [Set_until (1, 0) 7 0 (3, 0), Set_until (1, 0) 8 0 (2, 0)] SmartTimer_new = Some tm \<and>
     timer_round 0 0 (2, 500) tm = Some (None, fired, tm') \<and> fired = [item 8 0 2000]"
proof -
  obtain tm fired tm' where *: "run_timer [Set_until (1, 0) 7 0 (3, 0), Set_until (1, 0) 8 0 (2, 0)] SmartTimer_new = Some tm"
    "timer_round 0 0 (2, 500) tm = Some (None, fired, tm')" "mset fired = {#item 8 0 2000#}"
    using timer_fires_exactly_due [of 0 0 "[Set_until (1, 0) 7 0 (3, 0), Set_until (1, 0) 8 0 (2, 0)]" "(2, 500)"]
    by (auto simp: get_timestamp_def)
  then show ?thesis by auto
qed

text \<open>C40. A timer set for a duration fires far too early: a time stamp adds milliseconds to
  microseconds, so a timer set for \<open>s\<close> seconds and \<open>u\<close> microseconds is due when \<open>s\<close>
  milliseconds and \<open>u + 1\<close> microseconds have passed (within the same second of the clock), although
  the interface promises at least the duration.\<close>

theorem timer_fires_early:
  assumes "0 \<le> t" "0 \<le> v" "0 \<le> s" "0 \<le> u" "v + s * 1000 + u + 1 < 1000000" "t * 1000 < 2 ^ 62"
  shows "\<exists>fired tm'. timer_round 0 0 (t, v + s * 1000 + u + 1) (snd (set_timer_after (t, v) cb args (s, u) SmartTimer_new)) =
    Some (None, fired, tm') \<and> map ti_callback fired = [cb]"
proof -
  let ?tm = "snd (set_timer_after (t, v) cb args (s, u) SmartTimer_new)" and ?clock = "(t, v + s * 1000 + u + 1)"
  let ?x = "item cb args (get_timestamp (t, v) + of_int (s * 1000) + of_int u)"
  have heap: "mset (tm_heap ?tm) = {#?x#}" and inv: "timer_inv ?tm"
    using set_timer_inv [OF SmartTimer_new_inv]
    by (simp_all add: set_timer_after_def Let_def set_timer_heap SmartTimer_new_def)
  have "ti_timestamp ?x = of_int (t * 1000 + v + s * 1000 + u)" by (simp add: get_timestamp_def)
  moreover have "get_timestamp ?clock = of_int (t * 1000 + v + s * 1000 + u + 1)" by (simp add: get_timestamp_def algebra_simps)
  ultimately have "ti_timestamp ?x < get_timestamp ?clock"
    using assms by (simp add: word_less_def uint_word_of_int_eq take_bit_int_eq_self del: of_int_add of_int_mult)
  then have "filter_mset (\<lambda>x. ti_timestamp x < get_timestamp ?clock) (mset (tm_heap ?tm)) = {#?x#}"
    using heap by simp
  with timer_round_ok [OF inv, of 0 0 ?clock] show ?thesis by fastforce
qed

theorem timer_fires_early_witness:
  "\<exists>fired tm'. timer_round 0 0 (100, 2001) (snd (set_timer_after (100, 0) 7 0 (2, 0) SmartTimer_new)) =
    Some (None, fired, tm') \<and> map ti_callback fired = [7]"
  using timer_fires_early [of 100 0 2 0 7 0] by simp

end
