(* ===== verification/Service_Loops.thy ===== *)
theory Service_Loops
  imports EPoll Smart_Timer
begin

text \<open>
  The loops of the epoll thread and of the timer thread as a whole: \<open>SmartEPoller::eventloop\<close> and
  \<open>SmartTimer::run\<close> over the answers of the \<open>epoll_wait\<close> calls made so far, with the thread functions
  \<open>run_epoller\<close> and \<open>run_timer\<close> of \<open>src/smart_runtime.cpp\<close> around them. The result is \<open>None\<close> while the
  loop runs on.
\<close>

section \<open>The epoll thread\<close>

type_synonym wait_answer = "int \<times> int \<times> epoll_event list"

fun eventloop ::
  "('cb \<Rightarrow> ('cb, 'x) epoller_scheme \<Rightarrow> ('cb, 'x) epoller_scheme res) \<Rightarrow> wait_answer list \<Rightarrow> ('cb, 'x) epoller_scheme \<Rightarrow>
   (int option \<times> ('cb, 'x) epoller_scheme) res" where
  "eventloop exec [] ep = Inr (None, ep)"
| "eventloop exec ((ready_num, err, evs) # ws) ep =
     bind_res (eventloop_round exec ready_num err evs ep) (\<lambda>(r, ep1).
       case r of None \<Rightarrow> eventloop exec ws ep1 | Some ret \<Rightarrow> Inr (Some ret, ep1))"

text \<open>What \<open>init\<close> answers is not looked at.\<close>

definition run_epoller ::
  "flags \<Rightarrow> ('cb \<Rightarrow> ('cb, 'x) epoller_scheme \<Rightarrow> ('cb, 'x) epoller_scheme res) \<Rightarrow> int \<Rightarrow> wait_answer list \<Rightarrow>
   ('cb, 'x) epoller_scheme \<Rightarrow> (int option \<times> ('cb, 'x) epoller_scheme) res option" where
  "run_epoller fl exec create_ret ws ep =
     map_option (\<lambda>(_, ep1). eventloop exec ws ep1) (SmartEPoller_init fl create_ret ep)"

definition SmartEPoller_delete :: "('cb, 'x) epoller_scheme \<Rightarrow> ('cb, 'x) epoller_scheme" where
  "SmartEPoller_delete ep = ep\<lparr>ep_evlist := None\<rparr>"

text \<open>A wait that fails other than by a signal ends the loop; nothing else does.\<close>

definition wait_failed :: "int \<times> int \<times> 'e \<Rightarrow> bool" where
  "wait_failed w \<longleftrightarrow> fst w < 0 \<and> fst (snd w) \<noteq> EINTR"

lemma eventloop_round_ends:
  "eventloop_round exec n err evs ep = Inr (r, ep') \<Longrightarrow>
   r = (if wait_failed (n, err, evs) then Some (-1) else None)"
  by (auto simp: eventloop_round_def wait_failed_def bind_res_Inr_iff split: if_splits option.splits)

lemma eventloop_ends:
  "eventloop exec ws ep = Inr (r, ep') \<Longrightarrow> r = (if \<exists>w \<in> set ws. wait_failed w then Some (-1) else None)"
proof (induction ws arbitrary: ep)
  case (Cons w ws)
  obtain n err evs where w: "w = (n, err, evs)" by (cases w)
  obtain r1 ep1 where r1: "eventloop_round exec n err evs ep = Inr (r1, ep1)"
    "(case r1 of None \<Rightarrow> eventloop exec ws ep1 | Some ret \<Rightarrow> Inr (Some ret, ep1)) = Inr (r, ep')"
    using Cons.prems by (auto simp: w bind_res_Inr_iff)
  show ?case using eventloop_round_ends [OF r1(1)] r1(2) Cons.IH [of ep1] by (auto simp: w split: if_splits)
qed simp

lemma eventloop_append:
  "eventloop exec (ws1 @ ws2) ep = bind_res (eventloop exec ws1 ep) (\<lambda>(r, ep1).
     case r of None \<Rightarrow> eventloop exec ws2 ep1 | Some ret \<Rightarrow> Inr (Some ret, ep1))"
  by (induction exec ws1 ep rule: eventloop.induct)
    (auto simp: bind_res_def split: option.splits sum.splits prod.splits)

text \<open>After the first failure the thread is gone: no later answer is looked at.\<close>

lemma eventloop_dead:
  assumes "eventloop exec (ws @ [w]) ep = Inr (r, ep')" "wait_failed w"
  shows "eventloop exec (ws @ w # ws') ep = Inr (Some (-1), ep')"
proof -
  have "r = Some (-1)" using eventloop_ends [OF assms(1)] assms(2) by auto
  with assms(1) eventloop_append [of exec "ws @ [w]" ws' ep] show ?thesis by (simp add: bind_res_def)
qed

text \<open>When \<open>epoll_create\<close> fails \<open>run_epoller\<close> goes on to the loop with an invalid descriptor, for which
  \<open>epoll_wait\<close> answers \<open>EBADF\<close>: the thread ends, and nothing that waits is ever resumed.\<close>

lemma run_epoller_ignores_init:
  assumes "create_ret < 0"
  shows "run_epoller fl exec create_ret ((-1, 9, evs) # ws) ep = Some (Inr (Some (-1), ep))"
  using assms by (simp add: run_epoller_def SmartEPoller_init_def eventloop_round_def)

section \<open>The timer thread\<close>

fun timer_rounds :: "(int \<times> int \<times> timeval) list \<Rightarrow> smart_timer \<Rightarrow> (int option \<times> timer_item list \<times> smart_timer) option" where
  "timer_rounds [] tm = Some (None, [], tm)"
| "timer_rounds ((ret, err, clock) # ws) tm =
     Option.bind (timer_round ret err clock tm) (\<lambda>(r, fired, tm1).
       case r of Some v \<Rightarrow> Some (Some v, fired, tm1)
       | None \<Rightarrow> map_option (\<lambda>(r', fired', tm2). (r', fired @ fired', tm2)) (timer_rounds ws tm1))"

definition SmartTimer_run ::
  "int \<Rightarrow> (int \<times> int \<times> timeval) list \<Rightarrow> smart_timer \<Rightarrow> (int option \<times> timer_item list \<times> smart_timer) option" where
  "SmartTimer_run create_ret ws tm = (if create_ret < 0 then Some (Some (-1), [], tm) else timer_rounds ws tm)"

text \<open>Over any number of rounds the loop returns from each, keeps its invariant and neither loses nor
  repeats an item; it fires only what is due at the clock of some round, and afterwards nothing is
  left that was due at the clock of a round.\<close>

lemma timer_rounds_conserve:
  "\<lbrakk>timer_inv tm; \<forall>w \<in> set ws. \<not> wait_failed w\<rbrakk> \<Longrightarrow>
   \<exists>fired tm'. timer_rounds ws tm = Some (None, fired, tm') \<and> timer_inv tm' \<and>
     mset fired + mset (tm_heap tm') = mset (tm_heap tm) \<and>
     (\<forall>x \<in> set fired. \<exists>(ret, err, clock) \<in> set ws. ti_timestamp x < get_timestamp clock) \<and>
     (\<forall>x \<in> set (tm_heap tm'). \<forall>(ret, err, clock) \<in> set ws. \<not> ti_timestamp x < get_timestamp clock)"
proof (induction ws arbitrary: tm)
  case (Cons w ws)
  obtain ret err clock where w: "w = (ret, err, clock)" by (cases w)
  have "0 \<le> ret \<or> err = 4" using Cons.prems(2) w by (auto simp: wait_failed_def)
  from timer_round_ok [OF Cons.prems(1) this, of clock] obtain f1 tm1 where
    1: "timer_round ret err clock tm = Some (None, f1, tm1)" "timer_inv tm1"
      "mset f1 = filter_mset (\<lambda>x. ti_timestamp x < get_timestamp clock) (mset (tm_heap tm))"
      "mset (tm_heap tm1) = filter_mset (\<lambda>x. \<not> ti_timestamp x < get_timestamp clock) (mset (tm_heap tm))" by blast
  obtain f2 tm2 where 2: "timer_rounds ws tm1 = Some (None, f2, tm2)" "timer_inv tm2" "mset f2 + mset (tm_heap tm2) = mset (tm_heap tm1)"
     "\<forall>x \<in> set f2. \<exists>(ret, err, clock) \<in> set ws. ti_timestamp x < get_timestamp clock"
     "\<forall>x \<in> set (tm_heap tm2). \<forall>(ret, err, clock) \<in> set ws. \<not> ti_timestamp x < get_timestamp clock"
    using Cons.IH [OF 1(2)] Cons.prems(2) by auto
  have "mset f1 + mset (tm_heap tm1) = mset (tm_heap tm)" unfolding 1(3,4) by (rule multiset_partition [symmetric])
  then have "mset (f1 @ f2) + mset (tm_heap tm2) = mset (tm_heap tm)" using 2(3) by (simp add: add.assoc)
  moreover have "ti_timestamp x < get_timestamp clock" if "x \<in> set f1" for x
    using that 1(3) by (metis (no_types, lifting) filter_mset_eq_conv set_mset_mset mem_Collect_eq set_mset_filter)
  moreover have "\<not> ti_timestamp x < get_timestamp clock" if "x \<in> set (tm_heap tm2)" for x
  proof -
    have "x \<in># mset (tm_heap tm1)" unfolding 2(3) [symmetric] using that by simp
    then show ?thesis unfolding 1(4) by simp
  qed
  ultimately show ?case using 1(1) 2 w by (intro exI [of _ "f1 @ f2"] exI [of _ tm2]) fastforce
qed simp

lemma timer_rounds_end:
  "timer_rounds ws tm = Some (Some r, fired, tm') \<Longrightarrow> r = -1 \<and> (\<exists>w \<in> set ws. wait_failed w)"
proof (induction ws arbitrary: tm fired)
  case (Cons w ws)
  obtain ret err clock where w: "w = (ret, err, clock)" by (cases w)
  show ?case
  proof (cases "wait_failed w")
    case True
    with Cons.prems show ?thesis by (auto simp: w timer_round_def wait_failed_def)
  next
    case False
    obtain r1 f1 tm1 where r1: "timer_round ret err clock tm = Some (r1, f1, tm1)"
      using Cons.prems by (auto simp: w split: Option.bind_splits)
    with False have "r1 = None" by (auto simp: w timer_round_def wait_failed_def Let_def split: Option.bind_splits)
    then obtain f2 where "timer_rounds ws tm1 = Some (Some r, f2, tm')" using Cons.prems r1 by (auto simp: w)
    from Cons.IH [OF this] show ?thesis by simp
  qed
qed simp

lemma SmartTimer_run_ends:
  "SmartTimer_run create_ret ws tm = Some (Some r, fired, tm') \<Longrightarrow>
   r = -1 \<and> (create_ret < 0 \<or> (\<exists>w \<in> set ws. wait_failed w))"
  using timer_rounds_end [of ws tm r fired tm'] by (auto simp: SmartTimer_run_def split: if_splits)

end
