(* ===== verification/Endpoint.thy ===== *)
theory Endpoint
  imports Error_Code
begin

text \<open>
  Addresses and endpoints: \<open>src/address.cpp\<close>, \<open>src/endpoint.cpp\<close> and their headers, with the
  byte layout of the objects on Linux x86-64, because the sources copy bytes between members with
  \<open>memcpy\<close>. \<open>inet_pton\<close> and \<open>inet_ntop\<close> are arguments; what is relied on is that a parsed IPv4
  address has 4 bytes and a parsed IPv6 address has 16.
\<close>

unbundle bit_operations_syntax

section \<open>Addresses\<close>

datatype address_type = NoAddress | Ipv4 | Ipv6    \<comment> \<open>\<open>None\<close>, \<open>Ipv4\<close>, \<open>Ipv6\<close>\<close>

record address =
  ad_union :: block              \<comment> \<open>16 bytes: \<open>addr_\<close> (4 bytes) or \<open>addr6_\<close>\<close>
  ad_type :: address_type

definition Address_new :: address where
  "Address_new = \<lparr>ad_union = replicate 16 None, ad_type = NoAddress\<rparr>"

definition is_v4 :: "address \<Rightarrow> bool" where "is_v4 a \<longleftrightarrow> ad_type a = Ipv4"
definition is_v6 :: "address \<Rightarrow> bool" where "is_v6 a \<longleftrightarrow> ad_type a = Ipv6"

definition set_ipv4_address :: "block \<Rightarrow> address \<Rightarrow> address res" where
  "set_ipv4_address addr a =
     bind_res (mem_read addr 0 4) (\<lambda>xs. bind_res (mem_write (ad_union a) 0 xs) (\<lambda>u.
       Inr (a\<lparr>ad_union := u, ad_type := Ipv4\<rparr>)))"

definition set_ipv6_address :: "block \<Rightarrow> address \<Rightarrow> address res" where
  "set_ipv6_address addr a =
     bind_res (mem_read addr 0 16) (\<lambda>xs. bind_res (mem_write (ad_union a) 0 xs) (\<lambda>u.
       Inr (a\<lparr>ad_union := u, ad_type := Ipv6\<rparr>)))"

text \<open>\<open>inet_pton\<close> for both families: the bytes it stores, or \<open>None\<close> when it returns 0.\<close>

type_synonym pton = "string \<Rightarrow> byte list option"

definition make_address :: "pton \<Rightarrow> pton \<Rightarrow> string \<Rightarrow> code_val \<Rightarrow> (address \<times> code_val) res" where
  "make_address pton4 pton6 address_str code =
     (let a = Address_new in
      if CHR ''.'' \<in> set address_str then
        (case pton4 address_str of
           None \<Rightarrow> Inr (a\<lparr>ad_type := Ipv4\<rparr>, InvalidArgument)
         | Some bs \<Rightarrow> bind_res (mem_write (ad_union a) 0 (map Some bs)) (\<lambda>u.
             Inr (a\<lparr>ad_union := u, ad_type := Ipv4\<rparr>, code)))
      else if CHR '':'' \<in> set address_str then
        (case pton6 address_str of
           None \<Rightarrow> Inr (a\<lparr>ad_type := Ipv6\<rparr>, InvalidArgument)
         | Some bs \<Rightarrow> bind_res (mem_write (ad_union a) 0 (map Some bs)) (\<lambda>u.
             Inr (a\<lparr>ad_union := u, ad_type := Ipv6\<rparr>, code)))
      else Inr (a, InvalidArgument))"

fun initialised :: "block \<Rightarrow> byte list res" where
  "initialised [] = Inr []"
| "initialised (None # xs) = Inl UninitRead"
| "initialised (Some x # xs) = bind_res (initialised xs) (\<lambda>ys. Inr (x # ys))"

text \<open>\<open>to_string\<close>: without an address the string is built from a null pointer.\<close>

definition address_to_string :: "(byte list \<Rightarrow> string) \<Rightarrow> (byte list \<Rightarrow> string) \<Rightarrow> address \<Rightarrow> string res" where
  "address_to_string ntop4 ntop6 a =
     (case ad_type a of
        Ipv4 \<Rightarrow> bind_res (initialised (take 4 (ad_union a))) (\<lambda>bs. Inr (ntop4 bs))
      | Ipv6 \<Rightarrow> bind_res (initialised (ad_union a)) (\<lambda>bs. Inr (ntop6 bs))
      | NoAddress \<Rightarrow> Inl NullDeref)"

text \<open>
  \<open>memcpy\<close> between two places of one object, and \<open>copy_addr\<close>: it copies the size of a whole
  \<open>sockaddr_in\<close> or \<open>sockaddr_in6\<close> from the address union, which lies at \<open>src\<close> of the object.
\<close>

definition memcpy_within :: "nat \<Rightarrow> nat \<Rightarrow> nat \<Rightarrow> block \<Rightarrow> block res" where
  "memcpy_within dst src n obj =
     (if dst < src + n \<and> src < dst + n then Inl OverlapCopy
      else bind_res (mem_read obj src n) (mem_write obj dst))"

definition sizeof_sockaddr_in :: nat where "sizeof_sockaddr_in = 16"
definition sizeof_sockaddr_in6 :: nat where "sizeof_sockaddr_in6 = 28"

definition copy_addr :: "address \<Rightarrow> nat \<Rightarrow> nat \<Rightarrow> block \<Rightarrow> block res" where
  "copy_addr a src dst obj =
     (case ad_type a of
        Ipv4 \<Rightarrow> memcpy_within dst src sizeof_sockaddr_in obj
      | Ipv6 \<Rightarrow> memcpy_within dst src sizeof_sockaddr_in6 obj
      | NoAddress \<Rightarrow> Inr obj)"

section \<open>Endpoints\<close>

record endpoint =
  ep_union :: block              \<comment> \<open>28 bytes: \<open>addr_\<close> or \<open>addr6_\<close>\<close>
  ep_address :: address
  ep_port :: uint16

text \<open>The object in memory: the union at offset 0, \<open>address_\<close> at 28 (its type at 44), \<open>port_\<close> at
  48, two bytes of padding.\<close>

primrec type_bytes :: "address_type \<Rightarrow> block" where
  "type_bytes NoAddress = map Some [0, 0, 0, 0]"
| "type_bytes Ipv4 = map Some [1, 0, 0, 0]"
| "type_bytes Ipv6 = map Some [2, 0, 0, 0]"

definition host_bytes :: "uint16 \<Rightarrow> byte list" where
  "host_bytes p = [ucast p, ucast (drop_bit 8 p)]"

definition net_bytes :: "uint16 \<Rightarrow> byte list" where
  "net_bytes p = [ucast (drop_bit 8 p), ucast p]"

definition endpoint_image :: "endpoint \<Rightarrow> block" where
  "endpoint_image e = ep_union e @ ad_union (ep_address e) @ type_bytes (ad_type (ep_address e)) @
     map Some (host_bytes (ep_port e)) @ [None, None]"

definition Endpoint_default :: endpoint where
  "Endpoint_default = \<lparr>ep_union = replicate 28 None, ep_address = Address_new, ep_port = -1\<rparr>"

definition convert_to_sockaddr_in :: "endpoint \<Rightarrow> endpoint res" where
  "convert_to_sockaddr_in e =
     (if is_v4 (ep_address e) then
        let u = map Some ([2, 0] @ net_bytes (ep_port e) @ replicate 12 0) @ drop 16 (ep_union e) in
        bind_res (copy_addr (ep_address e) 28 4 (endpoint_image (e\<lparr>ep_union := u\<rparr>))) (\<lambda>obj.
          Inr (e\<lparr>ep_union := take 28 obj\<rparr>))
      else if is_v6 (ep_address e) then
        let u = map Some ([10, 0] @ net_bytes (ep_port e) @ replicate 24 0) in
        bind_res (copy_addr (ep_address e) 28 8 (endpoint_image (e\<lparr>ep_union := u\<rparr>))) (\<lambda>obj.
          Inr (e\<lparr>ep_union := take 28 obj\<rparr>))
      else Inr e)"

definition Endpoint_new :: "address \<Rightarrow> uint16 \<Rightarrow> endpoint res" where
  "Endpoint_new a port =
     convert_to_sockaddr_in \<lparr>ep_union = replicate 28 None, ep_address = a, ep_port = port\<rparr>"

definition make_endpoint :: "pton \<Rightarrow> pton \<Rightarrow> string \<Rightarrow> uint16 \<Rightarrow> code_val \<Rightarrow> (endpoint \<times> code_val) res" where
  "make_endpoint pton4 pton6 ip port ec =
     bind_res (make_address pton4 pton6 ip ec) (\<lambda>(a, ec').
     bind_res (convert_to_sockaddr_in (Endpoint_default\<lparr>ep_address := a, ep_port := port\<rparr>)) (\<lambda>e.
       Inr (e, ec')))"

text \<open>The \<open>sockaddr\<close> and its size; \<open>None\<close> is the null pointer, with the size left unset.\<close>

definition to_sockaddr_in :: "endpoint \<Rightarrow> (block \<times> nat) option" where
  "to_sockaddr_in e =
     (if is_v4 (ep_address e) then Some (take 16 (ep_union e), 16)
      else if is_v6 (ep_address e) then Some (ep_union e, 28)
      else None)"

definition from_sockaddr :: "block \<Rightarrow> endpoint \<Rightarrow> endpoint res" where
  "from_sockaddr sa e =
     bind_res (bind_res (mem_read sa 0 4) initialised) (\<lambda>h.
       let port = ucast (h ! 2) OR push_bit 8 (ucast (h ! 3)) :: uint16 in
       if take 2 h = [2, 0] then
         bind_res (set_ipv4_address (drop 4 sa) (ep_address e)) (\<lambda>a.
           Inr (e\<lparr>ep_address := a, ep_port := port\<rparr>))
       else if take 2 h = [10, 0] then
         bind_res (set_ipv6_address (drop 8 sa) (ep_address e)) (\<lambda>a.
           Inr (e\<lparr>ep_address := a, ep_port := port\<rparr>))
       else Inr e)"

fun dec_string :: "nat \<Rightarrow> string" where
  "dec_string n = (if n < 10 then [char_of (48 + n)] else dec_string (n div 10) @ [char_of (48 + n mod 10)])"

declare dec_string.simps [simp del]

definition endpoint_to_string :: "(byte list \<Rightarrow> string) \<Rightarrow> (byte list \<Rightarrow> string) \<Rightarrow> endpoint \<Rightarrow> string res" where
  "endpoint_to_string ntop4 ntop6 e =
     bind_res (address_to_string ntop4 ntop6 (ep_address e)) (\<lambda>str. Inr (str @ '':'' @ dec_string (unat (ep_port e))))"

section \<open>IPv4 endpoints\<close>

definition swap_bytes :: "uint16 \<Rightarrow> uint16" where
  "swap_bytes p = drop_bit 8 p OR push_bit 8 p"

lemma swap_bytes_net:
  "ucast (ucast (drop_bit 8 p) :: byte) OR push_bit 8 (ucast (ucast p :: byte)) = swap_bytes p"
  by (auto simp: swap_bytes_def bit_eq_iff bit_simps dest: bit_imp_le_length)

lemma swap_bytes_twice [simp]: "swap_bytes (swap_bytes p) = p"
proof (rule bit_word_eqI)
  fix n assume "n < LENGTH(16)"
  then show "bit (swap_bytes (swap_bytes p)) n \<longleftrightarrow> bit p n"
    by (cases "n < 8") (auto simp: swap_bytes_def bit_simps dest: bit_imp_le_length)
qed

lemma make_address_v4:
  assumes "CHR ''.'' \<in> set ip" "pton4 ip = Some bs" "length bs = 4"
  shows "make_address pton4 pton6 ip ec =
    Inr (\<lparr>ad_union = map Some bs @ replicate 12 None, ad_type = Ipv4\<rparr>, ec)"
  using assms by (simp add: make_address_def Address_new_def mem_write_def)

lemma convert_v4:
  assumes "length (ep_union e) = 28" "length bs = 4" "length us = 12"
    and "ep_address e = \<lparr>ad_union = map Some bs @ us, ad_type = Ipv4\<rparr>"
  shows "convert_to_sockaddr_in e =
    Inr (e\<lparr>ep_union := map Some ([2, 0] @ net_bytes (ep_port e) @ bs) @ us @ drop 20 (ep_union e)\<rparr>)"
  using assms
  by (simp add: convert_to_sockaddr_in_def is_v4_def copy_addr_def memcpy_within_def sizeof_sockaddr_in_def
      endpoint_image_def host_bytes_def net_bytes_def mem_read_def mem_write_def Let_def)

section \<open>Properties\<close>

text \<open>C39. An IPv4 endpoint produces the right socket address: family \<open>AF_INET\<close>, the port in
  network byte order and the parsed address. Read back with \<open>from_sockaddr\<close>, as for an
  accepted peer, the address is the same but the port has its bytes swapped, because it is not converted
  from network order; and the stored socket address is not updated.\<close>

theorem endpoint_v4_round_trip:
  assumes "CHR ''.'' \<in> set ip" "pton4 ip = Some bs" "length bs = 4"
    and "length (ep_union e) = 28" "length (ad_union (ep_address e)) = 16"
  shows "\<exists>e1 sa e2. make_endpoint pton4 pton6 ip port ec = Inr (e1, ec) \<and> ep_port e1 = port \<and>
    to_sockaddr_in e1 = Some (sa, 16) \<and> take 8 sa = map Some ([2, 0] @ net_bytes port @ bs) \<and>
    from_sockaddr sa e = Inr e2 \<and> ep_port e2 = swap_bytes port \<and> ep_union e2 = ep_union e \<and>
    (\<forall>ntop4 ntop6. address_to_string ntop4 ntop6 (ep_address e2) = Inr (ntop4 bs) \<and>
       address_to_string ntop4 ntop6 (ep_address e1) = Inr (ntop4 bs))"
proof -
  obtain b0 b1 b2 b3 where bs: "bs = [b0, b1, b2, b3]"
    using assms(3) by (auto simp: length_Suc_conv eval_nat_numeral)
  let ?a = "\<lparr>ad_union = map Some bs @ replicate 12 None, ad_type = Ipv4\<rparr>"
  let ?e = "Endpoint_default\<lparr>ep_address := ?a, ep_port := port\<rparr>"
  let ?e1 = "?e\<lparr>ep_union := map Some ([2, 0] @ net_bytes port @ bs) @ replicate 12 None @ drop 20 (ep_union ?e)\<rparr>"
  have "convert_to_sockaddr_in ?e = Inr ?e1"
    using convert_v4 [of ?e bs "replicate 12 None"] assms(3) by (simp add: Endpoint_default_def)
  then have mk: "make_endpoint pton4 pton6 ip port ec = Inr (?e1, ec)"
    using make_address_v4 [where ?pton4.0 = pton4, OF assms(1-3)] by (simp add: make_endpoint_def)
  let ?sa = "map Some ([2, 0] @ net_bytes port @ bs) @ replicate 8 None"
  have sa: "to_sockaddr_in ?e1 = Some (?sa, 16)"
    by (simp add: to_sockaddr_in_def is_v4_def net_bytes_def bs)
  let ?e2 = "e\<lparr>ep_address := ep_address e\<lparr>ad_union := map Some bs @ drop (length bs) (ad_union (ep_address e)), ad_type := Ipv4\<rparr>, ep_port := swap_bytes port\<rparr>"
  have fr: "from_sockaddr ?sa e = Inr ?e2"
    using assms(5) by (simp add: from_sockaddr_def net_bytes_def bs set_ipv4_address_def mem_read_def mem_write_def
        Let_def swap_bytes_net)
  show ?thesis
    using mk sa fr by (intro exI [of _ ?e1] exI [of _ ?sa] exI [of _ ?e2])
      (simp add: net_bytes_def bs address_to_string_def)
qed

theorem endpoint_v4_round_trip_witness:
  "\<exists>e1 sa e2. make_endpoint (\<lambda>_. Some [127, 0, 0, 1]) (\<lambda>_. None) ''127.0.0.1'' 80 Success = Inr (e1, Success) \<and>
    to_sockaddr_in e1 = Some (sa, 16) \<and> from_sockaddr sa Endpoint_default = Inr e2 \<and> ep_port e2 = 20480"
proof -
  have s: "swap_bytes 80 = 20480" by (simp add: swap_bytes_def)
  show ?thesis
    using endpoint_v4_round_trip [of "''127.0.0.1''" "\<lambda>_. Some [127, 0, 0, 1]" "[127, 0, 0, 1]" Endpoint_default "\<lambda>_. None" 80 Success]
    unfolding s by (auto simp: Endpoint_default_def Address_new_def)
qed

text \<open>Building an IPv6 endpoint is undefined behaviour: \<open>copy_addr\<close> copies the 28 bytes of a
  \<open>sockaddr_in6\<close> from the 16-byte address into the socket address in front of it, and the two
  ranges overlap.\<close>

lemma endpoint_v6_overlap:
  assumes "is_v6 a"
  shows "Endpoint_new a port = Inl OverlapCopy"
  using assms
  by (simp add: Endpoint_new_def convert_to_sockaddr_in_def is_v4_def is_v6_def copy_addr_def memcpy_within_def
      sizeof_sockaddr_in6_def Let_def)

lemma endpoint_v6_overlap_witness:
  "Endpoint_new \<lparr>ad_union = map Some (replicate 15 0 @ [1]), ad_type = Ipv6\<rparr> 80 = Inl OverlapCopy"
  by (rule endpoint_v6_overlap) (simp add: is_v6_def)

end
