(* ===== verification/Tcp_Socket.thy ===== *)
theory Tcp_Socket
  imports Read_Until Endpoint
begin

text \<open>
  The socket objects: \<open>TcpSocket\<close> (\<open>src/tcp_socket.cpp\<close>) and its subclass \<open>Acceptor\<close>
  (\<open>src/acceptor.cpp\<close>), over the blocking calls and the endpoints. The results of the
  system calls are arguments; an operation that closes descriptors returns them.
\<close>

section \<open>Sockets\<close>

record tcp_socket =
  so_socket :: fd
  so_opened :: bool
  so_bound :: bool
  so_connected :: bool

abbreviation EPERM :: int where "EPERM \<equiv> 1"
abbreviation ENOMEM :: int where "ENOMEM \<equiv> 12"
abbreviation EACCES :: int where "EACCES \<equiv> 13"
abbreviation EINVAL :: int where "EINVAL \<equiv> 22"
abbreviation ENFILE :: int where "ENFILE \<equiv> 23"
abbreviation EMFILE :: int where "EMFILE \<equiv> 24"
abbreviation EADDRINUSE :: int where "EADDRINUSE \<equiv> 98"
abbreviation ECONNABORTED :: int where "ECONNABORTED \<equiv> 103"
abbreviation ENOBUFS :: int where "ENOBUFS \<equiv> 105"

definition TcpSocket_new :: tcp_socket where
  "TcpSocket_new = \<lparr>so_socket = -1, so_opened = False, so_bound = False, so_connected = False\<rparr>"

text \<open>The move constructor: the new object and what it leaves of the other.\<close>

definition TcpSocket_move :: "tcp_socket \<Rightarrow> tcp_socket \<times> tcp_socket" where
  "TcpSocket_move other = (other,
     other\<lparr>so_socket := -1, so_bound := False, so_opened := False, so_connected := False\<rparr>)"

text \<open>The descriptors that \<open>::close\<close> is called on.\<close>

definition TcpSocket_delete :: "'a tcp_socket_scheme \<Rightarrow> fd list" where
  "TcpSocket_delete s = (if so_socket s \<ge> 0 then [so_socket s] else [])"

definition tcp_open ::
  "bool \<Rightarrow> fd \<Rightarrow> int \<Rightarrow> int \<Rightarrow> 'a tcp_socket_scheme \<Rightarrow> code_val \<Rightarrow> 'a tcp_socket_scheme \<times> code_val" where
  "tcp_open tls fd fcntl_ret err s ec =
     (if so_opened s then (s, InvalidArgument)
      else let s1 = s\<lparr>so_socket := fst (smart_socket tls fd fcntl_ret)\<rparr> in
        if so_socket s1 < 0 then
          (s1, if err = EMFILE \<or> err = ENFILE then InsufficientResources
               else if err = ENOBUFS \<or> err = ENOMEM then OutOfMemory else ec)
        else (s1\<lparr>so_opened := True\<rparr>, ec))"

definition tcp_bind ::
  "endpoint \<Rightarrow> int \<Rightarrow> int \<Rightarrow> 'a tcp_socket_scheme \<Rightarrow> code_val \<Rightarrow> 'a tcp_socket_scheme \<times> code_val" where
  "tcp_bind e ret err s ec =
     (if \<not> so_opened s \<or> so_bound s then (s, InvalidArgument)
      else case to_sockaddr_in e of None \<Rightarrow> (s, InvalidArgument)
        | Some _ \<Rightarrow>
            if ret < 0 then
              (s, if err = EACCES then PermissionDenied else if err = EADDRINUSE then AddressInUse else ec)
            else (s\<lparr>so_bound := True\<rparr>, ec))"

text \<open>
  \<open>connect\<close> does not test the pointer from \<open>to_sockaddr_in\<close>: without an address it passes on an
  \<open>addr_size\<close> that was never set.
\<close>

definition tcp_connect ::
  "epoll_ctl \<Rightarrow> bool \<Rightarrow> nat \<Rightarrow> item_ptr \<Rightarrow> int \<times> int \<Rightarrow> (int \<times> int \<times> int) list \<Rightarrow> int \<Rightarrow> io_callback epoller \<Rightarrow>
   endpoint \<Rightarrow> 'a tcp_socket_scheme \<Rightarrow> code_val \<Rightarrow>
   ('a tcp_socket_scheme \<times> code_val \<times> io_callback epoller) option res" where
  "tcp_connect ctl tls coro item first outs errno ep peer s ec =
     (if \<not> so_opened s \<or> so_connected s then Inr (Some (s, InvalidArgument, ep))
      else case to_sockaddr_in peer of None \<Rightarrow> Inl UninitRead
        | Some _ \<Rightarrow>
            bind_res (smart_connect ctl tls (so_socket s) coro item first outs errno ep) (\<lambda>r.
              Inr (map_option (\<lambda>io.
                if io_ret io < 0 then
                  (s, if io_errno io = EACCES \<or> io_errno io = EPERM then PermissionDenied
                      else if io_errno io = EADDRINUSE then AddressInUse else ec, io_epoller io)
                else (s\<lparr>so_connected := True\<rparr>, ec, io_epoller io)) r)))"

definition tcp_close :: "'a tcp_socket_scheme \<Rightarrow> code_val \<Rightarrow> 'a tcp_socket_scheme \<times> code_val \<times> fd list" where
  "tcp_close s ec =
     (if \<not> so_opened s then (s, InvalidArgument, [])
      else if so_socket s \<ge> 0 then
        (s\<lparr>so_socket := -1, so_opened := False, so_bound := False, so_connected := False\<rparr>, ec, [so_socket s])
      else (s, ec, []))"

definition set_accepted_fd :: "fd \<Rightarrow> 'a tcp_socket_scheme \<Rightarrow> 'a tcp_socket_scheme \<times> fd list" where
  "set_accepted_fd fd s =
     (s\<lparr>so_socket := fd, so_opened := True, so_bound := True, so_connected := True\<rparr>,
      if so_socket s \<ge> 0 then [so_socket s] else [])"

text \<open>
  \<open>read\<close>, \<open>write\<close>, \<open>read_until\<close>: the guard, the blocking call, and \<open>int ret\<close>. The buffers of \<open>read\<close>
  and \<open>write\<close> are views of a store; the data of a write are the bytes the kernel has taken.
\<close>

definition tcp_read ::
  "epoll_ctl \<Rightarrow> bool \<Rightarrow> store \<Rightarrow> pointer mutable_buffer \<Rightarrow> nat \<Rightarrow> item_ptr \<Rightarrow> read_outcome list \<Rightarrow> int \<Rightarrow>
   io_callback epoller \<Rightarrow> 'a tcp_socket_scheme \<Rightarrow> code_val \<Rightarrow> (store io_return \<times> code_val) option res" where
  "tcp_read ctl tls h buffer coro item outs errno ep s ec =
     (if \<not> so_opened s \<or> \<not> so_connected s
      then Inr (Some (\<lparr>io_ret = -1, io_errno = errno, io_data = h, io_epoller = ep\<rparr>, InvalidArgument))
      else bind_res (smart_read ctl tls (so_socket s) (bytes_at h (mb_data buffer)) (mb_size buffer) coro item outs errno ep) (\<lambda>r.
             Inr (map_option (\<lambda>io. (\<lparr>io_ret = to_int (io_ret io), io_errno = io_errno io,
               io_data = set_bytes_at h (mb_data buffer) (io_data io), io_epoller = io_epoller io\<rparr>, ec)) r)))"

definition tcp_write ::
  "epoll_ctl \<Rightarrow> bool \<Rightarrow> store \<Rightarrow> pointer const_buffer \<Rightarrow> nat \<Rightarrow> item_ptr \<Rightarrow> (int \<times> int) list \<Rightarrow> int \<Rightarrow>
   io_callback epoller \<Rightarrow> 'a tcp_socket_scheme \<Rightarrow> code_val \<Rightarrow> (block io_return \<times> code_val) option res" where
  "tcp_write ctl tls h buffer coro item outs errno ep s ec =
     (if \<not> so_opened s \<or> \<not> so_connected s
      then Inr (Some (\<lparr>io_ret = -1, io_errno = errno, io_data = [], io_epoller = ep\<rparr>, InvalidArgument))
      else bind_res (smart_write ctl tls (so_socket s) (bytes_at h (cb_data buffer)) (cb_size buffer) coro item outs errno ep) (\<lambda>r.
             Inr (map_option (\<lambda>io. (io\<lparr>io_ret := to_int (io_ret io)\<rparr>, ec)) r)))"

definition tcp_read_until ::
  "flags \<Rightarrow> bool \<Rightarrow> epoll_ctl \<Rightarrow> bool \<Rightarrow> dynamic_buffer \<Rightarrow> byte list \<Rightarrow> nat \<Rightarrow> item_ptr \<Rightarrow> read_outcome list \<Rightarrow> int \<Rightarrow>
   io_callback epoller \<Rightarrow> 'a tcp_socket_scheme \<Rightarrow> code_val \<Rightarrow>
   (dynamic_buffer \<times> code_val) io_return option res option" where
  "tcp_read_until fl mok ctl tls buffer delim coro item outs errno ep s ec =
     (if \<not> so_opened s \<or> \<not> so_connected s
      then Some (Inr (Some \<lparr>io_ret = -1, io_errno = errno, io_data = (buffer, InvalidArgument), io_epoller = ep\<rparr>))
      else smart_read_until fl mok ctl tls (so_socket s) buffer delim ec coro item outs errno ep)"

section \<open>Acceptors\<close>

record acceptor = tcp_socket +
  ac_listening :: bool

definition Acceptor_new :: acceptor where
  "Acceptor_new = tcp_socket.extend TcpSocket_new \<lparr>ac_listening = False\<rparr>"

definition acceptor_listen :: "int \<Rightarrow> int \<Rightarrow> acceptor \<Rightarrow> code_val \<Rightarrow> acceptor \<times> code_val" where
  "acceptor_listen ret err a ec =
     (if \<not> so_opened a \<or> ac_listening a then (a, InvalidArgument)
      else if ret < 0 then (a, if err = EADDRINUSE then AddressInUse else ec)
      else (a\<lparr>ac_listening := True\<rparr>, ec))"

text \<open>\<open>accept\<close>: \<open>sa\<close> is the zeroed \<open>sockaddr_in6\<close> as the call left it. The result is the peer, its
  endpoint, the error code, the closed descriptors and the poller.\<close>

definition accept_code :: "int \<Rightarrow> code_val \<Rightarrow> code_val" where
  "accept_code err ec =
     (if err = ECONNABORTED then ConnectionAborted
      else if err = EMFILE \<or> err = ENFILE then InsufficientResources
      else if err = EINVAL then InvalidArgument
      else if err = ENOBUFS \<or> err = ENOMEM then OutOfMemory
      else if err = EPERM then PermissionDenied else ec)"

definition acceptor_accept ::
  "epoll_ctl \<Rightarrow> bool \<Rightarrow> nat \<Rightarrow> item_ptr \<Rightarrow> (int \<times> int) list \<Rightarrow> int \<Rightarrow> io_callback epoller \<Rightarrow> block \<Rightarrow>
   acceptor \<Rightarrow> tcp_socket \<Rightarrow> endpoint \<Rightarrow> code_val \<Rightarrow>
   (tcp_socket \<times> endpoint \<times> code_val \<times> fd list \<times> io_callback epoller) option res" where
  "acceptor_accept ctl tls coro item outs errno ep sa a peer peer_endpoint ec =
     (if \<not> so_opened a \<or> \<not> ac_listening a then Inr (Some (peer, peer_endpoint, InvalidArgument, [], ep))
      else bind_res (smart_accept ctl tls (so_socket a) coro item outs errno ep) (\<lambda>r.
        case r of None \<Rightarrow> Inr None
        | Some io \<Rightarrow>
            if io_ret io < 0 then Inr (Some (peer, peer_endpoint, accept_code (io_errno io) ec, [], io_epoller io))
            else let (peer', closed) = set_accepted_fd (io_ret io) peer in
              bind_res (from_sockaddr sa peer_endpoint) (\<lambda>e.
                Inr (Some (peer', e, ec, closed, io_epoller io)))))"

definition set_address_reuse :: "acceptor \<Rightarrow> code_val \<Rightarrow> code_val" where
  "set_address_reuse a ec = (if \<not> so_opened a then InvalidArgument else ec)"

section \<open>Descriptors\<close>

text \<open>The flags agree with the descriptor.\<close>

definition sock_inv :: "'a tcp_socket_scheme \<Rightarrow> bool" where
  "sock_inv s \<longleftrightarrow> (so_opened s \<longleftrightarrow> so_socket s \<ge> 0) \<and> (so_bound s \<longrightarrow> so_opened s) \<and> (so_connected s \<longrightarrow> so_opened s)"

text \<open>
  The life of a socket with the descriptors it acquired and those it closed so far. A moved
  socket lives on in the new object.
\<close>

inductive sock_life :: "tcp_socket \<Rightarrow> fd list \<Rightarrow> fd list \<Rightarrow> bool" where
  construct: "sock_life TcpSocket_new [] []"
| opened: "\<lbrakk>sock_life s A C; tcp_open tls fd fcntl_ret err s ec = (s', ec')\<rbrakk>
    \<Longrightarrow> sock_life s' (A @ (if so_opened s \<or> fd < 0 then [] else [fd])) C"
| binding: "\<lbrakk>sock_life s A C; tcp_bind e ret err s ec = (s', ec')\<rbrakk> \<Longrightarrow> sock_life s' A C"
| connecting: "\<lbrakk>sock_life s A C; tcp_connect ctl tls coro item first outs errno ep peer s ec = Inr (Some (s', ec', ep'))\<rbrakk>
    \<Longrightarrow> sock_life s' A C"
| closing: "\<lbrakk>sock_life s A C; tcp_close s ec = (s', ec', closed)\<rbrakk> \<Longrightarrow> sock_life s' A (C @ closed)"
| accepting: "\<lbrakk>sock_life s A C; fd \<ge> 0; set_accepted_fd fd s = (s', closed)\<rbrakk> \<Longrightarrow> sock_life s' (A @ [fd]) (C @ closed)"
| moving: "\<lbrakk>sock_life s A C; TcpSocket_move s = (s', old)\<rbrakk> \<Longrightarrow> sock_life s' A C"

lemma sock_life_balance:
  "sock_life s A C \<Longrightarrow> sock_inv s \<and> mset A = mset C + mset (TcpSocket_delete s)"
proof (induction rule: sock_life.induct)
  case (opened s A C tls fd fcntl_ret err ec s' ec')
  then show ?case
    by (auto simp: tcp_open_def smart_socket_def sock_inv_def TcpSocket_delete_def Let_def split: if_splits)
next
  case (binding s A C e ret err ec s' ec')
  then show ?case
    by (auto simp: tcp_bind_def sock_inv_def TcpSocket_delete_def split: if_splits option.splits)
next
  case (connecting s A C ctl tls coro item first outs errno ep peer ec s' ec' ep')
  then show ?case
    by (auto simp: tcp_connect_def sock_inv_def TcpSocket_delete_def bind_res_Inr_iff split: if_splits option.splits)
next
  case (closing s A C ec s' ec' closed)
  then show ?case
    by (auto simp: tcp_close_def sock_inv_def TcpSocket_delete_def split: if_splits)
next
  case (accepting s A C fd s' closed)
  then show ?case
    by (auto simp: set_accepted_fd_def sock_inv_def TcpSocket_delete_def split: if_splits)
next
  case (moving s A C s' old)
  then show ?case by (auto simp: TcpSocket_move_def sock_inv_def TcpSocket_delete_def)
qed (simp add: TcpSocket_new_def sock_inv_def TcpSocket_delete_def)

section \<open>Properties\<close>

text \<open>C20. A socket neither leaks nor double-closes: whatever sequence of operations it goes through,
  moves included, its flags agree with its descriptor, and when it is destroyed every descriptor
  it ever acquired has been closed exactly once.\<close>

theorem socket_closes_every_descriptor:
  assumes "sock_life s acquired closed"
  shows "sock_inv s \<and> mset acquired = mset (closed @ TcpSocket_delete s) \<and>
    TcpSocket_delete (snd (TcpSocket_move s)) = []"
  using sock_life_balance [OF assms] by (simp add: TcpSocket_move_def TcpSocket_delete_def)

theorem socket_closes_every_descriptor_witness:
  "let s = fst (tcp_open True 5 0 0 TcpSocket_new Success); s' = fst (set_accepted_fd 6 s)
   in sock_inv s' \<and> mset [5, 6] = mset ([5] @ TcpSocket_delete s')"
proof -
  have 1: "sock_life (fst (tcp_open True 5 0 0 TcpSocket_new Success)) [5] []"
    using sock_life.opened [OF sock_life.construct, of True 5 0 0 Success]
    by (simp add: tcp_open_def smart_socket_def TcpSocket_new_def Let_def)
  have "sock_life (fst (set_accepted_fd 6 (fst (tcp_open True 5 0 0 TcpSocket_new Success)))) ([5] @ [6]) ([] @ [5])"
    by (rule sock_life.accepting [OF 1])
      (simp_all add: set_accepted_fd_def tcp_open_def smart_socket_def TcpSocket_new_def Let_def)
  from socket_closes_every_descriptor [OF this] show ?thesis by (simp add: Let_def)
qed

text \<open>An acceptor cannot be used again after \<open>close\<close>: \<open>listening_\<close> keeps its value, so after
  it has been reopened every \<open>listen\<close> is refused, while \<open>accept\<close> passes its guard although the
  new socket does not listen.\<close>

lemma acceptor_not_reusable:
  assumes "so_opened a" "so_socket a \<ge> 0" "ac_listening a" "fd \<ge> 0"
    and "a2 = fst (tcp_open True fd fcntl_ret err (fst (tcp_close a ec)) ec1)"
  shows "so_opened a2 \<and> so_socket a2 = fd \<and> (\<forall>ret err ec. acceptor_listen ret err a2 ec = (a2, InvalidArgument)) \<and>
    (\<forall>ctl tls coro item outs errno ep sa peer e ec.
       smart_accept ctl tls fd coro item outs errno ep = Inr None \<longrightarrow>
       acceptor_accept ctl tls coro item outs errno ep sa a2 peer e ec = Inr None)"
  using assms(1-4) unfolding assms(5)
  by (simp add: tcp_close_def tcp_open_def smart_socket_def acceptor_listen_def acceptor_accept_def Let_def)

lemma acceptor_not_reusable_witness:
  "let a = \<lparr>so_socket = 3, so_opened = True, so_bound = True, so_connected = False, ac_listening = True\<rparr>;
       a2 = fst (tcp_open True 4 0 0 (fst (tcp_close a Success)) Success)
   in so_opened a2 \<and> so_socket a2 = 4 \<and> acceptor_listen 0 0 a2 Success = (a2, InvalidArgument)"
  using acceptor_not_reusable [of "\<lparr>so_socket = 3, so_opened = True, so_bound = True, so_connected = False, ac_listening = True\<rparr>"
      4 _ 0 0 Success Success, OF _ _ _ _ refl]
  by (simp add: Let_def)

section \<open>Reading and writing through views\<close>

lemma to_int_case: "to_int (case e of Failed _ \<Rightarrow> -1 | _ \<Rightarrow> x) = (case e of Failed _ \<Rightarrow> -1 | _ \<Rightarrow> to_int x)"
  by (simp add: to_int_id split: io_end.splits)

text \<open>
  \<open>read\<close> of a connected socket: the bytes received are stored behind the pointer of the view, and the
  result is their number as an \<open>int\<close>.
\<close>

lemma tcp_read_outcome:
  assumes "epoll_ctl_spec ctl pollable" "free_for pollable (so_socket s) item ep" "so_opened s" "so_connected s"
    and "unat (mb_size b) \<le> length (bytes_at h (mb_data b))" "unat (mb_size b) < 2 ^ 63" "read_outs_ok (unat (mb_size b)) 0 outs"
  shows "tcp_read ctl True h b coro item outs errno ep s ec = Inr (map_option (\<lambda>(bs, e).
      (\<lparr>io_ret = (case e of Failed _ \<Rightarrow> -1 | _ \<Rightarrow> to_int (int (length bs))), io_errno = errno,
        io_data = set_bytes_at h (mb_data b) (map Some bs @ drop (length bs) (bytes_at h (mb_data b))), io_epoller = ep\<rparr>, ec))
    (read_spec (unat (mb_size b)) [] outs))"
  using smart_read_outcome [OF assms(1,2,5,6,7), of coro errno] assms(3,4)
  by (cases "read_spec (unat (mb_size b)) [] outs") (auto simp: tcp_read_def to_int_case split: io_end.splits)

lemma tcp_write_outcome:
  assumes "epoll_ctl_spec ctl pollable" "free_for pollable (so_socket s) item ep" "so_opened s" "so_connected s"
    and "unat (cb_size b) \<le> length (bytes_at h (cb_data b))" "unat (cb_size b) < 2 ^ 63" "write_outs_ok (unat (cb_size b)) 0 outs"
  shows "tcp_write ctl True h b coro item outs errno ep s ec = Inr (map_option (\<lambda>(m, e).
      (\<lparr>io_ret = (case e of Failed _ \<Rightarrow> -1 | _ \<Rightarrow> to_int (int m)), io_errno = errno,
        io_data = take m (bytes_at h (cb_data b)), io_epoller = ep\<rparr>, ec))
    (write_spec (unat (cb_size b)) 0 outs))"
  using smart_write_outcome [OF assms(1,2,5,6,7), of coro errno] assms(3,4)
  by (cases "write_spec (unat (cb_size b)) 0 outs") (auto simp: tcp_write_def to_int_case split: io_end.splits)

text \<open>C31. An echo: what \<open>read\<close> stored through a view of some memory, \<open>write\<close> sends from the same memory.
  Through any splitting into chunks and any answers of the kernel, the bytes that leave are a prefix of
  the bytes received, all of them when \<open>write\<close> completes, and no other memory has changed.\<close>

theorem tcp_echo:
  assumes "epoll_ctl_spec ctl pollable" "free_for pollable (so_socket s) item ep" "so_opened s" "so_connected s"
    and "unat n \<le> length (bytes_at h p)" "unat n < 2 ^ 31" "read_outs_ok (unat n) 0 outs"
    and "read_spec (unat n) [] outs = Some (bs, e)" "\<forall>err. e \<noteq> Failed err" "write_outs_ok (length bs) 0 wouts"
  shows "\<exists>h'. tcp_read ctl True h (mutable_buffer_of p n) coro item outs errno ep s ec =
      Inr (Some (\<lparr>io_ret = int (length bs), io_errno = errno, io_data = h', io_epoller = ep\<rparr>, ec)) \<and>
    (\<forall>q. q \<noteq> p \<longrightarrow> bytes_at h' q = bytes_at h q) \<and>
    tcp_write ctl True h' (const_buffer_of p (of_nat (length bs))) coro item wouts errno ep s ec =
      Inr (map_option (\<lambda>(m, e). (\<lparr>io_ret = (case e of Failed _ \<Rightarrow> -1 | _ \<Rightarrow> int m), io_errno = errno,
        io_data = map Some (take m bs), io_epoller = ep\<rparr>, ec)) (write_spec (length bs) 0 wouts))"
proof -
  let ?blk = "map Some bs @ drop (length bs) (bytes_at h p)"
  define h' where "h' = set_bytes_at h p ?blk"
  have len: "length bs \<le> unat n" using read_spec_bounds [OF _ _ assms(8)] assms(7) by simp
  have cnt: "unat (of_nat (length bs) :: size_t) = length bs" using len assms(6) by (simp add: unat_of_nat)
  have there: "bytes_at h' p = ?blk"
  proof (cases "bytes_at h p = []")
    case True
    then have "?blk = bytes_at h p" using len assms(5) by simp
    then show ?thesis unfolding h'_def by (metis set_bytes_at_same)
  qed (simp add: h'_def bytes_at_set(1))
  have rd: "tcp_read ctl True h (mutable_buffer_of p n) coro item outs errno ep s ec =
      Inr (Some (\<lparr>io_ret = int (length bs), io_errno = errno, io_data = h', io_epoller = ep\<rparr>, ec))"
    using tcp_read_outcome [OF assms(1-4), of "mutable_buffer_of p n" h outs coro errno ec] assms(5-9) len
    by (auto simp: h'_def to_int_id split: io_end.splits)
  have wr: "tcp_write ctl True h' (const_buffer_of p (of_nat (length bs))) coro item wouts errno ep s ec =
      Inr (map_option (\<lambda>(m, e). (\<lparr>io_ret = (case e of Failed _ \<Rightarrow> -1 | _ \<Rightarrow> int m), io_errno = errno,
        io_data = map Some (take m bs), io_epoller = ep\<rparr>, ec)) (write_spec (length bs) 0 wouts))"
  proof -
    have "m \<le> length bs" if "write_spec (length bs) 0 wouts = Some (m, e')" for m e'
      using write_spec_bounds [OF assms(10) _ that] by simp
    then show ?thesis
      using tcp_write_outcome [OF assms(1-4), of "const_buffer_of p (of_nat (length bs))" h' wouts coro errno ec] assms(6,10) len
      by (cases "write_spec (length bs) 0 wouts") (auto simp: cnt there to_int_id take_map split: io_end.splits)
  qed
  show ?thesis using rd wr by (intro exI [of _ h']) (simp add: h'_def bytes_at_set(2))
qed

text \<open>
  The result is an \<open>int\<close>: a view of \<open>2 ^ 31\<close> bytes or more that \<open>read\<close> fills gives a negative result,
  which the caller cannot tell from an error.
\<close>

lemma tcp_read_result_wraps:
  assumes "epoll_ctl_spec ctl pollable" "free_for pollable (so_socket s) item ep" "so_opened s" "so_connected s"
    and "unat n \<le> length (bytes_at h p)" "2 ^ 31 \<le> unat n" "unat n < 2 ^ 32" "read_outs_ok (unat n) 0 outs"
    and "read_spec (unat n) [] outs = Some (bs, Complete)"
  shows "\<exists>h'. tcp_read ctl True h (mutable_buffer_of p n) coro item outs errno ep s ec =
    Inr (Some (\<lparr>io_ret = int (unat n) - 2 ^ 32, io_errno = errno, io_data = h', io_epoller = ep\<rparr>, ec))"
proof -
  have len: "length bs = unat n" using read_spec_bounds [OF _ _ assms(9)] assms(8) by simp
  have wrap: "to_int (int k) = int k - 2 ^ 32" if "2 ^ 31 \<le> k" "k < 2 ^ 32" for k
  proof -
    have "signed_take_bit 31 (int k) = take_bit 32 (int k + 2 ^ 31) - 2 ^ 31" by (simp add: signed_take_bit_eq_take_bit_shift)
    moreover have "take_bit 32 (int k + 2 ^ 31) = int k + 2 ^ 31 - 2 ^ 32"
      using that by (simp add: take_bit_eq_mod mod_pos_geq mod_pos_pos_trivial)
    ultimately show ?thesis by (simp add: to_int_def)
  qed
  have "to_int (int (unat n)) = int (unat n) - 2 ^ 32" by (rule wrap [OF assms(6,7)])
  then show ?thesis
    using tcp_read_outcome [OF assms(1-4), of "mutable_buffer_of p n" h outs coro errno ec] assms(5-9) len by simp
qed

theorem tcp_echo_witness:
  "\<exists>h'. tcp_read (epoll_ctl_map (\<lambda>_. True)) True [1 \<mapsto> replicate 4 None, 2 \<mapsto> [Some 7]] (mutable_buffer_of (Some 1) 4) 7 1
      [(2, [10, 11], 0), (-1, [], EWOULDBLOCK), (1, [12], 0), (0, [], 0)] 0 SmartEPoller_new
      \<lparr>so_socket = 5, so_opened = True, so_bound = True, so_connected = True\<rparr> Success =
    Inr (Some (\<lparr>io_ret = 3, io_errno = 0, io_data = h', io_epoller = SmartEPoller_new\<rparr>, Success)) \<and> bytes_at h' (Some 2) = [Some 7] \<and>
    tcp_write (epoll_ctl_map (\<lambda>_. True)) True h' (const_buffer_of (Some 1) 3) 7 1 [(1, 0), (2, 0)] 0 SmartEPoller_new
      \<lparr>so_socket = 5, so_opened = True, so_bound = True, so_connected = True\<rparr> Success =
    Inr (Some (\<lparr>io_ret = 3, io_errno = 0, io_data = [Some 10, Some 11, Some 12], io_epoller = SmartEPoller_new\<rparr>, Success))"
proof -
  let ?s = "\<lparr>so_socket = 5, so_opened = True, so_bound = True, so_connected = True\<rparr>"
  have f: "free_for (\<lambda>_. True) (so_socket ?s) 1 SmartEPoller_new" by (simp add: free_for_def SmartEPoller_new_def)
  let ?h = "[1 \<mapsto> replicate 4 None, 2 \<mapsto> [Some 7]] :: store" and ?bs = "[10, 11, 12] :: byte list"
  let ?outs = "[(2, [10, 11], 0), (-1, [], EWOULDBLOCK), (1, [12], 0), (0, [], 0)] :: read_outcome list"
  have op: "so_opened ?s" "so_connected ?s" by simp_all
  have n: "unat (4 :: size_t) \<le> length (bytes_at ?h (Some 1))" "unat (4 :: size_t) < 2 ^ 31" by simp_all
  have rd: "read_outs_ok (unat (4 :: size_t)) 0 ?outs" "read_spec (unat (4 :: size_t)) [] ?outs = Some (?bs, Eof)" by simp_all
  have nf: "\<forall>err. Eof \<noteq> Failed err" by simp
  have wr: "write_outs_ok (length ?bs) 0 [(1, 0), (2, 0)]" "write_spec (length ?bs) 0 [(1, 0), (2, 0)] = Some (3, Complete)" by simp_all
  have k: "int (length ?bs) = 3" "of_nat (length ?bs) = (3 :: size_t)" "take 3 ?bs = ?bs" by simp_all
  have b: "bytes_at ?h (Some 2) = [Some 7]" by simp
  show ?thesis
    using tcp_echo [OF epoll_ctl_map_spec f op n rd nf wr(1), of 7 0 Success, unfolded wr(2) k]
    by (elim exE conjE, intro exI conjI) (assumption, use b in \<open>simp only: option.inject simp_thms\<close>, simp add: k)
qed

end
