(* ===== verification/Context_Switch.thy ===== *)
theory Context_Switch
  imports Smart_Prelude
begin

text \<open>
  What the scheduler relies on when it calls \<open>jump_fcontext\<close>, for every processor the sources
  have a version for: the caller's context is stored in a frame on its own stack and the address of
  the frame through the first argument; control arrives where the frame given as the second
  argument says, with the callee-saved registers and the stack pointer stored there; nothing else is
  written. The theories of the individual processors prove these laws of their instruction
  sequences.
\<close>

unbundle bit_operations_syntax

section \<open>Aligned addresses\<close>

lemma unat_add_mod:
  assumes "k dvd 2 ^ LENGTH('a)" "unat (d :: 'a::len word) mod k = 0"
  shows "unat (a + d) mod k = unat a mod k"
proof -
  have "unat (a + d) mod k = (unat a + unat d) mod k"
    using assms(1) by (simp add: unat_word_ariths mod_mod_cancel)
  also have "\<dots> = unat a mod k" using assms(2) by (simp add: mod_add_eq [symmetric])
  finally show ?thesis .
qed

text \<open>Rounding down to a multiple of 16.\<close>

lemma unat_round_16: "unat ((x :: 'a::len word) AND - 16) = unat x - unat x mod 16"
proof -
  have "(- 16 :: 'a word) = NOT (mask 4)" by (simp add: mask_eq_exp_minus_1)
  then show ?thesis using unat_and_not_mask [of x 4] by simp
qed

text \<open>The room for a frame at the end of a stack.\<close>

lemma unat_frame:
  fixes bp a b :: "'a::len word"
  assumes "unat a \<le> unat bp" "unat b + 15 \<le> unat bp - unat a"
  shows "unat (((bp - a) AND - 16) - b) = unat bp - unat a - (unat bp - unat a) mod 16 - unat b"
proof -
  let ?n = "unat bp - unat a"
  have "unat (bp - a) = ?n" using assms(1) by (simp add: unat_minus_le word_le_unat)
  then have u: "unat ((bp - a) AND - 16) = ?n - ?n mod 16" by (simp add: unat_round_16)
  have "?n mod 16 < 16" by simp
  then have "b \<le> (bp - a) AND - 16" unfolding word_le_unat u using assms(2) by linarith
  then show ?thesis by (simp only: unat_minus_le u)
qed

section \<open>Consecutive cells\<close>

text \<open>The addresses of \<open>n\<close> cells of size \<open>d\<close>, and storing a list of values there.\<close>

primrec cells :: "'a::len word \<Rightarrow> 'a word \<Rightarrow> nat \<Rightarrow> 'a word list" where
  "cells d a 0 = []"
| "cells d a (Suc n) = a # cells d (a + d) n"

primrec put_cells :: "'a::len word \<Rightarrow> 'a word \<Rightarrow> 'v list \<Rightarrow> ('a word \<Rightarrow> 'v) \<Rightarrow> 'a word \<Rightarrow> 'v" where
  "put_cells d a [] m = m"
| "put_cells d a (v # vs) m = put_cells d (a + d) vs (m(a := v))"

lemma length_cells [simp]: "length (cells d a n) = n"
  by (induction n arbitrary: a) simp_all

lemma put_cells_other: "x \<notin> set (cells d a (length vs)) \<Longrightarrow> put_cells d a vs m x = m x"
  by (induction vs arbitrary: a m) simp_all

lemma put_cells_get: "distinct (cells d a (length vs)) \<Longrightarrow> map (put_cells d a vs m) (cells d a (length vs)) = vs"
proof (induction vs arbitrary: a m)
  case (Cons v vs)
  then show ?case using put_cells_other [of a d "a + d" vs "m(a := v)"] by simp
qed simp

lemma cells_shift: "cells d (a + b) n = map ((+) a) (cells d b n)"
  by (induction n arbitrary: b) (simp_all add: add.assoc)

lemma cells_snoc: "cells d a (Suc n) = cells d a n @ [a + of_nat n * d]"
proof (induction n arbitrary: a)
  case (Suc n)
  have "cells d a (Suc (Suc n)) = a # cells d (a + d) (Suc n)" by simp
  also have "\<dots> = cells d a (Suc n) @ [a + d + of_nat n * d]" unfolding Suc [of "a + d"] by simp
  finally show ?case by (simp only: of_nat_Suc distrib_right mult_1 add.assoc)
qed simp

lemma cells_append: "cells d a (k + n) = cells d a k @ cells d (a + of_nat k * d) n"
proof (induction k arbitrary: a)
  case (Suc k)
  then show ?case by (simp only: add_Suc cells.simps append_Cons of_nat_Suc distrib_right mult_1 add.assoc)
qed simp

lemma cells_unat:
  "n * unat d < 2 ^ LENGTH('a) \<Longrightarrow> map unat (cells (d :: 'a::len word) 0 n) = map (\<lambda>i. i * unat d) [0..<n]"
proof (induction n)
  case (Suc n)
  have less: "n * unat d < 2 ^ LENGTH('a)" using Suc.prems by simp
  have "of_nat n * d = of_nat (n * unat d)" by simp
  then have "unat (of_nat n * d) = n * unat d" using less by (simp only: unsigned_of_nat take_bit_nat_eq_self of_nat_id)
  then show ?case unfolding cells_snoc using Suc.IH [OF less] by simp
qed simp

lemma distinct_cells:
  assumes "n * unat d < 2 ^ LENGTH('a)" "d \<noteq> 0"
  shows "distinct (cells (d :: 'a::len word) a n)"
proof -
  have "unat d > 0" using assms(2) by (simp add: unat_gt_0)
  then have "distinct (map unat (cells d 0 n))" unfolding cells_unat [OF assms(1)] by (simp add: distinct_map inj_on_def)
  then have "distinct (cells d 0 n)" by (simp add: distinct_map)
  then show ?thesis using cells_shift [of d a 0 n] by (simp add: distinct_map inj_on_def)
qed

lemma map_append_split:
  assumes "map f (as @ bs) = map g (cs @ ds)" "length as = length cs"
  shows "map f as = map g cs" "map f bs = map g ds"
  using assms by simp_all

section \<open>The interface of a context switch\<close>

locale context_switch =
  fixes jump :: "'m \<Rightarrow> ('w \<times> 'm) option"   \<comment> \<open>the call: where it arrives, and the machine there\<close>
    and mem :: "'m \<Rightarrow> 'w \<Rightarrow> 'w"
    and ok :: "'m \<Rightarrow> bool"                  \<comment> \<open>the stack and the arguments are aligned\<close>
    and own :: "'m \<Rightarrow> 'w"                   \<comment> \<open>the frame the call leaves\<close>
    and ofc :: "'m \<Rightarrow> 'w"                   \<comment> \<open>first argument: where the address of that frame goes\<close>
    and nfc :: "'m \<Rightarrow> 'w"                   \<comment> \<open>second argument: the frame to continue\<close>
    and vp :: "'m \<Rightarrow> 'w"                    \<comment> \<open>third argument\<close>
    and arg :: "'m \<Rightarrow> 'w"                   \<comment> \<open>what is handed over on arrival\<close>
    and resume :: "'m \<Rightarrow> 'w \<times> 'w list"      \<comment> \<open>how the caller wants to continue\<close>
    and view :: "'m \<Rightarrow> 'w list"             \<comment> \<open>callee-saved registers and stack pointer\<close>
    and ctx :: "('w \<Rightarrow> 'w) \<Rightarrow> 'w \<Rightarrow> 'w \<times> 'w list"  \<comment> \<open>what a frame says\<close>
    and area :: "'w \<Rightarrow> 'w set"               \<comment> \<open>the cells of a frame\<close>
    and arrival :: "'w \<Rightarrow> 'w set"            \<comment> \<open>cells written for the context that is continued\<close>
  assumes lands: "\<lbrakk>ok m; arrival (nfc m) \<inter> area (nfc m) = {}\<rbrakk> \<Longrightarrow>
      \<exists>m'. jump m = Some (fst (ctx (mem m') (nfc m)), m') \<and> view m' = snd (ctx (mem m') (nfc m)) \<and> arg m' = vp m"
    and saves: "\<lbrakk>ok m; ofc m \<notin> area (own m); arrival (nfc m) \<inter> insert (ofc m) (area (own m)) = {};
      jump m = Some (k, m')\<rbrakk> \<Longrightarrow> ctx (mem m') (own m) = resume m \<and> mem m' (ofc m) = own m"
    and keeps: "\<lbrakk>ok m; jump m = Some (k, m'); a \<notin> area (own m); a \<noteq> ofc m; a \<notin> arrival (nfc m)\<rbrakk> \<Longrightarrow> mem m' a = mem m a"
    and local: "(\<And>a. a \<in> area sp \<Longrightarrow> f a = g a) \<Longrightarrow> ctx f sp = ctx g sp"
begin

text \<open>What a frame has to be spared from: the caller's own frame, the cell its address goes to, and
  the cells written on arrival.\<close>

definition apart :: "'m \<Rightarrow> 'w \<Rightarrow> bool" where
  "apart m sp \<longleftrightarrow> (area (own m) \<union> arrival (nfc m) \<union> {ofc m}) \<inter> area sp = {}"

lemma keeps_ctx:
  assumes "ok m" "jump m = Some (k, m')" "apart m sp"
  shows "ctx (mem m') sp = ctx (mem m) sp"
  using assms by (intro local keeps) (auto simp: apart_def)

text \<open>A frame that somebody prepared is continued as it says.\<close>

lemma enters:
  assumes "ok m" "apart m (nfc m)"
  shows "\<exists>m'. jump m = Some (fst (ctx (mem m) (nfc m)), m') \<and> view m' = snd (ctx (mem m) (nfc m)) \<and> arg m' = vp m"
proof -
  have "arrival (nfc m) \<inter> area (nfc m) = {}" using assms(2) by (auto simp: apart_def)
  from lands [OF assms(1) this] keeps_ctx [OF assms(1) _ assms(2)] show ?thesis by metis
qed

text \<open>A switch away and back.\<close>

lemma round_trip:
  assumes "ok s" "ofc s \<notin> area (own s)" "arrival (nfc s) \<inter> insert (ofc s) (area (own s)) = {}" "jump s = Some (k, s1)"
    and "ok t" "nfc t = mem s1 (ofc s)" "\<forall>a \<in> area (own s). mem t a = mem s1 a" "apart t (own s)"
  shows "\<exists>t1. jump t = Some (fst (resume s), t1) \<and> view t1 = snd (resume s) \<and> arg t1 = vp t"
proof -
  have s1: "ctx (mem s1) (own s) = resume s" "nfc t = own s" using saves [OF assms(1-4)] assms(6) by simp_all
  have "ctx (mem t) (own s) = resume s" using local [of "own s" "mem t" "mem s1"] assms(7) s1(1) by simp
  with enters [OF assms(5)] s1(2) assms(8) show ?thesis by simp
qed

text \<open>
  Any number of contexts on disjoint frames: a switch to one of them takes it out, puts the
  caller in, and leaves the others as they were.
\<close>

definition suspended :: "'m \<Rightarrow> ('w \<times> 'w \<times> 'w list) set \<Rightarrow> bool" where
  "suspended m S \<longleftrightarrow> (\<forall>(sp, c) \<in> S. ctx (mem m) sp = c)"

lemma suspendedD: "suspended m S \<Longrightarrow> (sp, c) \<in> S \<Longrightarrow> ctx (mem m) sp = c"
  by (auto simp: suspended_def)

lemma switch:
  assumes "ok m" "ofc m \<notin> area (own m)" "arrival (nfc m) \<inter> insert (ofc m) (area (own m)) = {}"
    and "suspended m S" "(nfc m, c) \<in> S" "\<forall>(sp, d) \<in> S. apart m sp"
  shows "\<exists>m'. jump m = Some (fst c, m') \<and> view m' = snd c \<and> arg m' = vp m \<and> mem m' (ofc m) = own m \<and>
    suspended m' (insert (own m, resume m) (S - {(nfc m, c)}))"
proof -
  have apart: "apart m sp" if "(sp, d) \<in> S" for sp d using assms(6) that by blast
  obtain m' where m': "jump m = Some (fst c, m')" "view m' = snd c" "arg m' = vp m"
    using enters [OF assms(1) apart [OF assms(5)]] suspendedD [OF assms(4,5)] by auto
  have "ctx (mem m') sp = d" if "(sp, d) \<in> S" for sp d
    using keeps_ctx [OF assms(1) m'(1) apart [OF that]] suspendedD [OF assms(4) that] by simp
  with m' saves [OF assms(1,2,3) m'(1)] show ?thesis by (auto simp: suspended_def)
qed

end

text \<open>The floating-point state, where it is preserved.\<close>

locale context_switch_fpu = context_switch jump mem ok own ofc nfc vp arg resume view ctx area arrival
  for jump :: "'m \<Rightarrow> ('w \<times> 'm) option" and mem ok own ofc nfc vp arg resume view ctx area arrival +
  fixes preserve :: "'m \<Rightarrow> bool" and fpu :: "'m \<Rightarrow> 'f" and fpu_ctx :: "('w \<Rightarrow> 'w) \<Rightarrow> 'w \<Rightarrow> 'f"
  assumes fpu_lands: "\<lbrakk>ok m; preserve m; arrival (nfc m) \<inter> area (nfc m) = {}; jump m = Some (k, m')\<rbrakk> \<Longrightarrow>
      fpu m' = fpu_ctx (mem m') (nfc m)"
    and fpu_saves: "\<lbrakk>ok m; preserve m; ofc m \<notin> area (own m); arrival (nfc m) \<inter> insert (ofc m) (area (own m)) = {};
      jump m = Some (k, m')\<rbrakk> \<Longrightarrow> fpu_ctx (mem m') (own m) = fpu m"
    and fpu_local: "(\<And>a. a \<in> area sp \<Longrightarrow> f a = g a) \<Longrightarrow> fpu_ctx f sp = fpu_ctx g sp"
begin

lemma fpu_round_trip:
  assumes "ok s" "preserve s" "ofc s \<notin> area (own s)" "arrival (nfc s) \<inter> insert (ofc s) (area (own s)) = {}" "jump s = Some (k, s1)"
    and "ok t" "preserve t" "nfc t = mem s1 (ofc s)" "\<forall>a \<in> area (own s). mem t a = mem s1 a" "apart t (own s)"
    and "jump t = Some (k', t1)"
  shows "fpu t1 = fpu s"
proof -
  have own: "nfc t = own s" using saves [OF assms(1,3,4,5)] assms(8) by simp
  then have "arrival (nfc t) \<inter> area (nfc t) = {}" using assms(10) by (auto simp: apart_def)
  note landed = fpu_lands [OF assms(6,7) this assms(11)]
  have "fpu_ctx (mem t1) (own s) = fpu_ctx (mem t) (own s)"
    using assms(10) by (intro fpu_local keeps [OF assms(6,11)]) (auto simp: apart_def)
  also have "\<dots> = fpu_ctx (mem s1) (own s)" using assms(9) by (intro fpu_local) simp
  finally show ?thesis using landed fpu_saves [OF assms(1-5)] own by simp
qed

end

end
