(* ===== verification/Libcontext.thy ===== *)
theory Libcontext
  imports Context_Switch
begin

text \<open>
  The context switch of \<open>src/internal/libcontext.cpp\<close> for x86-64 on Linux and on Apple systems:
  \<open>jump_fcontext\<close> and \<open>make_fcontext\<close>, instruction by instruction, on a machine with the
  registers they use, the two floating-point control words and a memory of quadwords. Every access of
  the two functions is to an aligned quadword or to a part of one: \<open>stmxcsr\<close> and \<open>fnstcw\<close> share
  one cell. An access that is not aligned is \<open>None\<close>.
\<close>

unbundle bit_operations_syntax

section \<open>The machine\<close>

text \<open>The general registers, and the two halves of the SSE registers.\<close>

datatype reg = RAX | RBX | RCX | RDX | RSI | RDI | RBP | RSP | R8 | R9 | R10 | R12 | R13 | R14 | R15
  | XL nat                   \<comment> \<open>the low quadword of \<open>xmm<n>\<close>\<close>
  | XH nat                   \<comment> \<open>the high one\<close>

record machine =
  m_reg :: "reg \<Rightarrow> uint64"
  m_mem :: "uint64 \<Rightarrow> uint64"     \<comment> \<open>the quadword at an address that is a multiple of 8\<close>
  m_mxcsr :: uint32
  m_fcw :: uint16
  m_zf :: bool

datatype instr =
    Pushq reg
  | Popq reg
  | Leaq int reg reg         \<comment> \<open>\<open>leaq d(a), b\<close>\<close>
  | Lea_code uint64 reg      \<comment> \<open>\<open>leaq label(%rip), b\<close>, the address of the label\<close>
  | Cmp0 reg                 \<comment> \<open>\<open>cmp $0, a\<close>\<close>
  | Je nat                   \<comment> \<open>forward, over that many instructions\<close>
  | Stmxcsr reg              \<comment> \<open>\<open>stmxcsr (a)\<close>\<close>
  | Fnstcw4 reg              \<comment> \<open>\<open>fnstcw 0x4(a)\<close>\<close>
  | Ldmxcsr reg
  | Fldcw4 reg
  | Movq reg reg             \<comment> \<open>\<open>movq a, b\<close>\<close>
  | Store reg int reg        \<comment> \<open>\<open>movq a, d(b)\<close>\<close>
  | Andq int reg
  | Movabs int reg
  | Andr reg reg             \<comment> \<open>\<open>andq a, b\<close>\<close>
  | Xorq reg                 \<comment> \<open>\<open>xorq a, a\<close>\<close>
  | Load int reg reg         \<comment> \<open>\<open>movq d(a), b\<close>\<close>
  | Load_gs uint64 reg       \<comment> \<open>\<open>mov %gs:d, a\<close>, at the address with the base of the segment added\<close>
  | Testq reg                \<comment> \<open>\<open>test a, a\<close>\<close>
  | Addq int reg             \<comment> \<open>\<open>add $i, a\<close>\<close>
  | Subq int reg
  | Negq reg
  | Leasumq reg reg reg      \<comment> \<open>\<open>lea (a,b,1), c\<close>\<close>
  | Stmxcsr_at int reg       \<comment> \<open>\<open>stmxcsr d(a)\<close>\<close>
  | Fnstcw_at int reg        \<comment> \<open>\<open>fnstcw d(a)\<close>, in the quadword at \<open>d - 4\<close>\<close>
  | Ldmxcsr_at int reg
  | Fldcw_at int reg
  | Movaps_to nat int reg    \<comment> \<open>\<open>movaps %xmm<n>, d(a)\<close>\<close>
  | Movaps_from int reg nat  \<comment> \<open>\<open>movaps d(a), %xmm<n>\<close>\<close>
  | Callq uint64 uint64      \<comment> \<open>\<open>call\<close> of a function, with the address to return to\<close>
  | Jmp reg                  \<comment> \<open>\<open>jmp *a\<close>\<close>
  | Ret

definition set_reg :: "reg \<Rightarrow> uint64 \<Rightarrow> machine \<Rightarrow> machine" where
  "set_reg r v s = s\<lparr>m_reg := (m_reg s)(r := v)\<rparr>"

definition aligned :: "uint64 \<Rightarrow> bool" where
  "aligned a \<longleftrightarrow> unat a mod 8 = 0"

definition aligned16 :: "uint64 \<Rightarrow> bool" where
  "aligned16 a \<longleftrightarrow> unat a mod 16 = 0"

definition load :: "uint64 \<Rightarrow> machine \<Rightarrow> uint64 option" where
  "load a s = (if aligned a then Some (m_mem s a) else None)"

definition store :: "uint64 \<Rightarrow> uint64 \<Rightarrow> machine \<Rightarrow> machine option" where
  "store a v s = (if aligned a then Some (s\<lparr>m_mem := (m_mem s)(a := v)\<rparr>) else None)"

text \<open>The low half of a quadword, and the 16 bits above it.\<close>

definition put_low :: "uint32 \<Rightarrow> uint64 \<Rightarrow> uint64" where
  "put_low v q = (q AND NOT (mask 32)) OR ucast v"

definition get_low :: "uint64 \<Rightarrow> uint32" where
  "get_low q = ucast q"

definition put_mid :: "uint16 \<Rightarrow> uint64 \<Rightarrow> uint64" where
  "put_mid v q = (q AND NOT (push_bit 32 (mask 16))) OR push_bit 32 (ucast v)"

definition get_mid :: "uint64 \<Rightarrow> uint16" where
  "get_mid q = ucast (drop_bit 32 q)"

definition push :: "uint64 \<Rightarrow> machine \<Rightarrow> machine option" where
  "push v s = (let sp = m_reg s RSP - 8 in map_option (set_reg RSP sp) (store sp v s))"

fun step :: "instr \<Rightarrow> machine \<Rightarrow> machine option" where
  "step (Pushq r) s = push (m_reg s r) s"
| "step (Popq r) s =
     (let sp = m_reg s RSP in map_option (\<lambda>v. set_reg r v (set_reg RSP (sp + 8) s)) (load sp s))"
| "step (Leaq d a b) s = Some (set_reg b (m_reg s a + of_int d) s)"
| "step (Lea_code l b) s = Some (set_reg b l s)"
| "step (Cmp0 a) s = Some (s\<lparr>m_zf := (m_reg s a = 0)\<rparr>)"
| "step (Stmxcsr a) s =
     Option.bind (load (m_reg s a) s) (\<lambda>q. store (m_reg s a) (put_low (m_mxcsr s) q) s)"
| "step (Fnstcw4 a) s =
     Option.bind (load (m_reg s a) s) (\<lambda>q. store (m_reg s a) (put_mid (m_fcw s) q) s)"
| "step (Ldmxcsr a) s = map_option (\<lambda>q. s\<lparr>m_mxcsr := get_low q\<rparr>) (load (m_reg s a) s)"
| "step (Fldcw4 a) s = map_option (\<lambda>q. s\<lparr>m_fcw := get_mid q\<rparr>) (load (m_reg s a) s)"
| "step (Movq a b) s = Some (set_reg b (m_reg s a) s)"
| "step (Store a d b) s = store (m_reg s b + of_int d) (m_reg s a) s"
| "step (Andq i a) s = (let v = m_reg s a AND of_int i in Some ((set_reg a v s)\<lparr>m_zf := (v = 0)\<rparr>))"
| "step (Movabs i a) s = Some (set_reg a (of_int i) s)"
| "step (Andr a b) s = (let v = m_reg s b AND m_reg s a in Some ((set_reg b v s)\<lparr>m_zf := (v = 0)\<rparr>))"
| "step (Xorq a) s = Some ((set_reg a 0 s)\<lparr>m_zf := True\<rparr>)"
| "step (Load d a b) s = map_option (\<lambda>v. set_reg b v s) (load (m_reg s a + of_int d) s)"
| "step (Load_gs p a) s = map_option (\<lambda>v. set_reg a v s) (load p s)"
| "step (Testq a) s = Some (s\<lparr>m_zf := (m_reg s a = 0)\<rparr>)"
| "step (Addq i a) s = (let v = m_reg s a + of_int i in Some ((set_reg a v s)\<lparr>m_zf := (v = 0)\<rparr>))"
| "step (Subq i a) s = (let v = m_reg s a - of_int i in Some ((set_reg a v s)\<lparr>m_zf := (v = 0)\<rparr>))"
| "step (Negq a) s = (let v = - m_reg s a in Some ((set_reg a v s)\<lparr>m_zf := (v = 0)\<rparr>))"
| "step (Leasumq a b c) s = Some (set_reg c (m_reg s a + m_reg s b) s)"
| "step (Stmxcsr_at d a) s =
     (let p = m_reg s a + of_int d in Option.bind (load p s) (\<lambda>q. store p (put_low (m_mxcsr s) q) s))"
| "step (Fnstcw_at d a) s =
     (let p = m_reg s a + of_int (d - 4) in Option.bind (load p s) (\<lambda>q. store p (put_mid (m_fcw s) q) s))"
| "step (Ldmxcsr_at d a) s = map_option (\<lambda>q. s\<lparr>m_mxcsr := get_low q\<rparr>) (load (m_reg s a + of_int d) s)"
| "step (Fldcw_at d a) s = map_option (\<lambda>q. s\<lparr>m_fcw := get_mid q\<rparr>) (load (m_reg s a + of_int (d - 4)) s)"
| "step (Movaps_to n d a) s =
     (let p = m_reg s a + of_int d in
      if aligned16 p then Option.bind (store p (m_reg s (XL n)) s) (store (p + 8) (m_reg s (XH n))) else None)"
| "step (Movaps_from d a n) s =
     (let p = m_reg s a + of_int d in
      if aligned16 p then Some (set_reg (XH n) (m_mem s (p + 8)) (set_reg (XL n) (m_mem s p) s)) else None)"
| "step (Callq f l) s = Some s"
| "step (Je n) s = Some s"
| "step (Jmp a) s = Some s"
| "step Ret s = Some s"

text \<open>
  Running a function: the address it leaves to and the machine there. \<open>None\<close> for a bad access or
  when the end of the text is reached.
\<close>

function exec :: "instr list \<Rightarrow> machine \<Rightarrow> (uint64 \<times> machine) option" where
  "exec [] s = None"
| "exec (i # is) s =
     (case i of
        Je n \<Rightarrow> exec (if m_zf s then drop n is else is) s
      | Jmp a \<Rightarrow> Some (m_reg s a, s)
      | Callq f l \<Rightarrow> map_option (\<lambda>s. (f, s)) (push l s)
      | Ret \<Rightarrow> map_option (\<lambda>v. (v, set_reg RSP (m_reg s RSP + 8) s)) (load (m_reg s RSP) s)
      | _ \<Rightarrow> Option.bind (step i s) (exec is))"
  by pat_completeness auto

termination by (relation "measure (length \<circ> fst)") auto

section \<open>The two functions\<close>

definition jump_fcontext :: "instr list" where
  "jump_fcontext =
     [Pushq RBP, Pushq RBX, Pushq R15, Pushq R14, Pushq R13, Pushq R12,
      Leaq (-0x8) RSP RSP,
      Cmp0 RCX, Je 2, Stmxcsr RSP, Fnstcw4 RSP,
      Store RSP 0 RDI, Movq RSI RSP,
      Cmp0 RCX, Je 2, Ldmxcsr RSP, Fldcw4 RSP,
      Leaq 0x8 RSP RSP,
      Popq R12, Popq R13, Popq R14, Popq R15, Popq RBX, Popq RBP, Popq R8,
      Movq RDX RAX, Movq RDX RDI, Jmp R8]"

definition make_fcontext :: "uint64 \<Rightarrow> instr list" where
  "make_fcontext finish =
     [Movq RDI RAX, Andq (-16) RAX, Leaq (-0x48) RAX RAX, Store RDX 0x38 RAX,
      Stmxcsr RAX, Fnstcw4 RAX, Lea_code finish RCX, Store RCX 0x40 RAX, Ret]"

text \<open>What runs when the function of a context returns: \<open>exit\<close> is the entry of \<open>_exit\<close> and
  \<open>hlt\<close> the instruction after the call.\<close>

definition x64_finish :: "uint64 \<Rightarrow> uint64 \<Rightarrow> instr list" where
  "x64_finish exit hlt = [Xorq RDI, Callq exit hlt]"

definition apple_jump_fcontext :: "instr list" where
  "apple_jump_fcontext =
     [Pushq RBP, Pushq RBX, Pushq R15, Pushq R14, Pushq R13, Pushq R12,
      Leaq (-0x8) RSP RSP,
      Cmp0 RCX, Je 2, Stmxcsr RSP, Fnstcw4 RSP,
      Store RSP 0 RDI, Movq RSI RSP,
      Cmp0 RCX, Je 2, Ldmxcsr RSP, Fldcw4 RSP,
      Leaq 0x8 RSP RSP,
      Popq R12, Popq R13, Popq R14, Popq R15, Popq RBX, Popq RBP, Popq R8,
      Movq RDX RAX, Movq RDX RDI, Jmp R8]"

definition apple_make_fcontext :: "uint64 \<Rightarrow> instr list" where
  "apple_make_fcontext finish =
     [Movq RDI RAX, Movabs (-16) R8, Andr R8 RAX, Leaq (-0x48) RAX RAX, Store RDX 0x38 RAX,
      Stmxcsr RAX, Fnstcw4 RAX, Lea_code finish RCX, Store RCX 0x40 RAX, Ret]"

section \<open>Symbolic execution\<close>

lemma aligned_add: "aligned d \<Longrightarrow> aligned (a + d) \<longleftrightarrow> aligned a"
  using unat_add_mod [of 8 d a] by (simp add: aligned_def)

lemma aligned_diff: "aligned d \<Longrightarrow> aligned (a - d) \<longleftrightarrow> aligned a"
  using aligned_add [of d "a - d"] by simp

lemma aligned_numerals [simp]:
  "aligned 8" "aligned 16" "aligned 24" "aligned 32" "aligned 40" "aligned 48" "aligned 56" "aligned 64" "aligned 72"
  by (simp_all add: aligned_def)

lemmas aligned_simps [simp] =
  aligned_numerals(1-7) [THEN aligned_add] aligned_numerals(1-7) [THEN aligned_diff]

definition mk :: "(reg \<Rightarrow> uint64) \<Rightarrow> (uint64 \<Rightarrow> uint64) \<Rightarrow> uint32 \<Rightarrow> uint16 \<Rightarrow> bool \<Rightarrow> machine" where
  "mk r m x f z = \<lparr>m_reg = r, m_mem = m, m_mxcsr = x, m_fcw = f, m_zf = z\<rparr>"

lemma mk_surj: "s = mk (m_reg s) (m_mem s) (m_mxcsr s) (m_fcw s) (m_zf s)"
  by (simp add: mk_def)

named_theorems run_simps "one instruction each"

lemma exec_Pushq [run_simps]: "aligned (r RSP) \<Longrightarrow>
  exec (Pushq a # is) (mk r m x f z) = exec is (mk (r(RSP := r RSP - 8)) (m(r RSP - 8 := r a)) x f z)"
  by (simp add: mk_def push_def store_def set_reg_def Let_def)

lemma exec_Popq [run_simps]: "aligned (r RSP) \<Longrightarrow>
  exec (Popq a # is) (mk r m x f z) = exec is (mk (r(RSP := r RSP + 8, a := m (r RSP))) m x f z)"
  by (simp add: mk_def load_def set_reg_def Let_def)

lemma exec_simple [run_simps]:
  "exec (Leaq d a b # is) (mk r m x f z) = exec is (mk (r(b := r a + of_int d)) m x f z)"
  "exec (Lea_code l b # is) (mk r m x f z) = exec is (mk (r(b := l)) m x f z)"
  "exec (Cmp0 a # is) (mk r m x f z) = exec is (mk r m x f (r a = 0))"
  "exec (Movq a b # is) (mk r m x f z) = exec is (mk (r(b := r a)) m x f z)"
  "exec (Andq i a # is) (mk r m x f z) = exec is (mk (r(a := r a AND of_int i)) m x f (r a AND of_int i = 0))"
  "exec (Je n # is) (mk r m x f z) = exec (if z then drop n is else is) (mk r m x f z)"
  "exec (Jmp a # is) (mk r m x f z) = Some (r a, mk r m x f z)"
  "exec (Xorq a # is) (mk r m x f z) = exec is (mk (r(a := 0)) m x f True)"
  "exec (Movabs i a # is) (mk r m x f z) = exec is (mk (r(a := of_int i)) m x f z)"
  "exec (Testq a # is) (mk r m x f z) = exec is (mk r m x f (r a = 0))"
  "exec (Addq i a # is) (mk r m x f z) = exec is (mk (r(a := r a + of_int i)) m x f (r a + of_int i = 0))"
  "exec (Subq i a # is) (mk r m x f z) = exec is (mk (r(a := r a - of_int i)) m x f (r a - of_int i = 0))"
  "exec (Negq a # is) (mk r m x f z) = exec is (mk (r(a := - r a)) m x f (r a = 0))"
  "exec (Leasumq a b c # is) (mk r m x f z) = exec is (mk (r(c := r a + r b)) m x f z)"
  by (simp_all add: mk_def set_reg_def Let_def)

lemma exec_mem [run_simps]:
  "aligned (r b + of_int d) \<Longrightarrow> exec (Store a d b # is) (mk r m x f z) = exec is (mk r (m(r b + of_int d := r a)) x f z)"
  "aligned (r b) \<Longrightarrow> exec (Stmxcsr b # is) (mk r m x f z) = exec is (mk r (m(r b := put_low x (m (r b)))) x f z)"
  "aligned (r b) \<Longrightarrow> exec (Fnstcw4 b # is) (mk r m x f z) = exec is (mk r (m(r b := put_mid f (m (r b)))) x f z)"
  "aligned (r b) \<Longrightarrow> exec (Ldmxcsr b # is) (mk r m x f z) = exec is (mk r m (get_low (m (r b))) f z)"
  "aligned (r b) \<Longrightarrow> exec (Fldcw4 b # is) (mk r m x f z) = exec is (mk r m x (get_mid (m (r b))) z)"
  "aligned (r a + of_int d) \<Longrightarrow> exec (Load d a b # is) (mk r m x f z) = exec is (mk (r(b := m (r a + of_int d))) m x f z)"
  "aligned p \<Longrightarrow> exec (Load_gs p b # is) (mk r m x f z) = exec is (mk (r(b := m p)) m x f z)"
  "aligned (r RSP) \<Longrightarrow> exec (Ret # is) (mk r m x f z) = Some (m (r RSP), mk (r(RSP := r RSP + 8)) m x f z)"
  "aligned (r RSP) \<Longrightarrow> exec (Callq g l # is) (mk r m x f z) = Some (g, mk (r(RSP := r RSP - 8)) (m(r RSP - 8 := l)) x f z)"
  by (simp_all add: mk_def push_def load_def store_def set_reg_def Let_def)

lemma exec_at [run_simps]:
  "aligned (r b + of_int d) \<Longrightarrow> exec (Stmxcsr_at d b # is) (mk r m x f z) =
     exec is (mk r (m(r b + of_int d := put_low x (m (r b + of_int d)))) x f z)"
  "aligned (r b + of_int (d - 4)) \<Longrightarrow> exec (Fnstcw_at d b # is) (mk r m x f z) =
     exec is (mk r (m(r b + of_int (d - 4) := put_mid f (m (r b + of_int (d - 4))))) x f z)"
  "aligned (r b + of_int d) \<Longrightarrow> exec (Ldmxcsr_at d b # is) (mk r m x f z) = exec is (mk r m (get_low (m (r b + of_int d))) f z)"
  "aligned (r b + of_int (d - 4)) \<Longrightarrow> exec (Fldcw_at d b # is) (mk r m x f z) =
     exec is (mk r m x (get_mid (m (r b + of_int (d - 4)))) z)"
  by (simp_all add: mk_def load_def store_def Let_def)

lemma aligned16_aligned: "aligned16 p \<Longrightarrow> aligned p \<and> aligned (p + 8)"
proof -
  assume "aligned16 p"
  then have "unat p mod 8 = 0" unfolding aligned16_def by presburger
  then show ?thesis by (simp add: aligned_def unat_add_mod)
qed

lemma exec_movaps [run_simps]:
  "aligned16 (r b + of_int d) \<Longrightarrow> exec (Movaps_to n d b # is) (mk r m x f z) =
     exec is (mk r (m(r b + of_int d := r (XL n), r b + of_int d + 8 := r (XH n))) x f z)"
  "aligned16 (r b + of_int d) \<Longrightarrow> exec (Movaps_from d b n # is) (mk r m x f z) =
     exec is (mk (r(XL n := m (r b + of_int d), XH n := m (r b + of_int d + 8))) m x f z)"
  using aligned16_aligned [of "r b + of_int d"] by (simp_all add: mk_def store_def set_reg_def Let_def)

text \<open>The parts of \<open>jump_fcontext\<close>.\<close>

definition push_frame :: "(reg \<Rightarrow> uint64) \<Rightarrow> (uint64 \<Rightarrow> uint64) \<Rightarrow> uint64 \<Rightarrow> uint64" where
  "push_frame r m = m(r RSP - 8 := r RBP, r RSP - 16 := r RBX, r RSP - 24 := r R15, r RSP - 32 := r R14,
     r RSP - 40 := r R13, r RSP - 48 := r R12)"

definition push_fpu :: "uint64 \<Rightarrow> uint64 \<Rightarrow> uint32 \<Rightarrow> uint16 \<Rightarrow> (uint64 \<Rightarrow> uint64) \<Rightarrow> uint64 \<Rightarrow> uint64" where
  "push_fpu c sp x f m = (if c = 0 then m else m(sp := put_mid f (put_low x (m sp))))"

definition pop_frame :: "uint64 \<Rightarrow> (uint64 \<Rightarrow> uint64) \<Rightarrow> (reg \<Rightarrow> uint64) \<Rightarrow> reg \<Rightarrow> uint64" where
  "pop_frame sp m r = r(R12 := m (sp + 8), R13 := m (sp + 16), R14 := m (sp + 24), R15 := m (sp + 32),
     RBX := m (sp + 40), RBP := m (sp + 48), R8 := m (sp + 56), RSP := sp + 64)"

lemma exec_push_frame:
  "aligned (r RSP) \<Longrightarrow>
   exec (Pushq RBP # Pushq RBX # Pushq R15 # Pushq R14 # Pushq R13 # Pushq R12 # Leaq (-0x8) RSP RSP # is) (mk r m x f z) =
   exec is (mk (r(RSP := r RSP - 56)) (push_frame r m) x f z)"
  by (simp add: run_simps push_frame_def del: exec.simps)

lemma exec_push_fpu:
  "aligned (r RSP) \<Longrightarrow>
   exec (Cmp0 RCX # Je 2 # Stmxcsr RSP # Fnstcw4 RSP # is) (mk r m x f z) =
   exec is (mk r (push_fpu (r RCX) (r RSP) x f m) x f (r RCX = 0))"
  by (simp add: run_simps push_fpu_def numeral_2_eq_2 del: exec.simps)

lemma exec_pop_fpu:
  "aligned (r RSP) \<Longrightarrow>
   exec (Cmp0 RCX # Je 2 # Ldmxcsr RSP # Fldcw4 RSP # is) (mk r m x f z) =
   exec is (mk r m (if r RCX = 0 then x else get_low (m (r RSP))) (if r RCX = 0 then f else get_mid (m (r RSP))) (r RCX = 0))"
  by (simp add: run_simps numeral_2_eq_2 del: exec.simps)

lemma exec_pop_frame:
  "aligned (r RSP) \<Longrightarrow>
   exec (Leaq 0x8 RSP RSP # Popq R12 # Popq R13 # Popq R14 # Popq R15 # Popq RBX # Popq RBP # Popq R8 # is) (mk r m x f z) =
   exec is (mk (pop_frame (r RSP) m r) m x f z)"
  by (simp add: run_simps pop_frame_def fun_upd_twist add.assoc del: exec.simps)

definition jump_mem :: "(reg \<Rightarrow> uint64) \<Rightarrow> (uint64 \<Rightarrow> uint64) \<Rightarrow> uint32 \<Rightarrow> uint16 \<Rightarrow> uint64 \<Rightarrow> uint64" where
  "jump_mem r m x f = (push_fpu (r RCX) (r RSP - 56) x f (push_frame r m))(r RDI := r RSP - 56)"

lemma exec_jump_fcontext:
  assumes "aligned (r RSP)" "aligned (r RDI)" "aligned (r RSI)"
  shows "exec jump_fcontext (mk r m x f z) =
    (let m' = jump_mem r m x f; n = r RSI in
     Some (m' (n + 56), mk ((pop_frame n m' r)(RAX := r RDX, RDI := r RDX)) m'
       (if r RCX = 0 then x else get_low (m' n)) (if r RCX = 0 then f else get_mid (m' n)) (r RCX = 0)))"
  unfolding jump_fcontext_def
  using assms
  by (simp add: exec_push_frame exec_push_fpu exec_pop_fpu exec_pop_frame exec_simple(4,7) exec_mem(1)
      jump_mem_def pop_frame_def Let_def fun_upd_twist del: exec.simps)

section \<open>Frames\<close>

text \<open>The eight quadwords a suspended context consists of, from its stack pointer up to the return
  address.\<close>

definition frame :: "uint64 \<Rightarrow> uint64 set" where
  "frame sp = {sp, sp + 8, sp + 16, sp + 24, sp + 32, sp + 40, sp + 48, sp + 56}"

lemma jump_mem_other:
  assumes "a \<notin> frame (r RSP - 56)" "a \<noteq> r RDI"
  shows "jump_mem r m x f a = m a"
  using assms by (auto simp: jump_mem_def push_fpu_def push_frame_def frame_def)

lemma fpu_roundtrip [simp]:
  "get_low (put_mid f (put_low x q)) = x" "get_mid (put_mid f (put_low x q)) = f"
  by (auto simp: get_low_def get_mid_def put_mid_def put_low_def bit_eq_iff bit_simps)

lemma jump_mem_frame:
  assumes "r RDI \<notin> frame (r RSP - 56)"
  shows "jump_mem r m x f (r RSP - 56 + 8) = r R12" "jump_mem r m x f (r RSP - 56 + 16) = r R13"
    "jump_mem r m x f (r RSP - 56 + 24) = r R14" "jump_mem r m x f (r RSP - 56 + 32) = r R15"
    "jump_mem r m x f (r RSP - 56 + 40) = r RBX" "jump_mem r m x f (r RSP - 56 + 48) = r RBP"
    "jump_mem r m x f (r RSP - 56 + 56) = m (r RSP)"
    "r RCX \<noteq> 0 \<Longrightarrow> get_low (jump_mem r m x f (r RSP - 56)) = x"
    "r RCX \<noteq> 0 \<Longrightarrow> get_mid (jump_mem r m x f (r RSP - 56)) = f"
    "jump_mem r m x f (r RDI) = r RSP - 56"
  using assms by (auto simp: jump_mem_def push_fpu_def push_frame_def frame_def)

lemma mod_16_below:
  assumes "(n::nat) \<ge> 88"
  shows "(n - n mod 16 - 8) mod 16 = 8"
proof -
  obtain q where q: "n div 16 = Suc q" using assms by (cases "n div 16") auto
  then have "n - n mod 16 - 8 = 8 + 16 * q" by (simp add: minus_mod_eq_mult_div)
  then show ?thesis by simp
qed

lemma exec_make_fcontext:
  assumes "aligned (r RSP)" "unat (r RDI) \<ge> 88"
  defines "sp \<equiv> (r RDI AND - 16) - 72"
  shows "exec (make_fcontext finish) (mk r m x f z) =
    (let m' = m(sp + 56 := r RDX, sp := put_mid f (put_low x (m sp)), sp + 64 := finish) in
     Some (m' (r RSP), mk (r(RAX := sp, RCX := finish, RSP := r RSP + 8)) m' x f (r RDI AND - 16 = 0)))"
    and "aligned sp" "unat sp = unat (r RDI) - unat (r RDI) mod 16 - 72"
proof -
  have u: "unat (r RDI AND - 16) = unat (r RDI) - unat (r RDI) mod 16" by (rule unat_round_16)
  have "aligned (r RDI AND - 16)"
    unfolding aligned_def u by presburger
  then show al: "aligned sp" unfolding sp_def by (simp add: aligned_diff)
  have "unat (r RDI) mod 16 < 16" by simp
  then have "(72::uint64) \<le> r RDI AND - 16" using u assms(2) by (simp add: word_le_unat)
  then show "unat sp = unat (r RDI) - unat (r RDI) mod 16 - 72" unfolding sp_def by (simp add: unat_minus_le u)
  have al': "aligned (sp + 64)" using al by (simp add: aligned_add)
  show "exec (make_fcontext finish) (mk r m x f z) =
    (let m' = m(sp + 56 := r RDX, sp := put_mid f (put_low x (m sp)), sp + 64 := finish) in
     Some (m' (r RSP), mk (r(RAX := sp, RCX := finish, RSP := r RSP + 8)) m' x f (r RDI AND - 16 = 0)))"
    using assms(1) al al' by (simp add: make_fcontext_def run_simps Let_def sp_def [symmetric] fun_upd_twist del: exec.simps)
qed

lemma exec_jump_machine:
  assumes "aligned (m_reg s RSP)" "aligned (m_reg s RDI)" "aligned (m_reg s RSI)"
  defines "m \<equiv> jump_mem (m_reg s) (m_mem s) (m_mxcsr s) (m_fcw s)" and "n \<equiv> m_reg s RSI"
  shows "\<exists>s'. exec jump_fcontext s = Some (m (n + 56), s') \<and> m_mem s' = m \<and>
    m_reg s' = (pop_frame n m (m_reg s))(RAX := m_reg s RDX, RDI := m_reg s RDX) \<and>
    (m_reg s RCX \<noteq> 0 \<longrightarrow> m_mxcsr s' = get_low (m n) \<and> m_fcw s' = get_mid (m n))"
proof -
  let ?s' = "mk ((pop_frame n m (m_reg s))(RAX := m_reg s RDX, RDI := m_reg s RDX)) m
    (if m_reg s RCX = 0 then m_mxcsr s else get_low (m n)) (if m_reg s RCX = 0 then m_fcw s else get_mid (m n)) (m_reg s RCX = 0)"
  have "exec jump_fcontext (mk (m_reg s) (m_mem s) (m_mxcsr s) (m_fcw s) (m_zf s)) = Some (m (n + 56), ?s')"
    using exec_jump_fcontext [OF assms(1-3), of "m_mem s" "m_mxcsr s" "m_fcw s" "m_zf s"]
    by (simp only: Let_def m_def n_def)
  then have "exec jump_fcontext s = Some (m (n + 56), ?s')" by (simp only: mk_surj [symmetric])
  then show ?thesis by (intro exI [of _ ?s']) (simp add: mk_def)
qed

lemma x64_makes:
  assumes "aligned (m_reg s RSP)" "unat (m_reg s RDI) \<ge> 88"
  shows "\<exists>k s1. exec (make_fcontext finish) s = Some (k, s1) \<and> aligned (m_reg s1 RAX)"
  using exec_make_fcontext(1) [where r = "m_reg s" and m = "m_mem s" and x = "m_mxcsr s" and f = "m_fcw s" and z = "m_zf s", OF assms]
    exec_make_fcontext(2) [where r = "m_reg s", OF assms]
  unfolding mk_surj [symmetric] by (simp add: Let_def mk_def)

text \<open>A context function that returns ends the process: \<open>_exit\<close> is called with the argument 0.\<close>

lemma x64_finish_exits:
  assumes "aligned (m_reg u RSP)"
  shows "\<exists>u'. exec (x64_finish exit hlt) u = Some (exit, u') \<and> m_reg u' RDI = 0 \<and> m_reg u' RSP = m_reg u RSP - 8"
proof -
  have "exec (x64_finish exit hlt) (mk (m_reg u) (m_mem u) (m_mxcsr u) (m_fcw u) (m_zf u)) =
    Some (exit, mk ((m_reg u)(RDI := 0, RSP := m_reg u RSP - 8)) ((m_mem u)(m_reg u RSP - 8 := hlt)) (m_mxcsr u) (m_fcw u) True)"
    using assms by (simp add: x64_finish_def run_simps del: exec.simps)
  then show ?thesis unfolding mk_surj [symmetric] by (simp add: mk_def)
qed

section \<open>The laws of a context switch\<close>

definition x64_ok :: "machine \<Rightarrow> bool" where
  "x64_ok s \<longleftrightarrow> aligned (m_reg s RSP) \<and> aligned (m_reg s RDI) \<and> aligned (m_reg s RSI)"

definition x64_own :: "machine \<Rightarrow> uint64" where
  "x64_own s = m_reg s RSP - 56"

text \<open>What a frame says: where to continue, and \<open>r12\<close> to \<open>r15\<close>, \<open>rbx\<close>, \<open>rbp\<close>, \<open>rsp\<close> there.\<close>

definition x64_ctx :: "(uint64 \<Rightarrow> uint64) \<Rightarrow> uint64 \<Rightarrow> uint64 \<times> uint64 list" where
  "x64_ctx f sp = (f (sp + 56),
     [f (sp + 8), f (sp + 16), f (sp + 24), f (sp + 32), f (sp + 40), f (sp + 48), sp + 64])"

definition x64_view :: "machine \<Rightarrow> uint64 list" where
  "x64_view s = map (m_reg s) [R12, R13, R14, R15, RBX, RBP, RSP]"

definition x64_resume :: "machine \<Rightarrow> uint64 \<times> uint64 list" where
  "x64_resume s = (m_mem s (m_reg s RSP), map (m_reg s) [R12, R13, R14, R15, RBX, RBP] @ [m_reg s RSP + 8])"

definition fpu_words :: "(uint64 \<Rightarrow> uint64) \<Rightarrow> uint64 \<Rightarrow> uint32 \<times> uint16" where
  "fpu_words f sp = (get_low (f sp), get_mid (f sp))"

lemma x64_lands:
  "x64_ok s \<Longrightarrow> \<exists>s'. exec jump_fcontext s = Some (fst (x64_ctx (m_mem s') (m_reg s RSI)), s') \<and>
     x64_view s' = snd (x64_ctx (m_mem s') (m_reg s RSI)) \<and> m_reg s' RAX = m_reg s RDX"
  using exec_jump_machine [of s] by (auto simp: x64_ok_def x64_ctx_def x64_view_def pop_frame_def)

lemma jump_machine_mem:
  "x64_ok s \<Longrightarrow> exec jump_fcontext s = Some (k, s') \<Longrightarrow>
   m_mem s' = jump_mem (m_reg s) (m_mem s) (m_mxcsr s) (m_fcw s)"
  using exec_jump_machine [of s] by (auto simp: x64_ok_def)

interpretation x64: context_switch_fpu "exec jump_fcontext" m_mem x64_ok x64_own "\<lambda>s. m_reg s RDI" "\<lambda>s. m_reg s RSI"
  "\<lambda>s. m_reg s RDX" "\<lambda>s. m_reg s RAX" x64_resume x64_view x64_ctx frame "\<lambda>_. {}"
  "\<lambda>s. m_reg s RCX \<noteq> 0" "\<lambda>s. (m_mxcsr s, m_fcw s)" fpu_words
proof (unfold_locales, goal_cases)
  case (1 s)
  then show ?case by (intro x64_lands)
next
  case (2 s k s')
  from 2(2) have "m_reg s RDI \<notin> frame (m_reg s RSP - 56)" by (simp add: x64_own_def)
  note saved = jump_mem_frame [where r = "m_reg s", OF this]
  show ?case unfolding jump_machine_mem [OF 2(1,4)] x64_ctx_def x64_own_def x64_resume_def
    by (simp only: saved) simp
next
  case (3 s k s' a)
  then show ?case by (simp add: jump_machine_mem [OF 3(1,2)] jump_mem_other x64_own_def)
next
  case (4 sp f g)
  then show ?case by (simp add: x64_ctx_def frame_def)
next
  case (5 s k s')
  then show ?case using exec_jump_machine [of s] by (auto simp: x64_ok_def fpu_words_def)
next
  case (6 s k s')
  from 6(3) have "m_reg s RDI \<notin> frame (m_reg s RSP - 56)" by (simp add: x64_own_def)
  note saved = jump_mem_frame(8,9) [where r = "m_reg s", OF this 6(2)]
  show ?case unfolding jump_machine_mem [OF 6(1,5)] fpu_words_def x64_own_def by (simp only: saved)
next
  case (7 sp f g)
  then show ?case by (simp add: fpu_words_def frame_def)
qed

section \<open>Properties\<close>

text \<open>C15. A switch away and back restores the caller: after \<open>jump_fcontext\<close> has stored the context
  of \<open>s\<close>, any later jump to the stored context, from another stack and with the stored frame
  unchanged, continues at the return address of the first jump with the callee-saved registers and the
  stack pointer of \<open>s\<close>, hands over the argument of the second jump as the result, and with
  \<open>preserve_fpu\<close> restores the floating-point control words.\<close>

theorem jump_fcontext_round_trip:
  assumes "aligned (m_reg s RSP)" "aligned (m_reg s RDI)" "aligned (m_reg s RSI)"
    and "m_reg s RDI \<notin> frame (m_reg s RSP - 56)"
    and "exec jump_fcontext s = Some (k, s1)"
    and "aligned (m_reg t RSP)" "aligned (m_reg t RDI)" "m_reg t RSI = m_mem s1 (m_reg s RDI)"
    and "\<forall>a \<in> frame (m_reg s RSP - 56). m_mem t a = m_mem s1 a"
    and "frame (m_reg t RSP - 56) \<inter> frame (m_reg s RSP - 56) = {}" "m_reg t RDI \<notin> frame (m_reg s RSP - 56)"
  shows "\<exists>t1. exec jump_fcontext t = Some (m_mem s (m_reg s RSP), t1) \<and>
    (\<forall>r \<in> {RBX, RBP, R12, R13, R14, R15}. m_reg t1 r = m_reg s r) \<and> m_reg t1 RSP = m_reg s RSP + 8 \<and>
    m_reg t1 RAX = m_reg t RDX \<and>
    (m_reg s RCX \<noteq> 0 \<and> m_reg t RCX \<noteq> 0 \<longrightarrow> m_mxcsr t1 = m_mxcsr s \<and> m_fcw t1 = m_fcw s)"
proof -
  have ok: "x64_ok s" "m_reg s RDI \<notin> frame (x64_own s)" using assms(1-4) by (simp_all add: x64_ok_def x64_own_def)
  have "m_reg t RSI = m_reg s RSP - 56" using x64.saves [OF ok _ assms(5)] assms(8) by (simp add: x64_own_def)
  then have okt: "x64_ok t" using assms(1,6,7) by (simp add: x64_ok_def aligned_diff)
  have fr: "\<forall>a \<in> frame (x64_own s). m_mem t a = m_mem s1 a" "x64.apart t (x64_own s)"
    using assms(9-11) by (auto simp: x64_own_def x64.apart_def)
  obtain t1 where "exec jump_fcontext t = Some (fst (x64_resume s), t1)" "x64_view t1 = snd (x64_resume s)" "m_reg t1 RAX = m_reg t RDX"
    using x64.round_trip [OF ok _ assms(5) okt assms(8) fr] by auto
  then show ?thesis
    using x64.fpu_round_trip [OF ok(1) _ ok(2) _ assms(5) okt _ assms(8) fr]
    by (intro exI [of _ t1]) (simp add: x64_resume_def x64_view_def)
qed

theorem jump_fcontext_round_trip_witness:
  "\<exists>t t1. exec jump_fcontext t = Some (42, t1) \<and> m_reg t1 RBX = 7 \<and> m_reg t1 RSP = 0x1008"
proof -
  let ?s = "\<lparr>m_reg = (\<lambda>_. 0)(RSP := 0x1000, RDI := 0x8000, RBX := 7), m_mem = (\<lambda>_. 0)(0x1000 := 42),
    m_mxcsr = 0, m_fcw = 0, m_zf = False\<rparr>"
  have al: "aligned (m_reg ?s RSP)" "aligned (m_reg ?s RDI)" "aligned (m_reg ?s RSI)" "m_reg ?s RDI \<notin> frame (m_reg ?s RSP - 56)"
    by (simp_all add: aligned_def frame_def)
  obtain k s1 where s1: "exec jump_fcontext ?s = Some (k, s1)" using exec_jump_machine [OF al(1-3)] by blast
  let ?t = "\<lparr>m_reg = (\<lambda>_. 0)(RSP := 0x2000, RDI := 0x8008, RSI := m_mem s1 0x8000), m_mem = m_mem s1,
    m_mxcsr = 0, m_fcw = 0, m_zf = False\<rparr>"
  have "\<exists>t1. exec jump_fcontext ?t = Some (m_mem ?s (m_reg ?s RSP), t1) \<and>
    (\<forall>r \<in> {RBX, RBP, R12, R13, R14, R15}. m_reg t1 r = m_reg ?s r) \<and> m_reg t1 RSP = m_reg ?s RSP + 8 \<and>
    m_reg t1 RAX = m_reg ?t RDX \<and>
    (m_reg ?s RCX \<noteq> 0 \<and> m_reg ?t RCX \<noteq> 0 \<longrightarrow> m_mxcsr t1 = m_mxcsr ?s \<and> m_fcw t1 = m_fcw ?s)"
    by (rule jump_fcontext_round_trip [OF al s1]) (simp_all add: aligned_def frame_def)
  then obtain t1 where "exec jump_fcontext ?t = Some (42, t1)" "m_reg t1 RBX = 7" "m_reg t1 RSP = 0x1008" by auto
  then show ?thesis by blast
qed

text \<open>C16. Any number of contexts: let \<open>S\<close> be the contexts that wait in frames apart from the caller's
  stack and from the cell that receives its address. A jump to one of them continues it as its
  frame says and hands over the argument; afterwards the caller waits in its own frame, whose address is
  in the cell, and all the others wait unchanged.\<close>

theorem jump_fcontext_switches:
  assumes "x64_ok s" "m_reg s RDI \<notin> frame (x64_own s)"
    and "\<forall>(sp, c) \<in> S. x64_ctx (m_mem s) sp = c \<and> insert (m_reg s RDI) (frame (x64_own s)) \<inter> frame sp = {}"
    and "(m_reg s RSI, k, regs) \<in> S"
  shows "\<exists>s'. exec jump_fcontext s = Some (k, s') \<and> x64_view s' = regs \<and> m_reg s' RAX = m_reg s RDX \<and>
    m_mem s' (m_reg s RDI) = x64_own s \<and>
    (\<forall>(sp, c) \<in> insert (x64_own s, x64_resume s) (S - {(m_reg s RSI, k, regs)}). x64_ctx (m_mem s') sp = c)"
proof -
  have "x64.suspended s S" "\<forall>(sp, d) \<in> S. x64.apart s sp"
    using assms(3) by (auto simp: x64.suspended_def x64.apart_def)
  from x64.switch [OF assms(1,2) _ this(1) assms(4) this(2)] show ?thesis
    by (simp add: x64.suspended_def)
qed

theorem jump_fcontext_switches_witness:
  "\<exists>s'. exec jump_fcontext \<lparr>m_reg = (\<lambda>_. 0)(RSP := 0x1000, RDI := 0x8000, RSI := 0x3000, RDX := 5),
     m_mem = (\<lambda>_. 0)(0x3038 := 42, 0x3028 := 7), m_mxcsr = 0, m_fcw = 0, m_zf = False\<rparr> = Some (42, s') \<and>
   x64_view s' = [0, 0, 0, 0, 7, 0, 0x3040] \<and> m_reg s' RAX = 5 \<and> m_mem s' 0x8000 = 0xFC8"
proof -
  let ?s = "\<lparr>m_reg = (\<lambda>_. 0)(RSP := 0x1000, RDI := 0x8000, RSI := 0x3000, RDX := 5),
    m_mem = (\<lambda>_. 0)(0x3038 := 42, 0x3028 := 7), m_mxcsr = 0, m_fcw = 0, m_zf = False\<rparr>"
  have "\<exists>s'. exec jump_fcontext ?s = Some (42, s') \<and> x64_view s' = [0, 0, 0, 0, 7, 0, 0x3040] \<and> m_reg s' RAX = m_reg ?s RDX \<and>
    m_mem s' (m_reg ?s RDI) = x64_own ?s \<and>
    (\<forall>(sp, c) \<in> insert (x64_own ?s, x64_resume ?s) ({(0x3000, 42, [0, 0, 0, 0, 7, 0, 0x3040])} -
      {(m_reg ?s RSI, 42, [0, 0, 0, 0, 7, 0, 0x3040])}). x64_ctx (m_mem s') sp = c)"
    by (rule jump_fcontext_switches) (simp_all add: x64_ok_def x64_own_def x64_ctx_def aligned_def frame_def)
  then show ?thesis by (auto simp: x64_own_def)
qed

text \<open>C17. The version for Apple systems is equivalent: its \<open>jump_fcontext\<close> behaves as the one for
  Linux on every machine, and its \<open>make_fcontext\<close>, which puts the mask into a register first, gives
  the same result except for the scratch register \<open>r8\<close>; a bad access of one is a bad access of the
  other.\<close>

theorem apple_fcontext_equivalent:
  "exec apple_jump_fcontext s = exec jump_fcontext s \<and>
   exec (apple_make_fcontext finish) s =
     map_option (\<lambda>(k, t). (k, set_reg R8 (- 16) t)) (exec (make_fcontext finish) s)"
proof
  show "exec apple_jump_fcontext s = exec jump_fcontext s"
    by (simp add: apple_jump_fcontext_def jump_fcontext_def)
  show "exec (apple_make_fcontext finish) s =
     map_option (\<lambda>(k, t). (k, set_reg R8 (- 16) t)) (exec (make_fcontext finish) s)"
    by (auto simp: apple_make_fcontext_def make_fcontext_def set_reg_def load_def Let_def store_def fun_upd_twist
        split: option.splits if_splits)
qed

text \<open>C36. A new context starts its function as the calling convention wants: the first jump to what
  \<open>make_fcontext\<close> returned goes to \<open>fn\<close> with the argument of the jump in \<open>rdi\<close>, the stack
  pointer 8 above a multiple of 16 below the given end of the stack, and the address of
  \<open>finish\<close> as its return address; the frame lies in the last 88 bytes of the stack. If the
  function returns, \<open>finish\<close> calls \<open>_exit(0)\<close>.\<close>

theorem make_fcontext_entry:
  assumes "aligned (m_reg s RSP)" "unat (m_reg s RDI) \<ge> 88"
    and "exec (make_fcontext finish) s = Some (k, s1)"
    and "aligned (m_reg t RSP)" "aligned (m_reg t RDI)" "m_reg t RSI = m_reg s1 RAX"
    and "\<forall>a \<in> insert (m_reg s1 RAX + 64) (frame (m_reg s1 RAX)). m_mem t a = m_mem s1 a"
    and "frame (m_reg t RSP - 56) \<inter> insert (m_reg s1 RAX + 64) (frame (m_reg s1 RAX)) = {}"
    and "m_reg t RDI \<notin> insert (m_reg s1 RAX + 64) (frame (m_reg s1 RAX))"
  shows "\<exists>t1. exec jump_fcontext t = Some (m_reg s RDX, t1) \<and> m_reg t1 RDI = m_reg t RDX \<and>
    m_mem t1 (m_reg t1 RSP) = finish \<and> unat (m_reg t1 RSP) mod 16 = 8 \<and>
    unat (m_reg t1 RSP) + 8 \<le> unat (m_reg s RDI) \<and> unat (m_reg s RDI) \<le> unat (m_reg s1 RAX) + 87 \<and>
    (\<forall>u. m_reg u RSP = m_reg t1 RSP + 8 \<longrightarrow>
      (\<exists>u'. exec (x64_finish exit hlt) u = Some (exit, u') \<and> m_reg u' RDI = 0 \<and> unat (m_reg u' RSP) mod 16 = 8))"
proof -
  let ?sp = "(m_reg s RDI AND - 16) - 72" and ?bp = "unat (m_reg s RDI)"
  note mk = exec_make_fcontext(1) [where r = "m_reg s" and finish = finish and m = "m_mem s" and x = "m_mxcsr s"
      and f = "m_fcw s" and z = "m_zf s", OF assms(1,2)] exec_make_fcontext(2,3) [where r = "m_reg s", OF assms(1,2)]
  have s1: "m_reg s1 RAX = ?sp" "m_mem s1 (?sp + 56) = m_reg s RDX" "m_mem s1 (?sp + 64) = finish"
    using mk(1) [unfolded mk_surj [symmetric]] assms(3) by (auto simp: Let_def mk_def)
  let ?mt = "jump_mem (m_reg t) (m_mem t) (m_mxcsr t) (m_fcw t)"
  have keep: "?mt a = m_mem s1 a" if "a \<in> insert (?sp + 64) (frame ?sp)" for a
    using that assms(7,8,9) s1(1) by (subst jump_mem_other) auto
  have al: "aligned (m_reg t RSI)" using mk(2) assms(6) s1 by simp
  obtain t1 where t1: "exec jump_fcontext t = Some (?mt (?sp + 56), t1)" "m_mem t1 = ?mt"
    "m_reg t1 = (pop_frame ?sp ?mt (m_reg t))(RAX := m_reg t RDX, RDI := m_reg t RDX)"
    using exec_jump_machine [OF assms(4,5) al] assms(6) s1(1) by auto
  have cells: "?mt (?sp + 56) = m_reg s RDX" "?mt (?sp + 64) = finish"
    using keep [of "?sp + 56"] keep [of "?sp + 64"] s1 by (simp_all add: frame_def)
  have lt: "?bp < 2 ^ 64" using unsigned_less [of "m_reg s RDI"] by simp
  have m16: "?bp mod 16 < 16" by simp
  have sp: "unat (?sp + 64) = ?bp - ?bp mod 16 - 8"
    using mk(3) assms(2) lt m16 by (subst unat_plus_lt) simp_all
  have rsp: "m_reg t1 RSP = ?sp + 64" using t1(3) by (simp add: pop_frame_def)
  have e: "unat (m_reg t1 RSP) mod 16 = 8" "unat (m_reg t1 RSP) + 8 \<le> ?bp" "?bp \<le> unat (m_reg s1 RAX) + 87"
    using mod_16_below [OF assms(2)] rsp sp mk(3) s1(1) assms(2) m16 by simp_all
  have fin: "\<exists>u'. exec (x64_finish exit hlt) u = Some (exit, u') \<and> m_reg u' RDI = 0 \<and> unat (m_reg u' RSP) mod 16 = 8"
    if "m_reg u RSP = m_reg t1 RSP + 8" for u
  proof -
    have "aligned (m_reg u RSP)" using that rsp mk(2) by (simp add: aligned_diff)
    from x64_finish_exits [OF this] e(1) that show ?thesis by (metis add_diff_cancel_right')
  qed
  have "exec jump_fcontext t = Some (m_reg s RDX, t1)" "m_reg t1 RDI = m_reg t RDX" "m_mem t1 (m_reg t1 RSP) = finish"
    using t1 cells rsp by simp_all
  with e fin show ?thesis by blast
qed

theorem make_fcontext_entry_witness:
  "\<exists>t t1. exec jump_fcontext t = Some (77, t1) \<and> unat (m_reg t1 RSP) mod 16 = 8 \<and> m_mem t1 (m_reg t1 RSP) = 99"
proof -
  let ?s = "\<lparr>m_reg = (\<lambda>_. 0)(RSP := 0x2000, RDI := 0x1003, RDX := 77), m_mem = (\<lambda>_. 0),
    m_mxcsr = 0, m_fcw = 0, m_zf = False\<rparr>"
  have al: "aligned (m_reg ?s RSP)" "unat (m_reg ?s RDI) \<ge> 88" by (simp_all add: aligned_def)
  obtain k s1 where s1: "exec (make_fcontext 99) ?s = Some (k, s1)" "m_reg s1 RAX = 0xFB8"
    using exec_make_fcontext(1) [where r = "m_reg ?s" and finish = 99 and m = "m_mem ?s" and x = 0 and f = 0 and z = False, OF al]
    by (auto simp: mk_def Let_def)
  let ?t = "\<lparr>m_reg = (\<lambda>_. 0)(RSP := 0x4000, RDI := 0x8008, RSI := m_reg s1 RAX), m_mem = m_mem s1,
    m_mxcsr = 0, m_fcw = 0, m_zf = False\<rparr>"
  have "\<exists>t1. exec jump_fcontext ?t = Some (m_reg ?s RDX, t1) \<and> m_reg t1 RDI = m_reg ?t RDX \<and>
    m_mem t1 (m_reg t1 RSP) = 99 \<and> unat (m_reg t1 RSP) mod 16 = 8 \<and>
    unat (m_reg t1 RSP) + 8 \<le> unat (m_reg ?s RDI) \<and> unat (m_reg ?s RDI) \<le> unat (m_reg s1 RAX) + 87 \<and>
    (\<forall>u. m_reg u RSP = m_reg t1 RSP + 8 \<longrightarrow>
      (\<exists>u'. exec (x64_finish 3 4) u = Some (3, u') \<and> m_reg u' RDI = 0 \<and> unat (m_reg u' RSP) mod 16 = 8))"
    by (rule make_fcontext_entry [OF al s1(1)]) (simp_all add: aligned_def frame_def s1(2))
  then obtain t1 where "exec jump_fcontext ?t = Some (77, t1)" "unat (m_reg t1 RSP) mod 16 = 8" "m_mem t1 (m_reg t1 RSP) = 99"
    by auto
  then show ?thesis by blast
qed

end
