(* ===== verification/Smart_Coro.thy ===== *)
theory Smart_Coro
  imports Smart_Flags Libcontext
begin

text \<open>
  The construction of a coroutine, \<open>SmartCoro::SmartCoro\<close> of \<open>src/smart_coro.cpp\<close>: the size
  of its stack in 32-bit arithmetic, the stack from \<open>malloc\<close> and the context that
  \<open>make_fcontext\<close> prepares on it. The page size and the address \<open>malloc\<close> returned are
  arguments.
\<close>

record coro_context =
  cx_sp :: uint64
  cx_stack_size :: uint32
  cx_fcontext :: uint64

definition coro_stack_size :: "uint32 \<Rightarrow> flags \<Rightarrow> uint32" where
  "coro_stack_size PAGESIZE fl =
     (let PAGESIZE_M1 = PAGESIZE - 1; MIN_STACKSIZE = PAGESIZE * 2
      in (max (ucast (FLAGS_stack_size fl)) MIN_STACKSIZE + PAGESIZE_M1) AND NOT PAGESIZE_M1)"

text \<open>\<open>stack_size\<close> is an \<open>int\<close>: it is sign extended where it is added to a pointer or passed as
  a \<open>size_t\<close>. A null pointer from \<open>malloc\<close> is only logged.\<close>

definition SmartCoro_new ::
  "uint32 \<Rightarrow> flags \<Rightarrow> uint64 \<Rightarrow> uint64 \<Rightarrow> uint64 \<Rightarrow> machine \<Rightarrow> (coro_context \<times> machine) option" where
  "SmartCoro_new PAGESIZE fl sp finish coro_runner s =
     (let stack_size = coro_stack_size PAGESIZE fl;
          bp = sp + scast stack_size
      in map_option (\<lambda>(_, s1). (\<lparr>cx_sp = sp, cx_stack_size = stack_size, cx_fcontext = m_reg s1 RAX\<rparr>, s1))
           (exec (make_fcontext finish)
             (set_reg RDX coro_runner (set_reg RSI (scast stack_size) (set_reg RDI bp s)))))"

text \<open>The destructor passes the stack to \<open>free\<close>: what \<open>malloc\<close> had returned.\<close>

definition SmartCoro_delete :: "coro_context \<Rightarrow> uint64" where
  "SmartCoro_delete c = cx_sp c"

lemma SmartCoro_stack_freed:
  "SmartCoro_new PAGESIZE fl sp finish coro_runner s = Some (c, s1) \<Longrightarrow> SmartCoro_delete c = sp"
  by (auto simp: SmartCoro_new_def SmartCoro_delete_def Let_def)

section \<open>The size of the stack\<close>

lemma coro_stack_size_nat:
  assumes "PAGESIZE = 2 ^ k" "k < 30" "max (unat (ucast (FLAGS_stack_size fl) :: uint32)) (2 * 2 ^ k) + 2 ^ k \<le> 2 ^ 31"
  defines "want \<equiv> max (unat (ucast (FLAGS_stack_size fl) :: uint32)) (2 * 2 ^ k)"
  shows "unat (coro_stack_size PAGESIZE fl) mod 2 ^ k = 0"
    "want \<le> unat (coro_stack_size PAGESIZE fl)" "unat (coro_stack_size PAGESIZE fl) < want + 2 ^ k"
proof -
  let ?f = "ucast (FLAGS_stack_size fl) :: uint32"
  have page: "PAGESIZE - 1 = mask k" using assms(1) by (simp add: mask_eq_exp_minus_1)
  have pw: "(2::nat) ^ k < 2 ^ 30" using assms(2) by (intro power_strict_increasing) simp_all
  have "(2 ^ k :: uint32) = of_nat (2 ^ k)" by simp
  then have up: "unat (2 ^ k :: uint32) = 2 ^ k" using pw by (simp only: unat_of_nat) simp
  have u2: "unat (PAGESIZE * 2) = 2 * 2 ^ k"
    using assms(1) pw by (simp add: unat_word_ariths up)
  have um: "unat (mask k :: uint32) = 2 ^ k - 1"
    using up by (simp add: mask_eq_exp_minus_1 unat_minus_le word_le_unat)
  have mx: "unat (max ?f (PAGESIZE * 2)) = want"
    unfolding want_def u2 [symmetric] by (simp add: max_def word_le_unat)
  have sum: "unat (max ?f (PAGESIZE * 2) + mask k) = want + (2 ^ k - 1)"
    using mx um assms(3) pw unfolding want_def [symmetric] by (subst unat_plus_lt) auto
  let ?n = "want + (2 ^ k - 1)"
  have size: "unat (coro_stack_size PAGESIZE fl) = ?n - ?n mod 2 ^ k"
    unfolding coro_stack_size_def Let_def page unat_and_not_mask sum by (rule refl)
  have lt: "?n mod 2 ^ k < 2 ^ k" by simp
  show "unat (coro_stack_size PAGESIZE fl) mod 2 ^ k = 0"
    unfolding size by (simp add: minus_mod_eq_mult_div)
  show "want \<le> unat (coro_stack_size PAGESIZE fl)" "unat (coro_stack_size PAGESIZE fl) < want + 2 ^ k"
    using lt unfolding size by linarith+
qed

section \<open>Properties\<close>

text \<open>C38. A new coroutine gets a whole number of pages, at least two and at least the configured size
  and less than one page more, and the context prepared on it lies inside the stack; for
  power-of-two pages of at least 128 bytes and sizes below \<open>2\<^sup>3\<^sup>1\<close>.\<close>

theorem new_coro_stack:
  assumes "PAGESIZE = 2 ^ k" "7 \<le> k" "k < 30"
    and "max (unat (ucast (FLAGS_stack_size fl) :: uint32)) (2 * 2 ^ k) + 2 ^ k \<le> 2 ^ 31"
    and "unat sp + 2 ^ 31 < 2 ^ 64" "aligned (m_reg s RSP)"
  shows "\<exists>c s1. SmartCoro_new PAGESIZE fl sp finish coro_runner s = Some (c, s1) \<and> cx_sp c = sp \<and>
    unat (cx_stack_size c) mod 2 ^ k = 0 \<and> 2 * 2 ^ k \<le> unat (cx_stack_size c) \<and>
    unat (ucast (FLAGS_stack_size fl) :: uint32) \<le> unat (cx_stack_size c) \<and>
    unat (cx_stack_size c) < max (unat (ucast (FLAGS_stack_size fl) :: uint32)) (2 * 2 ^ k) + 2 ^ k \<and>
    unat sp \<le> unat (cx_fcontext c) \<and> unat (cx_fcontext c) + 72 \<le> unat sp + unat (cx_stack_size c)"
proof -
  let ?size = "coro_stack_size PAGESIZE fl"
  note size = coro_stack_size_nat [OF assms(1,3,4)]
  have pw: "(2::nat) ^ 7 \<le> 2 ^ k" using assms(2) by (intro power_increasing) simp_all
  have lt: "unat ?size < 2 ^ 31" using size(3) assms(4) by linarith
  then have "int (unat ?size) < int (2 ^ 31)" by (simp only: of_nat_less_iff)
  then have "uint ?size < 2 ^ 31" by simp
  then have "signed_take_bit 31 (uint ?size) = uint ?size"
    using order_trans [OF _ uint_ge_0 [of ?size], of "- (2 ^ 31)"] by (intro signed_take_bit_int_eq_self) simp_all
  then have "scast ?size = (ucast ?size :: uint64)"
    unfolding scast_eq ucast_eq sint_uint by simp
  moreover have wide: "unat (ucast ?size :: uint64) = unat ?size"
    using lt by (simp add: unsigned_ucast_eq take_bit_nat_eq_self)
  ultimately have bp: "unat (sp + scast ?size :: uint64) = unat sp + unat ?size"
    using assms(5) lt wide by (simp add: unat_plus_lt)
  let ?r = "(m_reg s)(RDI := sp + scast ?size, RSI := scast ?size, RDX := coro_runner)"
  have s: "set_reg RDX coro_runner (set_reg RSI (scast ?size) (set_reg RDI (sp + scast ?size) s)) =
      mk ?r (m_mem s) (m_mxcsr s) (m_fcw s) (m_zf s)"
    by (simp add: set_reg_def mk_def)
  have big: "88 \<le> unat (?r RDI)" using bp size(2) pw by simp
  have al: "aligned (?r RSP)" using assms(6) by simp
  note mk = exec_make_fcontext [where r = ?r, OF al big]
  let ?c = "\<lparr>cx_sp = sp, cx_stack_size = ?size, cx_fcontext = (?r RDI AND - 16) - 72\<rparr>"
  obtain k' m' z' s1 where e: "exec (make_fcontext finish) (mk ?r (m_mem s) (m_mxcsr s) (m_fcw s) (m_zf s)) = Some (k', s1)"
      "s1 = mk (?r(RAX := (?r RDI AND - 16) - 72, RCX := finish, RSP := ?r RSP + 8)) m' (m_mxcsr s) (m_fcw s) z'"
    using mk(1) unfolding Let_def by blast
  then have "SmartCoro_new PAGESIZE fl sp finish coro_runner s = Some (?c, s1)"
    unfolding SmartCoro_new_def Let_def s e(1) by (simp add: mk_def)
  moreover have at: "unat (cx_fcontext ?c) = (unat sp + unat ?size) - (unat sp + unat ?size) mod 16 - 72"
    using mk(3) bp by simp
  have "(unat sp + unat ?size) mod 16 < 16" "256 \<le> unat ?size" using size(2) pw by simp_all
  then have "unat sp \<le> unat (cx_fcontext ?c)" "unat (cx_fcontext ?c) + 72 \<le> unat sp + unat ?size"
    unfolding at by linarith+
  ultimately show ?thesis
    using size pw by (intro exI [of _ ?c] exI [of _ s1]) simp
qed

theorem new_coro_stack_witness:
  "\<exists>c s1. SmartCoro_new 4096 default_flags 0x10000 1 2
      \<lparr>m_reg = (\<lambda>_. 0), m_mem = (\<lambda>_. 0), m_mxcsr = 0, m_fcw = 0, m_zf = False\<rparr> = Some (c, s1) \<and>
    131072 \<le> unat (cx_stack_size c) \<and> 0x10000 \<le> unat (cx_fcontext c)"
  using new_coro_stack [of 4096 12 default_flags "0x10000"
      "\<lparr>m_reg = (\<lambda>_. 0), m_mem = (\<lambda>_. 0), m_mxcsr = 0, m_fcw = 0, m_zf = False\<rparr>" 1 2]
  by (simp add: default_flags_def aligned_def) blast

end
