(* ===== verification/Libcontext_Arm32.thy ===== *)
theory Libcontext_Arm32
  imports Context_Switch
begin

text \<open>
  The context switch of \<open>src/internal/libcontext.cpp\<close> for Linux on 32-bit ARM. A frame is 104 bytes:
  \<open>d8\<close> to \<open>d15\<close>, which are the words \<open>s16\<close> to \<open>s31\<close>, then \<open>v1\<close> to \<open>v8\<close>, the link register
  and the address to continue at.
\<close>

unbundle bit_operations_syntax

section \<open>The machine\<close>

datatype breg = A nat | V nat | S nat | SP32 | LR   \<comment> \<open>\<open>a1\<close> to \<open>a4\<close>, \<open>v1\<close> to \<open>v8\<close>, \<open>s16\<close> to \<open>s31\<close>\<close>

record arm32 =
  b_reg :: "breg \<Rightarrow> uint32"
  b_mem :: "uint32 \<Rightarrow> uint32"     \<comment> \<open>the word at an address that is a multiple of 4\<close>
  b_zf :: bool

datatype binstr =
    BPush "breg list"             \<comment> \<open>\<open>push {...}\<close>: the first register at the lowest address\<close>
  | BPop "breg list"
  | BSub breg breg uint32         \<comment> \<open>\<open>sub a, b, #i\<close>\<close>
  | BAdd breg breg uint32
  | BBic breg breg uint32
  | BCmp0 breg                    \<comment> \<open>\<open>cmp a, #0\<close>\<close>
  | BBeq nat                      \<comment> \<open>\<open>beq\<close> forward, over that many instructions\<close>
  | BVstmia breg "breg list"      \<comment> \<open>\<open>vstmia c, {...}\<close>\<close>
  | BVldmia breg "breg list"
  | BStr breg breg uint32         \<comment> \<open>\<open>str a, [c, #i]\<close>\<close>
  | BMov breg breg
  | BMovi breg uint32
  | BAdr breg uint32
  | BBl uint32 uint32             \<comment> \<open>\<open>bl\<close> of a function, with the address to return to\<close>
  | BBx breg                      \<comment> \<open>\<open>bx a\<close>\<close>
  | BPop_pc                       \<comment> \<open>\<open>pop {pc}\<close>\<close>

definition b_set :: "breg \<Rightarrow> uint32 \<Rightarrow> arm32 \<Rightarrow> arm32" where
  "b_set r v s = s\<lparr>b_reg := (b_reg s)(r := v)\<rparr>"

primrec load_regs :: "breg list \<Rightarrow> uint32 \<Rightarrow> (uint32 \<Rightarrow> uint32) \<Rightarrow> (breg \<Rightarrow> uint32) \<Rightarrow> breg \<Rightarrow> uint32" where
  "load_regs [] a m r = r"
| "load_regs (x # xs) a m r = load_regs xs (a + 4) m (r(x := m a))"

definition b_store :: "uint32 \<Rightarrow> uint32 list \<Rightarrow> arm32 \<Rightarrow> arm32 option" where
  "b_store a vs s = (if unat a mod 4 = 0 then Some (s\<lparr>b_mem := put_cells 4 a vs (b_mem s)\<rparr>) else None)"

definition b_load :: "uint32 \<Rightarrow> breg list \<Rightarrow> arm32 \<Rightarrow> arm32 option" where
  "b_load a rs s = (if unat a mod 4 = 0 then Some (s\<lparr>b_reg := load_regs rs a (b_mem s) (b_reg s)\<rparr>) else None)"

fun b_step :: "binstr \<Rightarrow> arm32 \<Rightarrow> arm32 option" where
  "b_step (BPush rs) s =
     (let sp = b_reg s SP32 - 4 * of_nat (length rs) in
      map_option (b_set SP32 sp) (b_store sp (map (b_reg s) rs) s))"
| "b_step (BPop rs) s =
     (let sp = b_reg s SP32 in map_option (b_set SP32 (sp + 4 * of_nat (length rs))) (b_load sp rs s))"
| "b_step (BSub a b i) s = Some (b_set a (b_reg s b - i) s)"
| "b_step (BAdd a b i) s = Some (b_set a (b_reg s b + i) s)"
| "b_step (BBic a b i) s = Some (b_set a (b_reg s b AND NOT i) s)"
| "b_step (BCmp0 a) s = Some (s\<lparr>b_zf := (b_reg s a = 0)\<rparr>)"
| "b_step (BVstmia c rs) s = b_store (b_reg s c) (map (b_reg s) rs) s"
| "b_step (BVldmia c rs) s = b_load (b_reg s c) rs s"
| "b_step (BStr a c i) s = b_store (b_reg s c + i) [b_reg s a] s"
| "b_step (BMov a b) s = Some (b_set a (b_reg s b) s)"
| "b_step (BMovi a i) s = Some (b_set a i s)"
| "b_step (BAdr a l) s = Some (b_set a l s)"
| "b_step (BBeq n) s = Some s"
| "b_step (BBl f l) s = Some s"
| "b_step (BBx a) s = Some s"
| "b_step BPop_pc s = Some s"

function b_exec :: "binstr list \<Rightarrow> arm32 \<Rightarrow> (uint32 \<times> arm32) option" where
  "b_exec [] s = None"
| "b_exec (i # is) s =
     (case i of
        BBeq n \<Rightarrow> b_exec (if b_zf s then drop n is else is) s
      | BBl f l \<Rightarrow> Some (f, b_set LR l s)
      | BBx a \<Rightarrow> Some (b_reg s a, s)
      | BPop_pc \<Rightarrow>
          (let sp = b_reg s SP32 in
           if unat sp mod 4 = 0 then Some (b_mem s sp, b_set SP32 (sp + 4) s) else None)
      | _ \<Rightarrow> Option.bind (b_step i s) (b_exec is))"
  by pat_completeness auto

termination by (relation "measure (length \<circ> fst)") auto

section \<open>The functions\<close>

text \<open>The register lists \<open>{d8-d15}\<close>, as words, and \<open>{v1-v8}\<close>.\<close>

definition d8_d15 :: "breg list" where
  "d8_d15 = [S 16, S 17, S 18, S 19, S 20, S 21, S 22, S 23, S 24, S 25, S 26, S 27, S 28, S 29, S 30, S 31]"

definition v1_v8 :: "breg list" where
  "v1_v8 = [V 1, V 2, V 3, V 4, V 5, V 6, V 7, V 8]"

definition arm32_jump_fcontext :: "binstr list" where
  "arm32_jump_fcontext =
     [BPush [LR], BPush (v1_v8 @ [LR]), BSub SP32 SP32 64,
      BCmp0 (A 4), BBeq 1, BVstmia SP32 d8_d15,
      BStr SP32 (A 1) 0, BMov SP32 (A 2),
      BCmp0 (A 4), BBeq 1, BVldmia SP32 d8_d15,
      BAdd SP32 SP32 64, BMov (A 1) (A 3), BPop (v1_v8 @ [LR]), BPop_pc]"

definition arm32_make_fcontext :: "uint32 \<Rightarrow> binstr list" where
  "arm32_make_fcontext finish =
     [BBic (A 1) (A 1) 15, BSub (A 1) (A 1) 104, BStr (A 3) (A 1) 100,
      BAdr (A 2) finish, BStr (A 2) (A 1) 96, BBx LR]"

definition arm32_finish :: "uint32 \<Rightarrow> uint32 \<Rightarrow> binstr list" where
  "arm32_finish exit ret = [BMovi (A 1) 0, BBl exit ret]"

section \<open>Symbolic execution\<close>

definition mkb :: "(breg \<Rightarrow> uint32) \<Rightarrow> (uint32 \<Rightarrow> uint32) \<Rightarrow> bool \<Rightarrow> arm32" where
  "mkb r m z = \<lparr>b_reg = r, b_mem = m, b_zf = z\<rparr>"

lemma mkb_surj: "s = mkb (b_reg s) (b_mem s) (b_zf s)"
  by (simp add: mkb_def)

lemma unat_mod_4: "unat (d :: uint32) mod 4 = 0 \<Longrightarrow> unat (a + d) mod 4 = unat a mod 4"
  by (rule unat_add_mod) simp_all

lemma unat_mod_4_diff: "unat (d :: uint32) mod 4 = 0 \<Longrightarrow> unat (a - d) mod 4 = unat a mod 4"
  using unat_mod_4 [of d "a - d"] by simp

named_theorems arm32_simps "one instruction each"

lemma b_exec_simple [arm32_simps]:
  "b_exec (BSub a b i # is) (mkb r m z) = b_exec is (mkb (r(a := r b - i)) m z)"
  "b_exec (BAdd a b i # is) (mkb r m z) = b_exec is (mkb (r(a := r b + i)) m z)"
  "b_exec (BBic a b i # is) (mkb r m z) = b_exec is (mkb (r(a := r b AND NOT i)) m z)"
  "b_exec (BCmp0 a # is) (mkb r m z) = b_exec is (mkb r m (r a = 0))"
  "b_exec (BMov a b # is) (mkb r m z) = b_exec is (mkb (r(a := r b)) m z)"
  "b_exec (BMovi a i # is) (mkb r m z) = b_exec is (mkb (r(a := i)) m z)"
  "b_exec (BAdr a i # is) (mkb r m z) = b_exec is (mkb (r(a := i)) m z)"
  "b_exec (BBeq n # is) (mkb r m z) = b_exec (if z then drop n is else is) (mkb r m z)"
  "b_exec (BBl f l # is) (mkb r m z) = Some (f, mkb (r(LR := l)) m z)"
  "b_exec (BBx a # is) (mkb r m z) = Some (r a, mkb r m z)"
  by (simp_all add: mkb_def b_set_def)

lemma b_exec_mem [arm32_simps]:
  "unat (r SP32 - 4 * of_nat (length rs)) mod 4 = 0 \<Longrightarrow> b_exec (BPush rs # is) (mkb r m z) =
     b_exec is (mkb (r(SP32 := r SP32 - 4 * of_nat (length rs)))
       (put_cells 4 (r SP32 - 4 * of_nat (length rs)) (map r rs) m) z)"
  "unat (r SP32) mod 4 = 0 \<Longrightarrow> b_exec (BPop rs # is) (mkb r m z) =
     b_exec is (mkb ((load_regs rs (r SP32) m r)(SP32 := r SP32 + 4 * of_nat (length rs))) m z)"
  "unat (r c) mod 4 = 0 \<Longrightarrow> b_exec (BVstmia c rs # is) (mkb r m z) = b_exec is (mkb r (put_cells 4 (r c) (map r rs) m) z)"
  "unat (r c) mod 4 = 0 \<Longrightarrow> b_exec (BVldmia c rs # is) (mkb r m z) = b_exec is (mkb (load_regs rs (r c) m r) m z)"
  "unat (r c + i) mod 4 = 0 \<Longrightarrow> b_exec (BStr a c i # is) (mkb r m z) = b_exec is (mkb r (m(r c + i := r a)) z)"
  "unat (r SP32) mod 4 = 0 \<Longrightarrow> b_exec (BPop_pc # is) (mkb r m z) = Some (m (r SP32), mkb (r(SP32 := r SP32 + 4)) m z)"
  by (simp_all add: mkb_def b_set_def b_store_def b_load_def Let_def)

lemma load_regs_other: "x \<notin> set rs \<Longrightarrow> load_regs rs a m r x = r x"
  by (induction rs arbitrary: a r) simp_all

lemma load_regs_cells: "distinct rs \<Longrightarrow> map (load_regs rs a m r) rs = map m (cells 4 a (length rs))"
  by (induction rs arbitrary: a r) (simp_all add: load_regs_other)

lemma arm32_lists [simp]:
  "length d8_d15 = 16" "length v1_v8 = 8" "distinct d8_d15" "distinct v1_v8"
  "SP32 \<notin> set d8_d15" "SP32 \<notin> set v1_v8" "LR \<notin> set d8_d15" "LR \<notin> set v1_v8" "A i \<notin> set d8_d15" "A i \<notin> set v1_v8"
  "set d8_d15 \<inter> set v1_v8 = {}"
  by (simp_all add: d8_d15_def v1_v8_def)

text \<open>The memory when the registers are pushed, and when the context is left.\<close>

definition arm32_saved :: "(breg \<Rightarrow> uint32) \<Rightarrow> (uint32 \<Rightarrow> uint32) \<Rightarrow> uint32 \<Rightarrow> uint32" where
  "arm32_saved r m =
     put_cells 4 (r SP32 - 40) (map r (v1_v8 @ [LR])) (m(r SP32 - 4 := r LR))"

definition arm32_mem :: "(breg \<Rightarrow> uint32) \<Rightarrow> (uint32 \<Rightarrow> uint32) \<Rightarrow> uint32 \<Rightarrow> uint32" where
  "arm32_mem r m =
     (if r (A 4) = 0 then arm32_saved r m
      else put_cells 4 (r SP32 - 104) (map r d8_d15) (arm32_saved r m))(r (A 1) := r SP32 - 104)"

lemma map_upd_SP32 [simp]:
  "map (r(SP32 := v)) v1_v8 = map r v1_v8" "map (r(SP32 := v)) d8_d15 = map r d8_d15"
  by (simp_all add: v1_v8_def d8_d15_def)

lemma b_exec_save:
  assumes "unat (r SP32) mod 4 = 0" "unat (r (A 1)) mod 4 = 0"
  shows "b_exec (BPush [LR] # BPush (v1_v8 @ [LR]) # BSub SP32 SP32 64 #
      BCmp0 (A 4) # BBeq 1 # BVstmia SP32 d8_d15 # BStr SP32 (A 1) 0 # is) (mkb r m z) =
    b_exec is (mkb (r(SP32 := r SP32 - 104)) (arm32_mem r m) (r (A 4) = 0))"
  using assms
  by (simp add: arm32_simps arm32_mem_def arm32_saved_def unat_mod_4_diff del: b_exec.simps)

lemma b_exec_restore:
  assumes "unat (r (A 2)) mod 4 = 0"
  shows "\<exists>r' z'. b_exec [BMov SP32 (A 2), BCmp0 (A 4), BBeq 1, BVldmia SP32 d8_d15,
      BAdd SP32 SP32 64, BMov (A 1) (A 3), BPop (v1_v8 @ [LR]), BPop_pc] (mkb r m z) = Some (m (r (A 2) + 100), mkb r' m z') \<and>
    map r' (v1_v8 @ [LR]) = map m (cells 4 (r (A 2) + 64) 9) \<and> r' SP32 = r (A 2) + 104 \<and> r' (A 1) = r (A 3) \<and>
    (r (A 4) \<noteq> 0 \<longrightarrow> map r' d8_d15 = map m (cells 4 (r (A 2)) 16))"
proof -
  let ?n = "r (A 2)" let ?vs = "v1_v8 @ [LR]"
  define q where "q = (if r (A 4) = 0 then r(SP32 := ?n) else load_regs d8_d15 ?n m (r(SP32 := ?n)))"
  have q: "q SP32 = ?n" "q (A 3) = r (A 3)" by (simp_all add: q_def load_regs_other)
  define r' where "r' = (load_regs ?vs (?n + 64) m (q(SP32 := ?n + 64, A 1 := r (A 3))))(SP32 := ?n + 104)"
  have "b_exec [BMov SP32 (A 2), BCmp0 (A 4), BBeq 1, BVldmia SP32 d8_d15,
      BAdd SP32 SP32 64, BMov (A 1) (A 3), BPop ?vs, BPop_pc] (mkb r m z) =
    b_exec [BAdd SP32 SP32 64, BMov (A 1) (A 3), BPop ?vs, BPop_pc] (mkb q m (r (A 4) = 0))"
    using assms by (simp add: arm32_simps q_def del: b_exec.simps)
  also have "\<dots> = Some (m (?n + 100), mkb r' m (r (A 4) = 0))"
    using assms q by (simp add: arm32_simps r'_def unat_mod_4 add.assoc del: b_exec.simps)
  finally have run: "b_exec [BMov SP32 (A 2), BCmp0 (A 4), BBeq 1, BVldmia SP32 d8_d15,
      BAdd SP32 SP32 64, BMov (A 1) (A 3), BPop ?vs, BPop_pc] (mkb r m z) = Some (m (?n + 100), mkb r' m (r (A 4) = 0))" .
  have "map r' ?vs = map m (cells 4 (?n + 64) 9)"
    using load_regs_cells [of ?vs "?n + 64" m "q(SP32 := ?n + 64, A 1 := r (A 3))"] by (simp add: r'_def del: cells.simps)
  moreover have "r' SP32 = ?n + 104" "r' (A 1) = r (A 3)" by (simp_all add: r'_def load_regs_other)
  moreover have "map r' d8_d15 = map m (cells 4 ?n 16)" if "r (A 4) \<noteq> 0"
  proof -
    have "map r' d8_d15 = map (load_regs d8_d15 ?n m (r(SP32 := ?n))) d8_d15"
      using that by (auto simp: r'_def q_def load_regs_other d8_d15_def v1_v8_def)
    also have "\<dots> = map m (cells 4 ?n 16)" using load_regs_cells [of d8_d15 ?n m] by (simp del: cells.simps)
    finally show ?thesis .
  qed
  ultimately show ?thesis using run by blast
qed

section \<open>The laws of a context switch\<close>

definition arm32_frame :: "uint32 \<Rightarrow> uint32 set" where
  "arm32_frame sp = set (cells 4 sp 26)"

definition arm32_ctx :: "(uint32 \<Rightarrow> uint32) \<Rightarrow> uint32 \<Rightarrow> uint32 \<times> uint32 list" where
  "arm32_ctx f sp = (f (sp + 100), map f (cells 4 (sp + 64) 9) @ [sp + 104])"

definition arm32_fpu_ctx :: "(uint32 \<Rightarrow> uint32) \<Rightarrow> uint32 \<Rightarrow> uint32 list" where
  "arm32_fpu_ctx f sp = map f (cells 4 sp 16)"

definition arm32_ok :: "arm32 \<Rightarrow> bool" where
  "arm32_ok s \<longleftrightarrow> unat (b_reg s SP32) mod 4 = 0 \<and> unat (b_reg s (A 1)) mod 4 = 0 \<and> unat (b_reg s (A 2)) mod 4 = 0"

definition arm32_own :: "arm32 \<Rightarrow> uint32" where
  "arm32_own s = b_reg s SP32 - 104"

definition arm32_view :: "arm32 \<Rightarrow> uint32 list" where
  "arm32_view s = map (b_reg s) (v1_v8 @ [LR]) @ [b_reg s SP32]"

definition arm32_resume :: "arm32 \<Rightarrow> uint32 \<times> uint32 list" where
  "arm32_resume s = (b_reg s LR, arm32_view s)"

lemma arm32_frame_explicit:
  "arm32_frame n = (+) n ` {0, 4, 8, 12, 16, 20, 24, 28, 32, 36, 40, 44, 48, 52, 56, 60,
     64, 68, 72, 76, 80, 84, 88, 92, 96, 100}"
  by (simp add: arm32_frame_def numeral_eq_Suc add.commute [of _ n] del: One_nat_def)

lemma set_arm32_regs: "set v1_v8 = V ` {1..8}" "set d8_d15 = S ` {16..31}"
  by code_simp+

lemma frame32_cells: "cells 4 (sp :: uint32) 26 = cells 4 sp 16 @ cells 4 (sp + 64) 9 @ [sp + 100]"
  using cells_append [of 4 sp 16 10] cells_snoc [of 4 "sp + 64" 9] by (simp del: cells.simps add: add.assoc)

lemma distinct_frame32:
  "set (cells 4 (sp :: uint32) 16) \<inter> set (cells 4 (sp + 64) 9) = {}" "sp + 100 \<notin> set (cells 4 sp 16)"
  "sp + 100 \<notin> set (cells 4 (sp + 64) 9)"
  using distinct_cells [of 26 4 sp] unfolding frame32_cells by auto

lemma arm32_jumps:
  assumes "arm32_ok s"
  shows "\<exists>s'. b_exec arm32_jump_fcontext s = Some (fst (arm32_ctx (b_mem s') (b_reg s (A 2))), s') \<and>
    b_mem s' = arm32_mem (b_reg s) (b_mem s) \<and> arm32_view s' = snd (arm32_ctx (b_mem s') (b_reg s (A 2))) \<and>
    b_reg s' (A 1) = b_reg s (A 3) \<and>
    (b_reg s (A 4) \<noteq> 0 \<longrightarrow> map (b_reg s') d8_d15 = arm32_fpu_ctx (b_mem s') (b_reg s (A 2)))"
proof -
  let ?r = "b_reg s" and ?m' = "arm32_mem (b_reg s) (b_mem s)"
  let ?r1 = "?r(SP32 := ?r SP32 - 104)"
  have al: "unat (?r1 (A 2)) mod 4 = 0" using assms by (simp add: arm32_ok_def)
  obtain r' z' where r': "b_exec [BMov SP32 (A 2), BCmp0 (A 4), BBeq 1, BVldmia SP32 d8_d15,
      BAdd SP32 SP32 64, BMov (A 1) (A 3), BPop (v1_v8 @ [LR]), BPop_pc] (mkb ?r1 ?m' (?r (A 4) = 0)) =
      Some (?m' (?r (A 2) + 100), mkb r' ?m' z')"
    "map r' (v1_v8 @ [LR]) = map ?m' (cells 4 (?r (A 2) + 64) 9)" "r' SP32 = ?r (A 2) + 104" "r' (A 1) = ?r (A 3)"
    "?r (A 4) \<noteq> 0 \<longrightarrow> map r' d8_d15 = map ?m' (cells 4 (?r (A 2)) 16)"
    using b_exec_restore [where r = ?r1 and m = ?m' and z = "?r (A 4) = 0", OF al] by auto
  have "b_exec arm32_jump_fcontext (mkb ?r (b_mem s) (b_zf s)) = Some (?m' (?r (A 2) + 100), mkb r' ?m' z')"
    unfolding arm32_jump_fcontext_def using assms by (subst b_exec_save) (simp_all only: arm32_ok_def r'(1))
  then have "b_exec arm32_jump_fcontext s = Some (?m' (?r (A 2) + 100), mkb r' ?m' z')" by (simp only: mkb_surj [symmetric])
  then show ?thesis using r'(2-5)
    by (intro exI [of _ "mkb r' ?m' z'"]) (simp add: mkb_def arm32_ctx_def arm32_view_def arm32_fpu_ctx_def del: cells.simps)
qed

lemma arm32_jump_mem:
  "arm32_ok s \<Longrightarrow> b_exec arm32_jump_fcontext s = Some (k, s') \<Longrightarrow> b_mem s' = arm32_mem (b_reg s) (b_mem s)"
  using arm32_jumps [of s] by auto

lemma arm32_saved_cells:
  fixes r :: "breg \<Rightarrow> uint32"
  defines "sp \<equiv> r SP32 - 104"
  shows "map (arm32_saved r m) (cells 4 (sp + 64) 9) = map r (v1_v8 @ [LR])" "arm32_saved r m (sp + 100) = r LR"
    "a \<notin> arm32_frame sp \<Longrightarrow> arm32_saved r m a = m a"
proof -
  let ?vs = "map r (v1_v8 @ [LR])" and ?m = "m(r SP32 - 4 := r LR)"
  have base: "r SP32 - 40 = sp + 64" "r SP32 - 4 = sp + 100" by (simp_all add: sp_def)
  have len: "length ?vs = 9" by simp
  have saved: "arm32_saved r m = put_cells 4 (sp + 64) ?vs (m(sp + 100 := r LR))"
    unfolding arm32_saved_def base ..
  show "map (arm32_saved r m) (cells 4 (sp + 64) 9) = ?vs"
    using put_cells_get [of 4 "sp + 64" ?vs] distinct_cells [of 9 4 "sp + 64"] unfolding saved len by simp
  show "arm32_saved r m (sp + 100) = r LR"
    using put_cells_other [of "sp + 100" 4 "sp + 64" ?vs] distinct_frame32(3) unfolding saved len by simp
  show "arm32_saved r m a = m a" if "a \<notin> arm32_frame sp"
    using put_cells_other [of a 4 "sp + 64" ?vs] that unfolding saved len arm32_frame_def frame32_cells
    by (simp del: cells.simps)
qed

lemma arm32_mem_frame:
  assumes "r (A 1) \<notin> arm32_frame (r SP32 - 104)"
  shows "arm32_ctx (arm32_mem r m) (r SP32 - 104) = (r LR, map r (v1_v8 @ [LR]) @ [r SP32])"
    "r (A 4) \<noteq> 0 \<Longrightarrow> arm32_fpu_ctx (arm32_mem r m) (r SP32 - 104) = map r d8_d15"
proof -
  define sp where "sp = r SP32 - 104"
  let ?s = "arm32_saved r m" and ?m = "arm32_mem r m"
  note saved = arm32_saved_cells [where r = r and m = m, folded sp_def]
  have a1: "r (A 1) \<notin> set (cells 4 sp 16)" "r (A 1) \<notin> set (cells 4 (sp + 64) 9)" "r (A 1) \<noteq> sp + 100"
    using assms unfolding sp_def [symmetric] arm32_frame_def frame32_cells by auto
  have high: "?m a = ?s a" if "a \<notin> set (cells 4 sp 16)" "a \<noteq> r (A 1)" for a
    using that put_cells_other [of a 4 sp "map r d8_d15" ?s] by (simp add: arm32_mem_def sp_def)
  have "map ?m (cells 4 (sp + 64) 9) = map ?s (cells 4 (sp + 64) 9)"
    using a1(2) distinct_frame32(1) [of sp] by (intro map_cong [OF refl] high) auto
  moreover have "?m (sp + 100) = ?s (sp + 100)" using a1(3) distinct_frame32(2) by (intro high) auto
  ultimately have "arm32_ctx ?m sp = (r LR, map r (v1_v8 @ [LR]) @ [r SP32])"
    unfolding arm32_ctx_def saved(1) saved(2) by (simp add: sp_def)
  then show "arm32_ctx ?m (r SP32 - 104) = (r LR, map r (v1_v8 @ [LR]) @ [r SP32])" unfolding sp_def .
  assume "r (A 4) \<noteq> 0"
  then have "map ?m (cells 4 sp 16) = map (put_cells 4 sp (map r d8_d15) ?s) (cells 4 sp 16)"
    using a1(1) by (intro map_cong [OF refl]) (auto simp: arm32_mem_def sp_def)
  also have "\<dots> = map r d8_d15" using put_cells_get [of 4 sp "map r d8_d15" ?s] distinct_cells [of 16 4 sp] by simp
  finally show "arm32_fpu_ctx ?m (r SP32 - 104) = map r d8_d15" unfolding arm32_fpu_ctx_def sp_def .
qed

lemma arm32_mem_other:
  assumes "a \<notin> arm32_frame (r SP32 - 104)" "a \<noteq> r (A 1)"
  shows "arm32_mem r m a = m a"
proof -
  have "a \<notin> set (cells 4 (r SP32 - 104) 16)" using assms(1) unfolding arm32_frame_def frame32_cells by auto
  then show ?thesis
    using assms arm32_saved_cells(3) [where a = a and r = r and m = m] put_cells_other [of a 4 "r SP32 - 104" "map r d8_d15"]
    by (simp add: arm32_mem_def)
qed

interpretation arm32: context_switch_fpu "b_exec arm32_jump_fcontext" b_mem arm32_ok arm32_own
  "\<lambda>s. b_reg s (A 1)" "\<lambda>s. b_reg s (A 2)" "\<lambda>s. b_reg s (A 3)" "\<lambda>s. b_reg s (A 1)" arm32_resume arm32_view arm32_ctx
  arm32_frame "\<lambda>_. {}" "\<lambda>s. b_reg s (A 4) \<noteq> 0" "\<lambda>s. map (b_reg s) d8_d15" arm32_fpu_ctx
proof (unfold_locales, goal_cases)
  case (1 s)
  then show ?case using arm32_jumps by blast
next
  case (2 s k s')
  have "arm32_mem (b_reg s) (b_mem s) (b_reg s (A 1)) = b_reg s SP32 - 104" by (simp add: arm32_mem_def)
  then show ?case using 2(2)
    unfolding arm32_jump_mem [OF 2(1,4)] arm32_own_def arm32_resume_def arm32_view_def by (simp only: arm32_mem_frame(1) simp_thms)
next
  case (3 s k s' a)
  then show ?case by (simp add: arm32_jump_mem [OF 3(1,2)] arm32_mem_other arm32_own_def)
next
  case (4 sp f g)
  then show ?case by (auto simp: arm32_ctx_def arm32_frame_def frame32_cells simp del: cells.simps)
next
  case (5 s k s')
  then show ?case using arm32_jumps by fastforce
next
  case (6 s k s')
  then show ?case
    unfolding arm32_jump_mem [OF 6(1,5)] arm32_own_def by (intro arm32_mem_frame(2))
next
  case (7 sp f g)
  then show ?case by (auto simp: arm32_fpu_ctx_def arm32_frame_def frame32_cells simp del: cells.simps)
qed

section \<open>New contexts\<close>

definition new_arm32 :: "uint32 \<Rightarrow> uint32" where
  "new_arm32 bp = (bp AND - 16) - 104"

lemma new_arm32_bounds:
  assumes "unat bp \<ge> 120"
  shows "unat (new_arm32 bp) = unat bp - unat bp mod 16 - 104" "unat (new_arm32 bp) mod 4 = 0"
proof -
  have m: "unat bp mod 16 < 16" by simp
  have u: "unat (bp AND - 16) = unat bp - unat bp mod 16" by (rule unat_round_16)
  then have "(104::uint32) \<le> bp AND - 16" using m assms by (simp add: word_le_unat)
  then show "unat (new_arm32 bp) = unat bp - unat bp mod 16 - 104" by (simp add: new_arm32_def unat_minus_le u)
  have "unat (bp AND - 16) mod 4 = 0" unfolding u by presburger
  then show "unat (new_arm32 bp) mod 4 = 0" by (simp add: new_arm32_def unat_mod_4_diff)
qed

lemma arm32_makes:
  assumes "unat (b_reg s (A 1)) \<ge> 120"
  defines "sp \<equiv> new_arm32 (b_reg s (A 1))"
  shows "\<exists>s1. b_exec (arm32_make_fcontext finish) s = Some (b_reg s LR, s1) \<and> b_reg s1 (A 1) = sp \<and>
    b_mem s1 = (b_mem s)(sp + 100 := b_reg s (A 3), sp + 96 := finish)"
proof -
  have al: "unat sp mod 4 = 0" using new_arm32_bounds(2) [OF assms(1)] by (simp add: sp_def)
  have sp: "(b_reg s (A 1) AND - 16) - 104 = sp" by (simp add: sp_def new_arm32_def)
  have "b_exec (arm32_make_fcontext finish) (mkb (b_reg s) (b_mem s) (b_zf s)) =
    Some (b_reg s LR, mkb ((b_reg s)(A 1 := sp, A 2 := finish)) ((b_mem s)(sp + 100 := b_reg s (A 3), sp + 96 := finish)) (b_zf s))"
    unfolding arm32_make_fcontext_def using al sp by (simp add: arm32_simps unat_mod_4 del: b_exec.simps)
  then show ?thesis unfolding mkb_surj [symmetric] by (simp add: mkb_def)
qed

text \<open>A context function that returns ends the process: \<open>_exit\<close> is called with the argument 0.\<close>

lemma arm32_finish_exits: "\<exists>u'. b_exec (arm32_finish exit ret) u = Some (exit, u') \<and> b_reg u' (A 1) = 0"
  by (simp add: arm32_finish_def b_set_def)

section \<open>Properties\<close>

text \<open>On 32-bit ARM a switch away and back restores the caller: the second jump continues at the
  link register of the first with \<open>v1\<close> to \<open>v8\<close>, the link register and the stack pointer as they
  were, the second jump's argument as the result and, when both calls ask for it, \<open>d8\<close> to
  \<open>d15\<close>.\<close>

lemma arm32_jump_fcontext_round_trip:
  assumes "arm32_ok s" "b_reg s (A 1) \<notin> arm32_frame (b_reg s SP32 - 104)" "b_exec arm32_jump_fcontext s = Some (k, s1)"
    and "unat (b_reg t SP32) mod 4 = 0" "unat (b_reg t (A 1)) mod 4 = 0" "b_reg t (A 2) = b_mem s1 (b_reg s (A 1))"
    and "\<forall>a \<in> arm32_frame (b_reg s SP32 - 104). b_mem t a = b_mem s1 a"
    and "insert (b_reg t (A 1)) (arm32_frame (b_reg t SP32 - 104)) \<inter> arm32_frame (b_reg s SP32 - 104) = {}"
  shows "\<exists>t1. b_exec arm32_jump_fcontext t = Some (b_reg s LR, t1) \<and> b_reg t1 (A 1) = b_reg t (A 3) \<and>
    b_reg t1 SP32 = b_reg s SP32 \<and> b_reg t1 LR = b_reg s LR \<and> (\<forall>i \<in> {1..8}. b_reg t1 (V i) = b_reg s (V i)) \<and>
    (b_reg s (A 4) \<noteq> 0 \<and> b_reg t (A 4) \<noteq> 0 \<longrightarrow> (\<forall>i \<in> {16..31}. b_reg t1 (S i) = b_reg s (S i)))"
proof -
  note own = arm32_own_def [of s, symmetric] arm32_own_def [of t, symmetric]
  note as = assms [unfolded own]
  have n: "b_reg t (A 2) = arm32_own s" using arm32.saves [OF as(1,2) _ as(3)] as(6) by simp
  have ok: "arm32_ok t" using as(1,4,5) n by (simp add: arm32_ok_def arm32_own_def unat_mod_4_diff)
  have ap: "arm32.apart t (arm32_own s)" using as(8) unfolding arm32.apart_def by auto
  obtain t1 where t1: "b_exec arm32_jump_fcontext t = Some (fst (arm32_resume s), t1)"
    "arm32_view t1 = snd (arm32_resume s)" "b_reg t1 (A 1) = b_reg t (A 3)"
    using arm32.round_trip [OF as(1,2) _ as(3) ok as(6,7) ap] by auto
  have fpu: "map (b_reg t1) d8_d15 = map (b_reg s) d8_d15" if "b_reg s (A 4) \<noteq> 0" "b_reg t (A 4) \<noteq> 0"
    using arm32.fpu_round_trip [OF as(1) that(1) as(2) _ as(3) ok that(2) as(6,7) ap t1(1)] by simp
  show ?thesis using t1 fpu
    by (intro exI [of _ t1]) (simp add: arm32_resume_def arm32_view_def set_arm32_regs)
qed

lemma arm32_jump_fcontext_round_trip_witness:
  "\<exists>t t1. b_exec arm32_jump_fcontext t = Some (42, t1) \<and> b_reg t1 (V 1) = 7 \<and> b_reg t1 (S 16) = 9 \<and>
    b_reg t1 SP32 = 0x1000 \<and> b_reg t1 (A 1) = 5"
proof -
  let ?s = "\<lparr>b_reg = (\<lambda>_. 0)(SP32 := 0x1000, A 1 := 0x8000, A 4 := 1, V 1 := 7, LR := 42, S 16 := 9), b_mem = (\<lambda>_. 0), b_zf = False\<rparr>"
  have ok: "arm32_ok ?s" "b_reg ?s (A 1) \<notin> arm32_frame (b_reg ?s SP32 - 104)"
    by (simp_all add: arm32_ok_def arm32_frame_explicit)
  obtain k s1 where s1: "b_exec arm32_jump_fcontext ?s = Some (k, s1)" using arm32_jumps [OF ok(1)] by blast
  let ?t = "\<lparr>b_reg = (\<lambda>_. 0)(SP32 := 0x2000, A 1 := 0x8008, A 2 := b_mem s1 0x8000, A 3 := 5, A 4 := 1), b_mem = b_mem s1, b_zf = False\<rparr>"
  have "\<exists>t1. b_exec arm32_jump_fcontext ?t = Some (b_reg ?s LR, t1) \<and> b_reg t1 (A 1) = b_reg ?t (A 3) \<and>
    b_reg t1 SP32 = b_reg ?s SP32 \<and> b_reg t1 LR = b_reg ?s LR \<and> (\<forall>i \<in> {1..8}. b_reg t1 (V i) = b_reg ?s (V i)) \<and>
    (b_reg ?s (A 4) \<noteq> 0 \<and> b_reg ?t (A 4) \<noteq> 0 \<longrightarrow> (\<forall>i \<in> {16..31}. b_reg t1 (S i) = b_reg ?s (S i)))"
    by (rule arm32_jump_fcontext_round_trip [OF ok s1])
      (simp_all add: arm32_frame_explicit)
  then obtain t1 where "b_exec arm32_jump_fcontext ?t = Some (42, t1)" "b_reg t1 (V 1) = 7" "b_reg t1 (S 16) = 9"
    "b_reg t1 SP32 = 0x1000" "b_reg t1 (A 1) = 5" by auto
  then show ?thesis by blast
qed

text \<open>A new context on 32-bit ARM starts its function as the calling convention wants: the first jump to
  what \<open>make_fcontext\<close> returned goes to \<open>fn\<close> with the argument of the jump in \<open>a1\<close>, the stack
  pointer at the greatest multiple of 16 below the given end of the stack and \<open>finish\<close> in the
  link register. If the function returns, \<open>finish\<close> calls \<open>_exit(0)\<close>.\<close>

lemma arm32_make_fcontext_entry:
  assumes "unat (b_reg s (A 1)) \<ge> 120" "b_exec (arm32_make_fcontext finish) s = Some (k, s1)"
    and "unat (b_reg t SP32) mod 4 = 0" "unat (b_reg t (A 1)) mod 4 = 0" "b_reg t (A 2) = b_reg s1 (A 1)"
    and "\<forall>a \<in> arm32_frame (b_reg s1 (A 1)). b_mem t a = b_mem s1 a"
    and "insert (b_reg t (A 1)) (arm32_frame (b_reg t SP32 - 104)) \<inter> arm32_frame (b_reg s1 (A 1)) = {}"
  shows "\<exists>t1. b_exec arm32_jump_fcontext t = Some (b_reg s (A 3), t1) \<and> b_reg t1 (A 1) = b_reg t (A 3) \<and>
    b_reg t1 LR = finish \<and> b_reg t1 SP32 = b_reg s (A 1) AND - 16 \<and>
    unat (b_reg s (A 1)) \<le> unat (b_reg s1 (A 1)) + 119 \<and>
    (\<forall>u. \<exists>u'. b_exec (arm32_finish exit ret) u = Some (exit, u') \<and> b_reg u' (A 1) = 0)"
proof -
  let ?bp = "b_reg s (A 1)" and ?sp = "new_arm32 (b_reg s (A 1))"
  note b = new_arm32_bounds [OF assms(1)]
  have s1: "b_reg s1 (A 1) = ?sp" "b_mem s1 (?sp + 100) = b_reg s (A 3)" "b_mem s1 (?sp + 96) = finish"
    using arm32_makes [OF assms(1), of finish] assms(2) by auto
  have ok: "arm32_ok t" using assms(3-5) s1(1) b(2) unfolding arm32_ok_def by simp
  have "arm32.apart t (b_reg t (A 2))" using assms(5,7) unfolding arm32.apart_def arm32_own_def by auto
  from arm32.enters [OF ok this] obtain t1 where t1: "b_exec arm32_jump_fcontext t = Some (fst (arm32_ctx (b_mem t) ?sp), t1)"
    "arm32_view t1 = snd (arm32_ctx (b_mem t) ?sp)" "b_reg t1 (A 1) = b_reg t (A 3)"
    using assms(5) s1(1) by auto
  have mem: "b_mem t (?sp + 100) = b_reg s (A 3)" "b_mem t (?sp + 96) = finish"
    using assms(6) s1 by (simp_all add: arm32_frame_explicit)
  have cells: "cells 4 (?sp + 64) 9 = cells 4 (?sp + 64) 8 @ [?sp + 96]"
    using cells_snoc [of 4 "?sp + 64" 8] by (simp add: add.assoc del: cells.simps)
  have "(map (b_reg t1) v1_v8 @ [b_reg t1 LR]) @ [b_reg t1 SP32] =
      (map (b_mem t) (cells 4 (?sp + 64) 8) @ [b_mem t (?sp + 96)]) @ [?sp + 104]"
    using t1(2) unfolding arm32_view_def arm32_ctx_def cells by simp
  then have regs: "b_reg t1 LR = finish" "b_reg t1 SP32 = ?sp + 104" "fst (arm32_ctx (b_mem t) ?sp) = b_reg s (A 3)"
    using mem by (simp_all only: append1_eq_conv arm32_ctx_def fst_conv)
  have "unat ?bp mod 16 < 16" by simp
  then have "unat ?bp \<le> unat ?sp + 119" using b(1) assms(1) by linarith
  then show ?thesis
    using t1 regs s1(1) arm32_finish_exits by (intro exI [of _ t1]) (simp add: new_arm32_def)
qed

end
