(* ===== verification/Libcontext_Arm64.thy ===== *)
theory Libcontext_Arm64
  imports Context_Switch
begin

text \<open>
  The context switch of \<open>src/internal/libcontext.cpp\<close> for Linux on 64-bit ARM. A frame is 0xb0
  bytes: \<open>d8\<close> to \<open>d15\<close>, \<open>x19\<close> to \<open>x30\<close> and the address to continue at. The floating-point
  registers are always stored, whatever \<open>preserve_fpu\<close> says.
\<close>

unbundle bit_operations_syntax

section \<open>The machine\<close>

datatype areg = X nat | D nat | SP   \<comment> \<open>\<open>D n\<close> is the low half of a vector register\<close>

record arm64 =
  a_reg :: "areg \<Rightarrow> uint64"
  a_mem :: "uint64 \<Rightarrow> uint64"     \<comment> \<open>the quadword at an address that is a multiple of 8\<close>

datatype ainstr =
    ASub areg areg uint64         \<comment> \<open>\<open>sub a, b, #i\<close>\<close>
  | AAdd areg areg uint64
  | AAnd areg areg uint64
  | AMov areg areg                \<comment> \<open>\<open>mov a, b\<close>\<close>
  | AMovi areg uint64             \<comment> \<open>\<open>mov a, #i\<close>\<close>
  | AAdr areg uint64              \<comment> \<open>\<open>adr a, label\<close>\<close>
  | AStp areg areg areg uint64    \<comment> \<open>\<open>stp a, b, [c, #i]\<close>\<close>
  | ALdp areg areg areg uint64
  | AStr areg areg uint64         \<comment> \<open>\<open>str a, [c, #i]\<close>\<close>
  | ALdr areg areg uint64
  | ABl uint64 uint64             \<comment> \<open>\<open>bl\<close> of a function, with the address to return to\<close>
  | ARet areg                     \<comment> \<open>\<open>ret a\<close>\<close>

definition a_set :: "areg \<Rightarrow> uint64 \<Rightarrow> arm64 \<Rightarrow> arm64" where
  "a_set r v s = s\<lparr>a_reg := (a_reg s)(r := v)\<rparr>"

text \<open>A stack pointer that is used as a base has to be a multiple of 16.\<close>

definition base_ok :: "areg \<Rightarrow> arm64 \<Rightarrow> bool" where
  "base_ok c s \<longleftrightarrow> (c = SP \<longrightarrow> unat (a_reg s SP) mod 16 = 0)"

definition a_load :: "areg \<Rightarrow> uint64 \<Rightarrow> areg \<Rightarrow> arm64 \<Rightarrow> arm64 option" where
  "a_load c i r s =
     (let a = a_reg s c + i in if base_ok c s \<and> unat a mod 8 = 0 then Some (a_set r (a_mem s a) s) else None)"

definition a_store :: "areg \<Rightarrow> uint64 \<Rightarrow> areg \<Rightarrow> arm64 \<Rightarrow> arm64 option" where
  "a_store c i r s =
     (let a = a_reg s c + i in if base_ok c s \<and> unat a mod 8 = 0 then Some (s\<lparr>a_mem := (a_mem s)(a := a_reg s r)\<rparr>) else None)"

fun a_step :: "ainstr \<Rightarrow> arm64 \<Rightarrow> arm64 option" where
  "a_step (ASub a b i) s = Some (a_set a (a_reg s b - i) s)"
| "a_step (AAdd a b i) s = Some (a_set a (a_reg s b + i) s)"
| "a_step (AAnd a b i) s = Some (a_set a (a_reg s b AND i) s)"
| "a_step (AMov a b) s = Some (a_set a (a_reg s b) s)"
| "a_step (AMovi a i) s = Some (a_set a i s)"
| "a_step (AAdr a l) s = Some (a_set a l s)"
| "a_step (AStp a b c i) s = Option.bind (a_store c i a s) (a_store c (i + 8) b)"
| "a_step (ALdp a b c i) s = Option.bind (a_load c i a s) (a_load c (i + 8) b)"
| "a_step (AStr a c i) s = a_store c i a s"
| "a_step (ALdr a c i) s = a_load c i a s"
| "a_step (ABl f l) s = Some s"
| "a_step (ARet a) s = Some s"

fun a_exec :: "ainstr list \<Rightarrow> arm64 \<Rightarrow> (uint64 \<times> arm64) option" where
  "a_exec [] s = None"
| "a_exec (i # is) s =
     (case i of
        ABl f l \<Rightarrow> Some (f, a_set (X 30) l s)
      | ARet a \<Rightarrow> Some (a_reg s a, s)
      | _ \<Rightarrow> Option.bind (a_step i s) (a_exec is))"

section \<open>The functions\<close>

definition arm64_jump_fcontext :: "ainstr list" where
  "arm64_jump_fcontext =
     [ASub SP SP 0xb0,
      AStp (D 8) (D 9) SP 0x00, AStp (D 10) (D 11) SP 0x10, AStp (D 12) (D 13) SP 0x20, AStp (D 14) (D 15) SP 0x30,
      AStp (X 19) (X 20) SP 0x40, AStp (X 21) (X 22) SP 0x50, AStp (X 23) (X 24) SP 0x60,
      AStp (X 25) (X 26) SP 0x70, AStp (X 27) (X 28) SP 0x80, AStp (X 29) (X 30) SP 0x90,
      AStr (X 30) SP 0xa0,
      AMov (X 4) SP, AStr (X 4) (X 0) 0, AMov SP (X 1),
      ALdp (D 8) (D 9) SP 0x00, ALdp (D 10) (D 11) SP 0x10, ALdp (D 12) (D 13) SP 0x20, ALdp (D 14) (D 15) SP 0x30,
      ALdp (X 19) (X 20) SP 0x40, ALdp (X 21) (X 22) SP 0x50, ALdp (X 23) (X 24) SP 0x60,
      ALdp (X 25) (X 26) SP 0x70, ALdp (X 27) (X 28) SP 0x80, ALdp (X 29) (X 30) SP 0x90,
      AMov (X 0) (X 2), ALdr (X 4) SP 0xa0, AAdd SP SP 0xb0, ARet (X 4)]"

definition arm64_make_fcontext :: "uint64 \<Rightarrow> ainstr list" where
  "arm64_make_fcontext finish =
     [AAnd (X 0) (X 0) (NOT 0xF), ASub (X 0) (X 0) 0xb0, AStr (X 2) (X 0) 0xa0,
      AAdr (X 1) finish, AStr (X 1) (X 0) 0x98, ARet (X 30)]"

definition arm64_finish :: "uint64 \<Rightarrow> uint64 \<Rightarrow> ainstr list" where
  "arm64_finish exit ret = [AMovi (X 0) 0, ABl exit ret]"

section \<open>Symbolic execution\<close>

definition mka :: "(areg \<Rightarrow> uint64) \<Rightarrow> (uint64 \<Rightarrow> uint64) \<Rightarrow> arm64" where
  "mka r m = \<lparr>a_reg = r, a_mem = m\<rparr>"

lemma mka_surj: "s = mka (a_reg s) (a_mem s)"
  by (simp add: mka_def)

lemma unat_mod_8: "unat (d :: uint64) mod 8 = 0 \<Longrightarrow> unat (a + d) mod 8 = unat a mod 8"
  by (rule unat_add_mod) simp_all

lemma mod_16_8: "(n :: nat) mod 16 = 0 \<Longrightarrow> n mod 8 = 0"
  by presburger

named_theorems arm_simps "one instruction each"

lemma a_exec_simple [arm_simps]:
  "a_exec (ASub a b i # is) (mka r m) = a_exec is (mka (r(a := r b - i)) m)"
  "a_exec (AAdd a b i # is) (mka r m) = a_exec is (mka (r(a := r b + i)) m)"
  "a_exec (AAnd a b i # is) (mka r m) = a_exec is (mka (r(a := r b AND i)) m)"
  "a_exec (AMov a b # is) (mka r m) = a_exec is (mka (r(a := r b)) m)"
  "a_exec (AMovi a i # is) (mka r m) = a_exec is (mka (r(a := i)) m)"
  "a_exec (AAdr a i # is) (mka r m) = a_exec is (mka (r(a := i)) m)"
  "a_exec (ABl f l # is) (mka r m) = Some (f, mka (r(X 30 := l)) m)"
  "a_exec (ARet a # is) (mka r m) = Some (r a, mka r m)"
  by (simp_all add: mka_def a_set_def)

text \<open>Accesses through an aligned stack pointer, and through another aligned register.\<close>

lemma a_exec_sp [arm_simps]:
  assumes "unat (r SP) mod 16 = 0" "unat i mod 8 = 0"
  shows "a_exec (AStp a b SP i # is) (mka r m) = a_exec is (mka r (m(r SP + i := r a, r SP + i + 8 := r b)))"
    "a \<noteq> SP \<Longrightarrow> a_exec (ALdp a b SP i # is) (mka r m) = a_exec is (mka (r(a := m (r SP + i), b := m (r SP + i + 8))) m)"
    "a_exec (AStr a SP i # is) (mka r m) = a_exec is (mka r (m(r SP + i := r a)))"
    "a_exec (ALdr a SP i # is) (mka r m) = a_exec is (mka (r(a := m (r SP + i))) m)"
proof -
  have "unat (i + 8) mod 8 = 0" using unat_mod_8 [of 8 i] assms(2) by simp
  then have "unat (r SP + i) mod 8 = 0" "unat (r SP + (i + 8)) mod 8 = 0"
    using mod_16_8 [OF assms(1)] assms(2) by (simp_all only: unat_mod_8)
  then show "a_exec (AStp a b SP i # is) (mka r m) = a_exec is (mka r (m(r SP + i := r a, r SP + i + 8 := r b)))"
    "a \<noteq> SP \<Longrightarrow> a_exec (ALdp a b SP i # is) (mka r m) = a_exec is (mka (r(a := m (r SP + i), b := m (r SP + i + 8))) m)"
    "a_exec (AStr a SP i # is) (mka r m) = a_exec is (mka r (m(r SP + i := r a)))"
    "a_exec (ALdr a SP i # is) (mka r m) = a_exec is (mka (r(a := m (r SP + i))) m)"
    using assms by (simp_all add: mka_def a_set_def a_load_def a_store_def base_ok_def Let_def add.assoc)
qed

lemma a_exec_reg [arm_simps]:
  assumes "unat (r c) mod 8 = 0" "unat i mod 8 = 0" "c \<noteq> SP"
  shows "a_exec (AStr a c i # is) (mka r m) = a_exec is (mka r (m(r c + i := r a)))"
  using assms unat_mod_8 [of i "r c"] by (simp add: mka_def a_store_def base_ok_def Let_def)

text \<open>The registers of a frame in the order of their cells; the last one is where to continue.\<close>

definition fpu_regs :: "areg list" where
  "fpu_regs = [D 8, D 9, D 10, D 11, D 12, D 13, D 14, D 15]"

lemma length_fpu_regs [simp]: "length fpu_regs = 8"
  by (simp add: fpu_regs_def)

definition gen_regs :: "areg list" where
  "gen_regs = [X 19, X 20, X 21, X 22, X 23, X 24, X 25, X 26, X 27, X 28, X 29, X 30]"

lemma length_gen_regs [simp]: "length gen_regs = 12"
  by (simp add: gen_regs_def)

lemma set_arm64_regs: "set gen_regs = X ` {19..30}" "set fpu_regs = D ` {8..15}"
  by code_simp+

lemma a_exec_save:
  assumes "unat (r SP) mod 16 = 0"
  shows "a_exec (AStp (D 8) (D 9) SP 0x00 # AStp (D 10) (D 11) SP 0x10 # AStp (D 12) (D 13) SP 0x20 # AStp (D 14) (D 15) SP 0x30 #
      AStp (X 19) (X 20) SP 0x40 # AStp (X 21) (X 22) SP 0x50 # AStp (X 23) (X 24) SP 0x60 #
      AStp (X 25) (X 26) SP 0x70 # AStp (X 27) (X 28) SP 0x80 # AStp (X 29) (X 30) SP 0x90 #
      AStr (X 30) SP 0xa0 # is) (mka r m) =
    a_exec is (mka r (put_cells 8 (r SP) (map r (fpu_regs @ gen_regs @ [X 30])) m))"
  using assms by (simp add: a_exec_sp fpu_regs_def gen_regs_def add.assoc del: a_exec.simps)

definition load_frame :: "uint64 \<Rightarrow> (uint64 \<Rightarrow> uint64) \<Rightarrow> (areg \<Rightarrow> uint64) \<Rightarrow> areg \<Rightarrow> uint64" where
  "load_frame n m r = r(D 8 := m n, D 9 := m (n + 8), D 10 := m (n + 16), D 11 := m (n + 24),
     D 12 := m (n + 32), D 13 := m (n + 40), D 14 := m (n + 48), D 15 := m (n + 56),
     X 19 := m (n + 64), X 20 := m (n + 72), X 21 := m (n + 80), X 22 := m (n + 88), X 23 := m (n + 96),
     X 24 := m (n + 104), X 25 := m (n + 112), X 26 := m (n + 120), X 27 := m (n + 128), X 28 := m (n + 136),
     X 29 := m (n + 144), X 30 := m (n + 152))"

lemma a_exec_restore:
  assumes "unat (r SP) mod 16 = 0"
  shows "a_exec (ALdp (D 8) (D 9) SP 0x00 # ALdp (D 10) (D 11) SP 0x10 # ALdp (D 12) (D 13) SP 0x20 # ALdp (D 14) (D 15) SP 0x30 #
      ALdp (X 19) (X 20) SP 0x40 # ALdp (X 21) (X 22) SP 0x50 # ALdp (X 23) (X 24) SP 0x60 #
      ALdp (X 25) (X 26) SP 0x70 # ALdp (X 27) (X 28) SP 0x80 # ALdp (X 29) (X 30) SP 0x90 # is) (mka r m) =
    a_exec is (mka (load_frame (r SP) m r) m)"
  using assms by (simp add: a_exec_sp load_frame_def add.assoc del: a_exec.simps)

lemma load_frame_cells:
  "map (load_frame n m r) (fpu_regs @ gen_regs) = map m (cells 8 n 20)"
  by (simp add: load_frame_def fpu_regs_def gen_regs_def numeral_eq_Suc add.commute [of _ n] del: One_nat_def)

definition arm64_mem :: "(areg \<Rightarrow> uint64) \<Rightarrow> (uint64 \<Rightarrow> uint64) \<Rightarrow> uint64 \<Rightarrow> uint64" where
  "arm64_mem r m =
     (put_cells 8 (r SP - 176) (map r (fpu_regs @ gen_regs @ [X 30])) m)(r (X 0) := r SP - 176)"

lemma unat_mod_16_diff: "unat (d :: uint64) mod 16 = 0 \<Longrightarrow> unat (a - d) mod 16 = unat a mod 16"
  using unat_add_mod [of 16 d "a - d"] by simp

lemma load_frame_other [simp]:
  "load_frame n m r SP = r SP" "k < 19 \<Longrightarrow> load_frame n m r (X k) = r (X k)"
  by (simp_all add: load_frame_def)

lemma exec_arm64_jump_fcontext:
  fixes r :: "areg \<Rightarrow> uint64" and m :: "uint64 \<Rightarrow> uint64"
  assumes "unat (r SP) mod 16 = 0" "unat (r (X 0)) mod 8 = 0" "unat (r (X 1)) mod 16 = 0"
  defines "m' \<equiv> arm64_mem r m" and "n \<equiv> r (X 1)"
  shows "\<exists>r'. a_exec arm64_jump_fcontext (mka r m) = Some (m' (n + 160), mka r' m') \<and>
    map r' (fpu_regs @ gen_regs) = map m' (cells 8 n 20) \<and> r' SP = n + 176 \<and> r' (X 0) = r (X 2)"
proof -
  let ?r1 = "r(SP := r (X 1), X 4 := r SP - 176)"
  let ?r' = "(load_frame n m' ?r1)(X 0 := r (X 2), X 4 := m' (n + 160), SP := n + 176)"
  have sp: "unat (r SP - 176) mod 16 = 0" using assms(1) by (simp add: unat_mod_16_diff)
  have rs: "map (r(SP := r SP - 176)) (fpu_regs @ gen_regs @ [X 30]) = map r (fpu_regs @ gen_regs @ [X 30])"
    by (simp add: fpu_regs_def gen_regs_def)
  let ?r0 = "r(SP := r SP - 176)"
  have m': "(put_cells 8 (?r0 SP) (map ?r0 (fpu_regs @ gen_regs @ [X 30])) m)(r (X 0) := r SP - 176) = m'"
    by (simp only: rs m'_def arm64_mem_def fun_upd_same)
  have tail: "a_exec [AMov (X 0) (X 2), ALdr (X 4) SP 0xa0, AAdd SP SP 0xb0, ARet (X 4)] (mka q m') =
      Some (m' (q SP + 160), mka (q(X 0 := q (X 2), X 4 := m' (q SP + 160), SP := q SP + 176)) m')"
    if "unat (q SP) mod 16 = 0" for q
    using that by (simp add: a_exec_simple a_exec_sp del: a_exec.simps)
  have mid: "a_exec (AMov (X 4) SP # AStr (X 4) (X 0) 0 # AMov SP (X 1) # is) (mka ?r0 (put_cells 8 (?r0 SP) (map ?r0 (fpu_regs @ gen_regs @ [X 30])) m)) =
      a_exec is (mka ?r1 m')" for "is"
    using assms(2) by (simp add: a_exec_simple a_exec_reg m' [simplified] fun_upd_twist del: a_exec.simps)
  have "a_exec arm64_jump_fcontext (mka r m) = Some (m' (n + 160), mka ?r' m')"
    unfolding arm64_jump_fcontext_def a_exec_simple(1)
    apply (subst a_exec_save, simp add: sp)
    apply (subst mid)
    apply (subst a_exec_restore, simp add: assms(3) del: One_nat_def)
    apply (subst tail)
     apply (simp_all add: assms(3) n_def del: One_nat_def)
    done
  moreover have "map ?r' (fpu_regs @ gen_regs) = map m' (cells 8 n 20)"
    unfolding load_frame_cells [of n m' ?r1, symmetric] by (simp add: fpu_regs_def gen_regs_def)
  ultimately show ?thesis by (intro exI [of _ ?r']) simp
qed

section \<open>The laws of a context switch\<close>

definition arm64_frame :: "uint64 \<Rightarrow> uint64 set" where
  "arm64_frame sp = set (cells 8 sp 21)"

definition arm64_ctx :: "(uint64 \<Rightarrow> uint64) \<Rightarrow> uint64 \<Rightarrow> uint64 \<times> uint64 list" where
  "arm64_ctx f sp = (f (sp + 160), map f (cells 8 (sp + 64) 12) @ [sp + 176])"

definition arm64_fpu_ctx :: "(uint64 \<Rightarrow> uint64) \<Rightarrow> uint64 \<Rightarrow> uint64 list" where
  "arm64_fpu_ctx f sp = map f (cells 8 sp 8)"

definition arm64_ok :: "arm64 \<Rightarrow> bool" where
  "arm64_ok s \<longleftrightarrow> unat (a_reg s SP) mod 16 = 0 \<and> unat (a_reg s (X 0)) mod 8 = 0 \<and> unat (a_reg s (X 1)) mod 16 = 0"

definition arm64_own :: "arm64 \<Rightarrow> uint64" where
  "arm64_own s = a_reg s SP - 176"

definition arm64_view :: "arm64 \<Rightarrow> uint64 list" where
  "arm64_view s = map (a_reg s) gen_regs @ [a_reg s SP]"

definition arm64_resume :: "arm64 \<Rightarrow> uint64 \<times> uint64 list" where
  "arm64_resume s = (a_reg s (X 30), arm64_view s)"

lemma arm64_frame_explicit:
  "arm64_frame n = (+) n ` {0, 8, 16, 24, 32, 40, 48, 56, 64, 72, 80, 88, 96, 104, 112, 120, 128, 136, 144, 152, 160}"
  by (simp add: arm64_frame_def numeral_eq_Suc add.commute [of _ n] del: One_nat_def)

lemma frame_cells: "cells 8 (sp :: uint64) 21 = cells 8 sp 8 @ cells 8 (sp + 64) 12 @ [sp + 160]"
  using cells_append [of 8 sp 8 13] cells_snoc [of 8 "sp + 64" 12] by (simp del: cells.simps add: add.assoc)

lemma frame_cells_20: "cells 8 (sp :: uint64) 20 = cells 8 sp 8 @ cells 8 (sp + 64) 12"
  using cells_append [of 8 sp 8 12] by simp

lemma arm64_jumps:
  assumes "arm64_ok s"
  shows "\<exists>s'. a_exec arm64_jump_fcontext s = Some (fst (arm64_ctx (a_mem s') (a_reg s (X 1))), s') \<and>
    a_mem s' = arm64_mem (a_reg s) (a_mem s) \<and> arm64_view s' = snd (arm64_ctx (a_mem s') (a_reg s (X 1))) \<and>
    a_reg s' (X 0) = a_reg s (X 2) \<and> map (a_reg s') fpu_regs = arm64_fpu_ctx (a_mem s') (a_reg s (X 1))"
proof -
  let ?m' = "arm64_mem (a_reg s) (a_mem s)" and ?n = "a_reg s (X 1)"
  obtain r' where r': "a_exec arm64_jump_fcontext (mka (a_reg s) (a_mem s)) = Some (?m' (?n + 160), mka r' ?m')"
    "map r' (fpu_regs @ gen_regs) = map ?m' (cells 8 ?n 20)" "r' SP = ?n + 176" "r' (X 0) = a_reg s (X 2)"
    using exec_arm64_jump_fcontext [of "a_reg s" "a_mem s"] assms unfolding arm64_ok_def by auto
  have "map r' fpu_regs = arm64_fpu_ctx ?m' ?n" "map r' gen_regs = map ?m' (cells 8 (?n + 64) 12)"
    unfolding arm64_fpu_ctx_def by (rule map_append_split [OF r'(2) [unfolded frame_cells_20]], simp)+
  then show ?thesis using r'(1,3,4) [folded mka_surj]
    by (intro exI [of _ "mka r' ?m'"]) (simp add: mka_def arm64_ctx_def arm64_view_def)
qed

lemma arm64_mem_frame:
  assumes "r (X 0) \<notin> arm64_frame (r SP - 176)"
  shows "map (arm64_mem r m) (cells 8 (r SP - 176) 21) = map r (fpu_regs @ gen_regs @ [X 30])"
proof -
  let ?vs = "map r (fpu_regs @ gen_regs @ [X 30])" and ?sp = "r SP - 176"
  have len: "length ?vs = 21" by simp
  have "map (arm64_mem r m) (cells 8 ?sp 21) = map (put_cells 8 ?sp ?vs m) (cells 8 ?sp 21)"
    using assms by (auto simp: arm64_mem_def arm64_frame_def)
  also have "\<dots> = ?vs" using put_cells_get [of 8 ?sp ?vs m] distinct_cells [of 21 8 ?sp] unfolding len by simp
  finally show ?thesis .
qed

lemma arm64_mem_other: "a \<notin> arm64_frame (r SP - 176) \<Longrightarrow> a \<noteq> r (X 0) \<Longrightarrow> arm64_mem r m a = m a"
  using put_cells_other [of a 8 "r SP - 176" "map r (fpu_regs @ gen_regs @ [X 30])" m]
  by (simp add: arm64_mem_def arm64_frame_def)

lemma arm64_mem_ofc: "arm64_mem r m (r (X 0)) = r SP - 176"
  by (simp add: arm64_mem_def)

lemma arm64_saved:
  assumes "r (X 0) \<notin> arm64_frame (r SP - 176)"
  shows "arm64_ctx (arm64_mem r m) (r SP - 176) = (r (X 30), map r gen_regs @ [r SP])"
    "arm64_fpu_ctx (arm64_mem r m) (r SP - 176) = map r fpu_regs"
proof -
  note all = arm64_mem_frame [OF assms, of m, unfolded frame_cells]
  note rest = map_append_split(2) [OF all, simplified]
  show "arm64_fpu_ctx (arm64_mem r m) (r SP - 176) = map r fpu_regs"
    unfolding arm64_fpu_ctx_def using map_append_split(1) [OF all] by simp
  show "arm64_ctx (arm64_mem r m) (r SP - 176) = (r (X 30), map r gen_regs @ [r SP])"
    unfolding arm64_ctx_def using rest by simp
qed

lemma arm64_jump_mem:
  "arm64_ok s \<Longrightarrow> a_exec arm64_jump_fcontext s = Some (k, s') \<Longrightarrow> a_mem s' = arm64_mem (a_reg s) (a_mem s)"
  using arm64_jumps [of s] by auto

interpretation arm64: context_switch_fpu "a_exec arm64_jump_fcontext" a_mem arm64_ok arm64_own
  "\<lambda>s. a_reg s (X 0)" "\<lambda>s. a_reg s (X 1)" "\<lambda>s. a_reg s (X 2)" "\<lambda>s. a_reg s (X 0)" arm64_resume arm64_view arm64_ctx
  arm64_frame "\<lambda>_. {}" "\<lambda>_. True" "\<lambda>s. map (a_reg s) fpu_regs" arm64_fpu_ctx
proof (unfold_locales, goal_cases)
  case (1 s)
  then show ?case using arm64_jumps by blast
next
  case (2 s k s')
  then show ?case
    unfolding arm64_jump_mem [OF 2(1,4)] arm64_own_def
    by (simp add: arm64_saved(1) arm64_resume_def arm64_view_def arm64_mem_ofc)
next
  case (3 s k s' a)
  then show ?case by (simp add: arm64_jump_mem [OF 3(1,2)] arm64_mem_other arm64_own_def)
next
  case (4 sp f g)
  then show ?case by (auto simp: arm64_ctx_def arm64_frame_def frame_cells simp del: cells.simps)
next
  case (5 s k s')
  then show ?case using arm64_jumps by fastforce
next
  case (6 s k s')
  then show ?case
    unfolding arm64_jump_mem [OF 6(1,5)] arm64_own_def by (simp add: arm64_saved(2))
next
  case (7 sp f g)
  then show ?case by (auto simp: arm64_fpu_ctx_def arm64_frame_def frame_cells simp del: cells.simps)
qed

section \<open>New contexts\<close>

definition new_arm64 :: "uint64 \<Rightarrow> uint64" where
  "new_arm64 bp = (bp AND - 16) - 0xb0"

lemma new_arm64_bounds:
  assumes "unat bp \<ge> 192"
  shows "unat (new_arm64 bp) = unat bp - unat bp mod 16 - 176" "unat (new_arm64 bp) mod 16 = 0"
proof -
  have m: "unat bp mod 16 < 16" by simp
  have u: "unat (bp AND - 16) = unat bp - unat bp mod 16" by (rule unat_round_16)
  then have "(176::uint64) \<le> bp AND - 16" using m assms by (simp add: word_le_unat)
  then show e: "unat (new_arm64 bp) = unat bp - unat bp mod 16 - 176" by (simp add: new_arm64_def unat_minus_le u)
  have "unat (bp AND - 16) mod 16 = 0" unfolding u by presburger
  then show "unat (new_arm64 bp) mod 16 = 0" by (simp add: new_arm64_def unat_mod_16_diff)
qed

lemma arm64_makes:
  assumes "unat (a_reg s (X 0)) \<ge> 192"
  defines "sp \<equiv> new_arm64 (a_reg s (X 0))"
  shows "\<exists>s1. a_exec (arm64_make_fcontext finish) s = Some (a_reg s (X 30), s1) \<and> a_reg s1 (X 0) = sp \<and>
    a_mem s1 = (a_mem s)(sp + 160 := a_reg s (X 2), sp + 152 := finish)"
proof -
  have al: "unat sp mod 8 = 0" using new_arm64_bounds(2) [OF assms(1)] mod_16_8 by (simp add: sp_def)
  have sp: "(a_reg s (X 0) AND - 16) - 176 = sp" by (simp add: sp_def new_arm64_def)
  have "a_exec (arm64_make_fcontext finish) (mka (a_reg s) (a_mem s)) =
    Some (a_reg s (X 30), mka ((a_reg s)(X 0 := sp, X 1 := finish)) ((a_mem s)(sp + 160 := a_reg s (X 2), sp + 152 := finish)))"
    unfolding arm64_make_fcontext_def using al by (simp add: arm_simps sp del: a_exec.simps)
  then show ?thesis unfolding mka_surj [symmetric] by (simp add: mka_def)
qed

text \<open>A context function that returns ends the process: \<open>_exit\<close> is called with the argument 0.\<close>

lemma arm64_finish_exits: "\<exists>u'. a_exec (arm64_finish exit ret) u = Some (exit, u') \<and> a_reg u' (X 0) = 0"
  by (simp add: arm64_finish_def a_set_def)

section \<open>Properties\<close>

text \<open>C18. On 64-bit ARM a switch away and back restores the caller: the second jump continues at the
  link register of the first with \<open>x19\<close> to \<open>x30\<close>, the stack pointer and, without being asked,
  \<open>d8\<close> to \<open>d15\<close> as they were, and the second jump's argument as the result.\<close>

theorem arm64_jump_fcontext_round_trip:
  assumes "arm64_ok s" "a_reg s (X 0) \<notin> arm64_frame (a_reg s SP - 0xb0)" "a_exec arm64_jump_fcontext s = Some (k, s1)"
    and "unat (a_reg t SP) mod 16 = 0" "unat (a_reg t (X 0)) mod 8 = 0" "a_reg t (X 1) = a_mem s1 (a_reg s (X 0))"
    and "\<forall>a \<in> arm64_frame (a_reg s SP - 0xb0). a_mem t a = a_mem s1 a"
    and "insert (a_reg t (X 0)) (arm64_frame (a_reg t SP - 0xb0)) \<inter> arm64_frame (a_reg s SP - 0xb0) = {}"
  shows "\<exists>t1. a_exec arm64_jump_fcontext t = Some (a_reg s (X 30), t1) \<and> a_reg t1 (X 0) = a_reg t (X 2) \<and>
    a_reg t1 SP = a_reg s SP \<and> (\<forall>i \<in> {19..30}. a_reg t1 (X i) = a_reg s (X i)) \<and>
    (\<forall>i \<in> {8..15}. a_reg t1 (D i) = a_reg s (D i))"
proof -
  note own = arm64_own_def [of s, symmetric] arm64_own_def [of t, symmetric]
  note as = assms [unfolded own]
  have n: "a_reg t (X 1) = arm64_own s" using arm64.saves [OF as(1,2) _ as(3)] as(6) by simp
  have ok: "arm64_ok t" using as(1,4,5) n by (simp add: arm64_ok_def arm64_own_def unat_mod_16_diff)
  have ap: "arm64.apart t (arm64_own s)" using as(8) unfolding arm64.apart_def by auto
  obtain t1 where t1: "a_exec arm64_jump_fcontext t = Some (fst (arm64_resume s), t1)"
    "arm64_view t1 = snd (arm64_resume s)" "a_reg t1 (X 0) = a_reg t (X 2)"
    using arm64.round_trip [OF as(1,2) _ as(3) ok as(6,7) ap] by auto
  have fpu: "map (a_reg t1) fpu_regs = map (a_reg s) fpu_regs"
    using arm64.fpu_round_trip [OF as(1) _ as(2) _ as(3) ok _ as(6,7) ap t1(1)] by simp
  show ?thesis using t1 fpu
    by (intro exI [of _ t1]) (simp add: arm64_resume_def arm64_view_def set_arm64_regs)
qed

theorem arm64_jump_fcontext_round_trip_witness:
  "\<exists>t t1. a_exec arm64_jump_fcontext t = Some (42, t1) \<and> a_reg t1 (X 19) = 7 \<and> a_reg t1 (D 8) = 9 \<and>
    a_reg t1 SP = 0x1000 \<and> a_reg t1 (X 0) = 5"
proof -
  let ?s = "\<lparr>a_reg = (\<lambda>_. 0)(SP := 0x1000, X 0 := 0x8000, X 19 := 7, X 30 := 42, D 8 := 9), a_mem = (\<lambda>_. 0)\<rparr>"
  have ok: "arm64_ok ?s" "a_reg ?s (X 0) \<notin> arm64_frame (a_reg ?s SP - 0xb0)"
    by (simp_all add: arm64_ok_def arm64_frame_explicit)
  obtain k s1 where s1: "a_exec arm64_jump_fcontext ?s = Some (k, s1)" using arm64_jumps [OF ok(1)] by blast
  let ?t = "\<lparr>a_reg = (\<lambda>_. 0)(SP := 0x2000, X 0 := 0x8008, X 1 := a_mem s1 0x8000, X 2 := 5), a_mem = a_mem s1\<rparr>"
  have "\<exists>t1. a_exec arm64_jump_fcontext ?t = Some (a_reg ?s (X 30), t1) \<and> a_reg t1 (X 0) = a_reg ?t (X 2) \<and>
    a_reg t1 SP = a_reg ?s SP \<and> (\<forall>i \<in> {19..30}. a_reg t1 (X i) = a_reg ?s (X i)) \<and>
    (\<forall>i \<in> {8..15}. a_reg t1 (D i) = a_reg ?s (D i))"
    by (rule arm64_jump_fcontext_round_trip [OF ok s1])
      (simp_all add: arm64_frame_explicit)
  then obtain t1 where "a_exec arm64_jump_fcontext ?t = Some (42, t1)" "a_reg t1 (X 19) = 7" "a_reg t1 (D 8) = 9"
    "a_reg t1 SP = 0x1000" "a_reg t1 (X 0) = 5" by auto
  then show ?thesis by blast
qed

text \<open>A new context on 64-bit ARM starts its function as the calling convention wants: the first
  jump to what \<open>make_fcontext\<close> returned goes to \<open>fn\<close> with the argument of the jump in \<open>x0\<close>,
  the stack pointer at the greatest multiple of 16 below the given end of the stack and \<open>finish\<close>
  in the link register; the frame lies in the last 191 bytes of the stack. If the function
  returns, \<open>finish\<close> calls \<open>_exit(0)\<close>.\<close>

lemma arm64_make_fcontext_entry:
  assumes "unat (a_reg s (X 0)) \<ge> 192" "a_exec (arm64_make_fcontext finish) s = Some (k, s1)"
    and "unat (a_reg t SP) mod 16 = 0" "unat (a_reg t (X 0)) mod 8 = 0" "a_reg t (X 1) = a_reg s1 (X 0)"
    and "\<forall>a \<in> arm64_frame (a_reg s1 (X 0)). a_mem t a = a_mem s1 a"
    and "insert (a_reg t (X 0)) (arm64_frame (a_reg t SP - 0xb0)) \<inter> arm64_frame (a_reg s1 (X 0)) = {}"
  shows "\<exists>t1. a_exec arm64_jump_fcontext t = Some (a_reg s (X 2), t1) \<and> a_reg t1 (X 0) = a_reg t (X 2) \<and>
    a_reg t1 (X 30) = finish \<and> a_reg t1 SP = a_reg s (X 0) AND - 16 \<and> unat (a_reg t1 SP) mod 16 = 0 \<and>
    unat (a_reg t1 SP) \<le> unat (a_reg s (X 0)) \<and> unat (a_reg s (X 0)) \<le> unat (a_reg s1 (X 0)) + 191 \<and>
    (\<forall>u. \<exists>u'. a_exec (arm64_finish exit ret) u = Some (exit, u') \<and> a_reg u' (X 0) = 0)"
proof -
  let ?bp = "a_reg s (X 0)" and ?sp = "new_arm64 (a_reg s (X 0))"
  note b = new_arm64_bounds [OF assms(1)]
  have s1: "a_reg s1 (X 0) = ?sp" "a_mem s1 (?sp + 160) = a_reg s (X 2)" "a_mem s1 (?sp + 152) = finish"
    using arm64_makes [OF assms(1), of finish] assms(2) by auto
  have ok: "arm64_ok t" using assms(3-5) s1(1) b(2) unfolding arm64_ok_def by simp
  have "arm64.apart t (a_reg t (X 1))" using assms(5,7) unfolding arm64.apart_def arm64_own_def by auto
  from arm64.enters [OF ok this] obtain t1 where t1: "a_exec arm64_jump_fcontext t = Some (fst (arm64_ctx (a_mem t) ?sp), t1)"
    "arm64_view t1 = snd (arm64_ctx (a_mem t) ?sp)" "a_reg t1 (X 0) = a_reg t (X 2)"
    using assms(5) s1(1) by auto
  have "a_mem t (?sp + 160) = a_reg s (X 2)" "a_mem t (?sp + 152) = finish"
    using assms(6) s1 by (simp_all add: arm64_frame_explicit)
  note mem = this
  have cells: "cells 8 (?sp + 64) 12 = cells 8 (?sp + 64) 11 @ [?sp + 152]"
    using cells_snoc [of 8 "?sp + 64" 11] by (simp add: add.assoc del: cells.simps)
  have gen: "gen_regs = butlast gen_regs @ [X 30]" by (simp add: gen_regs_def)
  have "(map (a_reg t1) (butlast gen_regs) @ [a_reg t1 (X 30)]) @ [a_reg t1 SP] =
    map (a_reg t1) (butlast gen_regs @ [X 30]) @ [a_reg t1 SP]" by simp
  also have "\<dots> = (map (a_mem t) (cells 8 (?sp + 64) 11) @ [a_mem t (?sp + 152)]) @ [?sp + 176]"
    using t1(2) unfolding arm64_view_def arm64_ctx_def cells gen [symmetric] by simp
  finally have regs: "a_reg t1 (X 30) = finish" "a_reg t1 SP = ?sp + 176" "fst (arm64_ctx (a_mem t) ?sp) = a_reg s (X 2)"
    using mem by (simp_all only: append1_eq_conv arm64_ctx_def fst_conv)
  have top: "?sp + 176 = ?bp AND - 16" by (simp add: new_arm64_def)
  have u: "unat (?bp AND - 16) = unat ?bp - unat ?bp mod 16" by (rule unat_round_16)
  have "unat ?bp mod 16 < 16" by simp
  then have bounds: "unat ?bp \<le> unat ?sp + 191" using b(1) assms(1) by linarith
  have "unat (?bp AND - 16) mod 16 = 0" unfolding u by presburger
  then show ?thesis
    using t1 regs top u bounds s1(1) arm64_finish_exits by (intro exI [of _ t1]) simp
qed

end
