(* ===== verification/Libcontext_I386.thy ===== *)
theory Libcontext_I386
  imports Context_Switch
begin

text \<open>
  The context switch of \<open>src/internal/libcontext.cpp\<close> for i386 on Linux and on Apple systems, on a
  machine with a memory of doublewords. The arguments are on the stack: the switch reads them from
  there, and writes the third one into the stack of the context it continues, where a function
  that starts there finds its parameter.
\<close>

unbundle bit_operations_syntax

section \<open>The machine\<close>

datatype reg32 = EAX | EBX | ECX | EDX | ESI | EDI | EBP | ESP

record machine32 =
  n_reg :: "reg32 \<Rightarrow> uint32"
  n_mem :: "uint32 \<Rightarrow> uint32"     \<comment> \<open>the doubleword at an address that is a multiple of 4\<close>
  n_mxcsr :: uint32
  n_fcw :: uint16
  n_zf :: bool

datatype instr32 =
    Pushl reg32
  | Popl reg32
  | Leal int reg32 reg32     \<comment> \<open>\<open>leal d(a), b\<close>\<close>
  | Movl reg32 reg32
  | Loadl int reg32 reg32    \<comment> \<open>\<open>movl d(a), b\<close>\<close>
  | Storel reg32 int reg32   \<comment> \<open>\<open>movl a, d(b)\<close>\<close>
  | Testl reg32              \<comment> \<open>\<open>test a, a\<close>\<close>
  | Jel nat                  \<comment> \<open>\<open>je\<close> forward, over that many instructions\<close>
  | Stmxcsrl reg32           \<comment> \<open>\<open>stmxcsr (a)\<close>\<close>
  | Fnstcwl reg32            \<comment> \<open>\<open>fnstcw 0x4(a)\<close>\<close>
  | Ldmxcsrl reg32
  | Fldcwl reg32
  | Andl int reg32
  | Addl uint32 reg32
  | Xorl reg32               \<comment> \<open>\<open>xorl a, a\<close>\<close>
  | Loada uint32 reg32       \<comment> \<open>\<open>mov %fs:d, a\<close>, at the address with the base of the segment added\<close>
  | Movil uint32 reg32       \<comment> \<open>\<open>mov $i, a\<close>\<close>
  | Negl reg32
  | Leasum reg32 reg32 reg32 \<comment> \<open>\<open>lea (a,b,1), c\<close>\<close>
  | Incl reg32
  | Decl reg32
  | Xchgl reg32 reg32
  | Call_next uint32         \<comment> \<open>\<open>call\<close> of the next instruction, whose address is given\<close>
  | Calll uint32 uint32      \<comment> \<open>\<open>call\<close> of a function, with the address to return to\<close>
  | Jmpl reg32               \<comment> \<open>\<open>jmp *a\<close>\<close>
  | Retl

definition set_reg32 :: "reg32 \<Rightarrow> uint32 \<Rightarrow> machine32 \<Rightarrow> machine32" where
  "set_reg32 r v s = s\<lparr>n_reg := (n_reg s)(r := v)\<rparr>"

definition aligned4 :: "uint32 \<Rightarrow> bool" where
  "aligned4 a \<longleftrightarrow> unat a mod 4 = 0"

definition load32 :: "uint32 \<Rightarrow> machine32 \<Rightarrow> uint32 option" where
  "load32 a s = (if aligned4 a then Some (n_mem s a) else None)"

definition store32 :: "uint32 \<Rightarrow> uint32 \<Rightarrow> machine32 \<Rightarrow> machine32 option" where
  "store32 a v s = (if aligned4 a then Some (s\<lparr>n_mem := (n_mem s)(a := v)\<rparr>) else None)"

text \<open>The low half of a doubleword.\<close>

definition put_half :: "uint16 \<Rightarrow> uint32 \<Rightarrow> uint32" where
  "put_half v q = (q AND NOT (mask 16)) OR ucast v"

definition get_half :: "uint32 \<Rightarrow> uint16" where
  "get_half q = ucast q"

definition push32 :: "uint32 \<Rightarrow> machine32 \<Rightarrow> machine32 option" where
  "push32 v s = (let sp = n_reg s ESP - 4 in map_option (set_reg32 ESP sp) (store32 sp v s))"

fun step32 :: "instr32 \<Rightarrow> machine32 \<Rightarrow> machine32 option" where
  "step32 (Pushl r) s = push32 (n_reg s r) s"
| "step32 (Popl r) s =
     (let sp = n_reg s ESP in map_option (\<lambda>v. set_reg32 r v (set_reg32 ESP (sp + 4) s)) (load32 sp s))"
| "step32 (Leal d a b) s = Some (set_reg32 b (n_reg s a + of_int d) s)"
| "step32 (Movl a b) s = Some (set_reg32 b (n_reg s a) s)"
| "step32 (Loadl d a b) s = map_option (\<lambda>v. set_reg32 b v s) (load32 (n_reg s a + of_int d) s)"
| "step32 (Storel a d b) s = store32 (n_reg s b + of_int d) (n_reg s a) s"
| "step32 (Testl a) s = Some (s\<lparr>n_zf := (n_reg s a = 0)\<rparr>)"
| "step32 (Stmxcsrl a) s = store32 (n_reg s a) (n_mxcsr s) s"
| "step32 (Fnstcwl a) s =
     Option.bind (load32 (n_reg s a + 4) s) (\<lambda>q. store32 (n_reg s a + 4) (put_half (n_fcw s) q) s)"
| "step32 (Ldmxcsrl a) s = map_option (\<lambda>q. s\<lparr>n_mxcsr := q\<rparr>) (load32 (n_reg s a) s)"
| "step32 (Fldcwl a) s = map_option (\<lambda>q. s\<lparr>n_fcw := get_half q\<rparr>) (load32 (n_reg s a + 4) s)"
| "step32 (Andl i a) s =
     (let v = n_reg s a AND of_int i in Some ((set_reg32 a v s)\<lparr>n_zf := (v = 0)\<rparr>))"
| "step32 (Addl i a) s =
     (let v = n_reg s a + i in Some ((set_reg32 a v s)\<lparr>n_zf := (v = 0)\<rparr>))"
| "step32 (Xorl a) s = Some ((set_reg32 a 0 s)\<lparr>n_zf := True\<rparr>)"
| "step32 (Loada p a) s = map_option (\<lambda>v. set_reg32 a v s) (load32 p s)"
| "step32 (Movil i a) s = Some (set_reg32 a i s)"
| "step32 (Negl a) s = (let v = - n_reg s a in Some ((set_reg32 a v s)\<lparr>n_zf := (v = 0)\<rparr>))"
| "step32 (Leasum a b c) s = Some (set_reg32 c (n_reg s a + n_reg s b) s)"
| "step32 (Incl a) s = (let v = n_reg s a + 1 in Some ((set_reg32 a v s)\<lparr>n_zf := (v = 0)\<rparr>))"
| "step32 (Decl a) s = (let v = n_reg s a - 1 in Some ((set_reg32 a v s)\<lparr>n_zf := (v = 0)\<rparr>))"
| "step32 (Xchgl a b) s = Some (set_reg32 a (n_reg s b) (set_reg32 b (n_reg s a) s))"
| "step32 (Call_next l) s = push32 l s"
| "step32 (Jel n) s = Some s"
| "step32 (Calll f l) s = Some s"
| "step32 (Jmpl a) s = Some s"
| "step32 Retl s = Some s"

function exec32 :: "instr32 list \<Rightarrow> machine32 \<Rightarrow> (uint32 \<times> machine32) option" where
  "exec32 [] s = None"
| "exec32 (i # is) s =
     (case i of
        Jel n \<Rightarrow> exec32 (if n_zf s then drop n is else is) s
      | Jmpl a \<Rightarrow> Some (n_reg s a, s)
      | Calll f l \<Rightarrow> map_option (\<lambda>s. (f, s)) (push32 l s)
      | Retl \<Rightarrow> map_option (\<lambda>v. (v, set_reg32 ESP (n_reg s ESP + 4) s)) (load32 (n_reg s ESP) s)
      | _ \<Rightarrow> Option.bind (step32 i s) (exec32 is))"
  by pat_completeness auto

termination by (relation "measure (length \<circ> fst)") auto

section \<open>The functions\<close>

definition i386_jump_fcontext :: "instr32 list" where
  "i386_jump_fcontext =
     [Loadl 0x10 ESP ECX,
      Pushl EBP, Pushl EBX, Pushl ESI, Pushl EDI,
      Leal (-0x8) ESP ESP,
      Testl ECX, Jel 2, Stmxcsrl ESP, Fnstcwl ESP,
      Loadl 0x1c ESP EAX, Storel ESP 0 EAX, Loadl 0x20 ESP EDX, Loadl 0x24 ESP EAX, Movl EDX ESP,
      Testl ECX, Jel 2, Ldmxcsrl ESP, Fldcwl ESP,
      Leal 0x8 ESP ESP,
      Popl EDI, Popl ESI, Popl EBX, Popl EBP, Popl EDX,
      Storel EAX 0x4 ESP, Jmpl EDX]"

text \<open>\<open>here\<close> is the address of the label \<open>1\<close>, from which that of \<open>finish\<close> is computed.\<close>

definition i386_make_fcontext :: "uint32 \<Rightarrow> uint32 \<Rightarrow> instr32 list" where
  "i386_make_fcontext here finish =
     [Loadl 0x4 ESP EAX, Leal (-0x8) EAX EAX, Andl (-16) EAX, Leal (-0x20) EAX EAX,
      Loadl 0xc ESP EDX, Storel EDX 0x18 EAX, Stmxcsrl EAX, Fnstcwl EAX,
      Call_next here, Popl ECX, Addl (finish - here) ECX, Storel ECX 0x1c EAX, Retl]"

text \<open>What runs when the function of a context returns: \<open>got\<close> is the offset of the global offset
  table, \<open>exit\<close> the entry of \<open>_exit\<close> and \<open>hlt\<close> the instruction after the call.\<close>

definition i386_finish :: "uint32 \<Rightarrow> uint32 \<Rightarrow> uint32 \<Rightarrow> uint32 \<Rightarrow> instr32 list" where
  "i386_finish here got exit hlt =
     [Call_next here, Popl EBX, Addl got EBX, Xorl EAX, Storel EAX 0 ESP, Calll exit hlt]"

definition apple_i386_jump_fcontext :: "instr32 list" where
  "apple_i386_jump_fcontext =
     [Loadl 0x10 ESP ECX,
      Pushl EBP, Pushl EBX, Pushl ESI, Pushl EDI,
      Leal (-0x8) ESP ESP,
      Testl ECX, Jel 2, Stmxcsrl ESP, Fnstcwl ESP,
      Loadl 0x1c ESP EAX, Storel ESP 0 EAX, Loadl 0x20 ESP EDX, Loadl 0x24 ESP EAX, Movl EDX ESP,
      Testl ECX, Jel 2, Ldmxcsrl ESP, Fldcwl ESP,
      Leal 0x8 ESP ESP,
      Popl EDI, Popl ESI, Popl EBX, Popl EBP, Popl EDX,
      Storel EAX 0x4 ESP, Jmpl EDX]"

definition apple_i386_make_fcontext :: "uint32 \<Rightarrow> uint32 \<Rightarrow> instr32 list" where
  "apple_i386_make_fcontext here finish =
     [Loadl 0x4 ESP EAX, Leal (-0x8) EAX EAX, Andl (-16) EAX, Leal (-0x20) EAX EAX,
      Loadl 0xc ESP EDX, Storel EDX 0x18 EAX, Stmxcsrl EAX, Fnstcwl EAX,
      Call_next here, Popl ECX, Addl (finish - here) ECX, Storel ECX 0x1c EAX, Retl]"

definition apple_i386_finish :: "uint32 \<Rightarrow> uint32 \<Rightarrow> instr32 list" where
  "apple_i386_finish exit hlt = [Xorl EAX, Storel EAX 0 ESP, Calll exit hlt]"

section \<open>Symbolic execution\<close>

lemma aligned4_add: "aligned4 d \<Longrightarrow> aligned4 (a + d) \<longleftrightarrow> aligned4 a"
  using unat_add_mod [of 4 d a] by (simp add: aligned4_def)

lemma aligned4_diff: "aligned4 d \<Longrightarrow> aligned4 (a - d) \<longleftrightarrow> aligned4 a"
  using aligned4_add [of d "a - d"] by simp

lemma aligned4_numerals:
  "aligned4 4" "aligned4 8" "aligned4 12" "aligned4 16" "aligned4 20" "aligned4 24" "aligned4 28" "aligned4 32" "aligned4 36"
  by (simp_all add: aligned4_def)

lemmas aligned4_simps [simp] = aligned4_numerals
  aligned4_numerals [THEN aligned4_add] aligned4_numerals [THEN aligned4_diff]

definition mk32 :: "(reg32 \<Rightarrow> uint32) \<Rightarrow> (uint32 \<Rightarrow> uint32) \<Rightarrow> uint32 \<Rightarrow> uint16 \<Rightarrow> bool \<Rightarrow> machine32" where
  "mk32 r m x f z = \<lparr>n_reg = r, n_mem = m, n_mxcsr = x, n_fcw = f, n_zf = z\<rparr>"

lemma mk32_surj: "s = mk32 (n_reg s) (n_mem s) (n_mxcsr s) (n_fcw s) (n_zf s)"
  by (simp add: mk32_def)

named_theorems run32_simps "one instruction each"

lemma exec32_stack [run32_simps]:
  "aligned4 (r ESP) \<Longrightarrow> exec32 (Pushl a # is) (mk32 r m x f z) =
     exec32 is (mk32 (r(ESP := r ESP - 4)) (m(r ESP - 4 := r a)) x f z)"
  "aligned4 (r ESP) \<Longrightarrow> exec32 (Call_next l # is) (mk32 r m x f z) =
     exec32 is (mk32 (r(ESP := r ESP - 4)) (m(r ESP - 4 := l)) x f z)"
  "aligned4 (r ESP) \<Longrightarrow> exec32 (Popl a # is) (mk32 r m x f z) =
     exec32 is (mk32 (r(ESP := r ESP + 4, a := m (r ESP))) m x f z)"
  "aligned4 (r ESP) \<Longrightarrow> exec32 (Calll g l # is) (mk32 r m x f z) =
     Some (g, mk32 (r(ESP := r ESP - 4)) (m(r ESP - 4 := l)) x f z)"
  "aligned4 (r ESP) \<Longrightarrow> exec32 (Retl # is) (mk32 r m x f z) = Some (m (r ESP), mk32 (r(ESP := r ESP + 4)) m x f z)"
  by (simp_all add: mk32_def push32_def load32_def store32_def set_reg32_def Let_def)

lemma exec32_simple [run32_simps]:
  "exec32 (Leal d a b # is) (mk32 r m x f z) = exec32 is (mk32 (r(b := r a + of_int d)) m x f z)"
  "exec32 (Movl a b # is) (mk32 r m x f z) = exec32 is (mk32 (r(b := r a)) m x f z)"
  "exec32 (Testl a # is) (mk32 r m x f z) = exec32 is (mk32 r m x f (r a = 0))"
  "exec32 (Jel n # is) (mk32 r m x f z) = exec32 (if z then drop n is else is) (mk32 r m x f z)"
  "exec32 (Andl i a # is) (mk32 r m x f z) = exec32 is (mk32 (r(a := r a AND of_int i)) m x f (r a AND of_int i = 0))"
  "exec32 (Addl v a # is) (mk32 r m x f z) = exec32 is (mk32 (r(a := r a + v)) m x f (r a + v = 0))"
  "exec32 (Xorl a # is) (mk32 r m x f z) = exec32 is (mk32 (r(a := 0)) m x f True)"
  "exec32 (Jmpl a # is) (mk32 r m x f z) = Some (r a, mk32 r m x f z)"
  "exec32 (Movil v a # is) (mk32 r m x f z) = exec32 is (mk32 (r(a := v)) m x f z)"
  "exec32 (Negl a # is) (mk32 r m x f z) = exec32 is (mk32 (r(a := - r a)) m x f (r a = 0))"
  "exec32 (Leasum a b c # is) (mk32 r m x f z) = exec32 is (mk32 (r(c := r a + r b)) m x f z)"
  by (simp_all add: mk32_def set_reg32_def Let_def)

lemma exec32_mem [run32_simps]:
  "aligned4 (r a + of_int d) \<Longrightarrow> exec32 (Loadl d a b # is) (mk32 r m x f z) =
     exec32 is (mk32 (r(b := m (r a + of_int d))) m x f z)"
  "aligned4 (r b + of_int d) \<Longrightarrow> exec32 (Storel a d b # is) (mk32 r m x f z) =
     exec32 is (mk32 r (m(r b + of_int d := r a)) x f z)"
  "aligned4 (r b) \<Longrightarrow> exec32 (Stmxcsrl b # is) (mk32 r m x f z) = exec32 is (mk32 r (m(r b := x)) x f z)"
  "aligned4 (r b) \<Longrightarrow> exec32 (Fnstcwl b # is) (mk32 r m x f z) =
     exec32 is (mk32 r (m(r b + 4 := put_half f (m (r b + 4)))) x f z)"
  "aligned4 (r b) \<Longrightarrow> exec32 (Ldmxcsrl b # is) (mk32 r m x f z) = exec32 is (mk32 r m (m (r b)) f z)"
  "aligned4 (r b) \<Longrightarrow> exec32 (Fldcwl b # is) (mk32 r m x f z) = exec32 is (mk32 r m x (get_half (m (r b + 4))) z)"
  "aligned4 p \<Longrightarrow> exec32 (Loada p b # is) (mk32 r m x f z) = exec32 is (mk32 (r(b := m p)) m x f z)"
  by (simp_all add: mk32_def load32_def store32_def set_reg32_def)

lemma put_half_roundtrip [simp]: "get_half (put_half f q) = f"
  by (auto simp: get_half_def put_half_def bit_eq_iff bit_simps)

text \<open>The parts of the switch.\<close>

definition push_frame32 :: "(reg32 \<Rightarrow> uint32) \<Rightarrow> (uint32 \<Rightarrow> uint32) \<Rightarrow> uint32 \<Rightarrow> uint32" where
  "push_frame32 r m = m(r ESP - 4 := r EBP, r ESP - 8 := r EBX, r ESP - 12 := r ESI, r ESP - 16 := r EDI)"

definition push_fpu32 :: "uint32 \<Rightarrow> uint32 \<Rightarrow> uint32 \<Rightarrow> uint16 \<Rightarrow> (uint32 \<Rightarrow> uint32) \<Rightarrow> uint32 \<Rightarrow> uint32" where
  "push_fpu32 c sp x f m = (if c = 0 then m else m(sp := x, sp + 4 := put_half f (m (sp + 4))))"

definition pop_frame32 :: "uint32 \<Rightarrow> (uint32 \<Rightarrow> uint32) \<Rightarrow> (reg32 \<Rightarrow> uint32) \<Rightarrow> reg32 \<Rightarrow> uint32" where
  "pop_frame32 sp m r = r(EDI := m (sp + 8), ESI := m (sp + 12), EBX := m (sp + 16), EBP := m (sp + 20),
     EDX := m (sp + 24), ESP := sp + 28)"

lemma exec32_push_frame:
  "aligned4 (r ESP) \<Longrightarrow>
   exec32 (Pushl EBP # Pushl EBX # Pushl ESI # Pushl EDI # Leal (-0x8) ESP ESP # is) (mk32 r m x f z) =
   exec32 is (mk32 (r(ESP := r ESP - 24)) (push_frame32 r m) x f z)"
  by (simp add: run32_simps push_frame32_def del: exec32.simps)

lemma exec32_push_fpu:
  "aligned4 (r ESP) \<Longrightarrow>
   exec32 (Testl ECX # Jel 2 # Stmxcsrl ESP # Fnstcwl ESP # is) (mk32 r m x f z) =
   exec32 is (mk32 r (push_fpu32 (r ECX) (r ESP) x f m) x f (r ECX = 0))"
  by (simp add: run32_simps push_fpu32_def del: exec32.simps)

lemma exec32_pop_fpu:
  "aligned4 (r ESP) \<Longrightarrow>
   exec32 (Testl ECX # Jel 2 # Ldmxcsrl ESP # Fldcwl ESP # is) (mk32 r m x f z) =
   exec32 is (mk32 r m (if r ECX = 0 then x else m (r ESP)) (if r ECX = 0 then f else get_half (m (r ESP + 4))) (r ECX = 0))"
  by (simp add: run32_simps del: exec32.simps)

lemma exec32_pop_frame:
  "aligned4 (r ESP) \<Longrightarrow>
   exec32 (Leal 0x8 ESP ESP # Popl EDI # Popl ESI # Popl EBX # Popl EBP # Popl EDX # is) (mk32 r m x f z) =
   exec32 is (mk32 (pop_frame32 (r ESP) m r) m x f z)"
  by (simp add: run32_simps pop_frame32_def fun_upd_twist add.assoc del: exec32.simps)

text \<open>The memory when the caller's context is stored, and when the next one is entered.\<close>

definition saved_mem32 :: "(reg32 \<Rightarrow> uint32) \<Rightarrow> (uint32 \<Rightarrow> uint32) \<Rightarrow> uint32 \<Rightarrow> uint16 \<Rightarrow> uint32 \<Rightarrow> uint32" where
  "saved_mem32 r m x f = (push_fpu32 (m (r ESP + 16)) (r ESP - 24) x f (push_frame32 r m))(m (r ESP + 4) := r ESP - 24)"

definition jump_mem32 :: "(reg32 \<Rightarrow> uint32) \<Rightarrow> (uint32 \<Rightarrow> uint32) \<Rightarrow> uint32 \<Rightarrow> uint16 \<Rightarrow> uint32 \<Rightarrow> uint32" where
  "jump_mem32 r m x f = (saved_mem32 r m x f)(m (r ESP + 8) + 32 := m (r ESP + 12))"

lemma saved_arg32:
  "push_fpu32 c (r ESP - 24) x f (push_frame32 r m) (r ESP + 4) = m (r ESP + 4)"
  "m (r ESP + 4) \<noteq> r ESP + 8 \<Longrightarrow> saved_mem32 r m x f (r ESP + 8) = m (r ESP + 8)"
  "m (r ESP + 4) \<noteq> r ESP + 12 \<Longrightarrow> saved_mem32 r m x f (r ESP + 12) = m (r ESP + 12)"
  by (simp_all add: saved_mem32_def push_fpu32_def push_frame32_def)

lemma exec_i386_jump_fcontext:
  assumes "aligned4 (r ESP)" "aligned4 (m (r ESP + 4))" "aligned4 (m (r ESP + 8))"
    and "m (r ESP + 4) \<noteq> r ESP + 8" "m (r ESP + 4) \<noteq> r ESP + 12"
  shows "exec32 i386_jump_fcontext (mk32 r m x f z) =
    (let m0 = saved_mem32 r m x f; m' = jump_mem32 r m x f; n = m (r ESP + 8); c = m (r ESP + 16) in
     Some (m0 (n + 24), mk32 ((pop_frame32 n m0 r)(EAX := m (r ESP + 12), ECX := c)) m'
       (if c = 0 then x else m0 n) (if c = 0 then f else get_half (m0 (n + 4))) (c = 0)))"
proof -
  let ?m0 = "saved_mem32 r m x f"
  have st: "(push_fpu32 (m (r ESP + 16)) (r ESP - 24) x f (push_frame32 r m))(m (r ESP + 4) := r ESP - 24) = ?m0"
    by (simp add: saved_mem32_def)
  have pf: "push_frame32 (r(ECX := c)) m = push_frame32 r m" for c by (simp add: push_frame32_def)
  have comm: "numeral k + r ESP = r ESP + numeral k" "numeral k + m a = m a + numeral k" for k a by (rule add.commute)+
  show ?thesis
    unfolding i386_jump_fcontext_def using assms
    by (simp add: exec32_push_frame exec32_push_fpu exec32_pop_fpu exec32_pop_frame exec32_simple(2,8) exec32_mem(1,2)
      saved_arg32 pf st comm jump_mem32_def pop_frame32_def Let_def fun_upd_twist del: exec32.simps)
qed

lemma exec32_jump_machine:
  fixes s :: machine32
  defines "r \<equiv> n_reg s" and "m \<equiv> n_mem s"
  defines "m0 \<equiv> saved_mem32 r m (n_mxcsr s) (n_fcw s)" and "n \<equiv> m (r ESP + 8)"
  assumes "aligned4 (r ESP)" "aligned4 (m (r ESP + 4))" "aligned4 n"
    and "m (r ESP + 4) \<noteq> r ESP + 8" "m (r ESP + 4) \<noteq> r ESP + 12"
  shows "\<exists>s'. exec32 i386_jump_fcontext s = Some (m0 (n + 24), s') \<and> n_mem s' = m0(n + 32 := m (r ESP + 12)) \<and>
    n_reg s' = (pop_frame32 n m0 r)(EAX := m (r ESP + 12), ECX := m (r ESP + 16)) \<and>
    (m (r ESP + 16) \<noteq> 0 \<longrightarrow> n_mxcsr s' = m0 n \<and> n_fcw s' = get_half (m0 (n + 4)))"
proof -
  have "s = mk32 r m (n_mxcsr s) (n_fcw s) (n_zf s)" using mk32_surj by (simp add: r_def m_def)
  then have "exec32 i386_jump_fcontext s = exec32 i386_jump_fcontext (mk32 r m (n_mxcsr s) (n_fcw s) (n_zf s))" by simp
  also note exec_i386_jump_fcontext [where r = r and m = m, OF assms(5,6) assms(7) [unfolded n_def] assms(8,9)]
  finally show ?thesis using assms(7) by (simp add: Let_def mk32_def jump_mem32_def m0_def n_def)
qed

section \<open>The laws of a context switch\<close>

text \<open>The seven doublewords of a suspended context.\<close>

definition frame32 :: "uint32 \<Rightarrow> uint32 set" where
  "frame32 sp = {sp, sp + 4, sp + 8, sp + 12, sp + 16, sp + 20, sp + 24}"

lemma saved_mem32_other:
  "a \<notin> frame32 (r ESP - 24) \<Longrightarrow> a \<noteq> m (r ESP + 4) \<Longrightarrow> saved_mem32 r m x f a = m a"
  by (auto simp: saved_mem32_def push_fpu32_def push_frame32_def frame32_def)

lemma saved_mem32_frame:
  assumes "m (r ESP + 4) \<notin> frame32 (r ESP - 24)"
  shows "saved_mem32 r m x f (r ESP - 24 + 8) = r EDI" "saved_mem32 r m x f (r ESP - 24 + 12) = r ESI"
    "saved_mem32 r m x f (r ESP - 24 + 16) = r EBX" "saved_mem32 r m x f (r ESP - 24 + 20) = r EBP"
    "saved_mem32 r m x f (r ESP - 24 + 24) = m (r ESP)"
    "m (r ESP + 16) \<noteq> 0 \<Longrightarrow> saved_mem32 r m x f (r ESP - 24) = x"
    "m (r ESP + 16) \<noteq> 0 \<Longrightarrow> get_half (saved_mem32 r m x f (r ESP - 24 + 4)) = f"
    "saved_mem32 r m x f (m (r ESP + 4)) = r ESP - 24"
  using assms by (auto simp: saved_mem32_def push_fpu32_def push_frame32_def frame32_def)

definition i386_own :: "machine32 \<Rightarrow> uint32" where
  "i386_own s = n_reg s ESP - 24"

definition i386_ofc :: "machine32 \<Rightarrow> uint32" where
  "i386_ofc s = n_mem s (n_reg s ESP + 4)"

definition i386_nfc :: "machine32 \<Rightarrow> uint32" where
  "i386_nfc s = n_mem s (n_reg s ESP + 8)"

definition i386_vp :: "machine32 \<Rightarrow> uint32" where
  "i386_vp s = n_mem s (n_reg s ESP + 12)"

definition i386_preserve_fpu :: "machine32 \<Rightarrow> bool" where
  "i386_preserve_fpu s \<longleftrightarrow> n_mem s (n_reg s ESP + 16) \<noteq> 0"

text \<open>The stack and both frames are aligned, and the cell for the address is not one of the
  arguments that are read after it is written.\<close>

definition i386_ok :: "machine32 \<Rightarrow> bool" where
  "i386_ok s \<longleftrightarrow> aligned4 (n_reg s ESP) \<and> aligned4 (i386_ofc s) \<and> aligned4 (i386_nfc s) \<and>
     i386_ofc s \<notin> {n_reg s ESP + 8, n_reg s ESP + 12}"

definition i386_ctx :: "(uint32 \<Rightarrow> uint32) \<Rightarrow> uint32 \<Rightarrow> uint32 \<times> uint32 list" where
  "i386_ctx f sp = (f (sp + 24), [f (sp + 8), f (sp + 12), f (sp + 16), f (sp + 20), sp + 28])"

definition i386_view :: "machine32 \<Rightarrow> uint32 list" where
  "i386_view s = map (n_reg s) [EDI, ESI, EBX, EBP, ESP]"

definition i386_resume :: "machine32 \<Rightarrow> uint32 \<times> uint32 list" where
  "i386_resume s = (n_mem s (n_reg s ESP), map (n_reg s) [EDI, ESI, EBX, EBP] @ [n_reg s ESP + 4])"

text \<open>The parameter cell of a function that starts in the continued context.\<close>

definition i386_arrival :: "uint32 \<Rightarrow> uint32 set" where
  "i386_arrival sp = {sp + 32}"

definition fpu_words32 :: "(uint32 \<Rightarrow> uint32) \<Rightarrow> uint32 \<Rightarrow> uint32 \<times> uint16" where
  "fpu_words32 f sp = (f sp, get_half (f (sp + 4)))"

lemmas i386_defs = i386_own_def i386_ofc_def i386_nfc_def i386_vp_def i386_preserve_fpu_def i386_ok_def

lemma i386_jumps:
  assumes "i386_ok s"
  defines "m0 \<equiv> saved_mem32 (n_reg s) (n_mem s) (n_mxcsr s) (n_fcw s)" and "n \<equiv> i386_nfc s"
  shows "\<exists>s'. exec32 i386_jump_fcontext s = Some (m0 (n + 24), s') \<and> n_mem s' = m0(n + 32 := i386_vp s) \<and>
    n_reg s' = (pop_frame32 n m0 (n_reg s))(EAX := i386_vp s, ECX := n_mem s (n_reg s ESP + 16)) \<and>
    (i386_preserve_fpu s \<longrightarrow> n_mxcsr s' = m0 n \<and> n_fcw s' = get_half (m0 (n + 4)))"
  using exec32_jump_machine [of s] assms(1) unfolding m0_def n_def i386_defs by simp

lemma i386_jump_mem:
  "i386_ok s \<Longrightarrow> exec32 i386_jump_fcontext s = Some (k, s') \<Longrightarrow>
   n_mem s' = (saved_mem32 (n_reg s) (n_mem s) (n_mxcsr s) (n_fcw s))(i386_nfc s + 32 := i386_vp s)"
  using i386_jumps [of s] by auto

interpretation i386: context_switch_fpu "exec32 i386_jump_fcontext" n_mem i386_ok i386_own i386_ofc i386_nfc
  i386_vp "\<lambda>s. n_reg s EAX" i386_resume i386_view i386_ctx frame32 i386_arrival
  i386_preserve_fpu "\<lambda>s. (n_mxcsr s, n_fcw s)" fpu_words32
proof (unfold_locales, goal_cases)
  case (1 s)
  then show ?case using i386_jumps [of s] by (auto simp: i386_ctx_def i386_view_def pop_frame32_def)
next
  case (2 s k s')
  have "n_mem s (n_reg s ESP + 4) \<notin> frame32 (n_reg s ESP - 24)" using 2(2) by (simp add: i386_defs)
  note saved = saved_mem32_frame [where m = "n_mem s" and r = "n_reg s", OF this]
  have "i386_nfc s + 32 \<notin> frame32 (n_reg s ESP - 24)" "i386_nfc s + 32 \<noteq> i386_ofc s"
    using 2(3) by (auto simp: i386_arrival_def i386_own_def)
  then show ?case unfolding i386_jump_mem [OF 2(1,4)] i386_ctx_def i386_own_def i386_resume_def
    using saved by (auto simp: frame32_def i386_ofc_def)
next
  case (3 s k s' a)
  then show ?case by (simp add: i386_jump_mem [OF 3(1,2)] saved_mem32_other i386_arrival_def i386_own_def i386_ofc_def)
next
  case (4 sp f g)
  then show ?case by (simp add: i386_ctx_def frame32_def)
next
  case (5 s k s')
  then show ?case using i386_jumps [of s] by (auto simp: fpu_words32_def)
next
  case (6 s k s')
  have "n_mem s (n_reg s ESP + 4) \<notin> frame32 (n_reg s ESP - 24)" using 6(3) by (simp add: i386_defs)
  note saved = saved_mem32_frame(6,7) [where m = "n_mem s" and r = "n_reg s", OF this 6(2) [unfolded i386_preserve_fpu_def]]
  have "i386_nfc s + 32 \<notin> frame32 (n_reg s ESP - 24)"
    using 6(4) by (auto simp: i386_arrival_def i386_own_def)
  then show ?case unfolding i386_jump_mem [OF 6(1,5)] fpu_words32_def i386_own_def
    using saved by (auto simp: frame32_def)
next
  case (7 sp f g)
  then show ?case by (simp add: fpu_words32_def frame32_def)
qed

section \<open>New contexts\<close>

definition new_frame32 :: "uint32 \<Rightarrow> uint32" where
  "new_frame32 bp = ((bp - 8) AND - 16) - 32"

lemma new_frame32_bounds:
  assumes "unat bp \<ge> 56"
  shows "unat (new_frame32 bp) = unat bp - 8 - (unat bp - 8) mod 16 - 32" "aligned4 (new_frame32 bp)"
    "unat (new_frame32 bp) mod 16 = 0" "unat (new_frame32 bp) + 40 \<le> unat bp" "unat bp \<le> unat (new_frame32 bp) + 55"
proof -
  let ?n = "unat bp - 8"
  have m: "?n mod 16 < 16" by simp
  show e: "unat (new_frame32 bp) = ?n - ?n mod 16 - 32" using unat_frame [of 8 bp 32] assms by (simp add: new_frame32_def)
  obtain q where q: "?n = 16 * q + ?n mod 16" by (metis mult_div_mod_eq)
  then have "q \<ge> 2" using m assms by linarith
  moreover have "?n - ?n mod 16 = 16 * q" using q by linarith
  ultimately have "unat (new_frame32 bp) = 16 * (q - 2)" using e by simp
  then show "aligned4 (new_frame32 bp)" "unat (new_frame32 bp) mod 16 = 0" by (simp_all add: aligned4_def)
  show "unat (new_frame32 bp) + 40 \<le> unat bp" "unat bp \<le> unat (new_frame32 bp) + 55" using e m assms by linarith+
qed

lemma exec_i386_make_fcontext:
  assumes "aligned4 (r ESP)" "aligned4 (new_frame32 (m (r ESP + 4)))"
  defines "sp \<equiv> new_frame32 (m (r ESP + 4))"
  shows "exec32 (i386_make_fcontext here finish) (mk32 r m x f z) =
    (let m' = m(sp + 24 := m (r ESP + 12), sp := x, sp + 4 := put_half f (m (sp + 4)), r ESP - 4 := here, sp + 28 := finish) in
     Some (m' (r ESP), mk32 (r(EAX := sp, EDX := m (r ESP + 12), ECX := finish, ESP := r ESP + 4)) m' x f (finish = 0)))"
proof -
  have comm: "numeral k + r ESP = r ESP + numeral k" for k by (rule add.commute)
  have al: "aligned4 sp" using assms(2) by (simp add: sp_def)
  have sp: "(m (r ESP + 4) - 8 AND - 16) - 32 = sp" by (simp add: sp_def new_frame32_def)
  show ?thesis using assms(1) al
    by (simp add: i386_make_fcontext_def run32_simps Let_def sp comm fun_upd_twist del: exec32.simps)
qed

lemma i386_makes:
  assumes "aligned4 (n_reg s ESP)" "unat (n_mem s (n_reg s ESP + 4)) \<ge> 56"
  defines "sp \<equiv> new_frame32 (n_mem s (n_reg s ESP + 4))"
  shows "\<exists>s1. exec32 (i386_make_fcontext here finish) s = Some (n_mem s1 (n_reg s ESP), s1) \<and> n_reg s1 EAX = sp \<and>
    n_mem s1 = (n_mem s)(sp + 24 := n_mem s (n_reg s ESP + 12), sp := n_mxcsr s,
      sp + 4 := put_half (n_fcw s) (n_mem s (sp + 4)), n_reg s ESP - 4 := here, sp + 28 := finish)"
proof -
  have "exec32 (i386_make_fcontext here finish) s =
    exec32 (i386_make_fcontext here finish) (mk32 (n_reg s) (n_mem s) (n_mxcsr s) (n_fcw s) (n_zf s))"
    by (simp only: mk32_surj [symmetric])
  also note exec_i386_make_fcontext [where r = "n_reg s" and m = "n_mem s", OF assms(1) new_frame32_bounds(2) [OF assms(2)]]
  finally show ?thesis by (simp add: Let_def mk32_def sp_def)
qed

lemma exec_i386_finish:
  assumes "aligned4 (r ESP)"
  shows "exec32 (apple_i386_finish exit hlt) (mk32 r m x f z) =
      Some (exit, mk32 (r(EAX := 0, ESP := r ESP - 4)) (m(r ESP := 0, r ESP - 4 := hlt)) x f True)"
    and "exec32 (i386_finish here got exit hlt) (mk32 r m x f z) =
      Some (exit, mk32 (r(EBX := here + got, EAX := 0, ESP := r ESP - 4)) (m(r ESP := 0, r ESP - 4 := hlt)) x f True)"
  using assms
  by (simp_all add: i386_finish_def apple_i386_finish_def run32_simps fun_upd_twist del: exec32.simps)

text \<open>A context function that returns ends the process: \<open>_exit\<close> is called with the argument 0.\<close>

lemma i386_finish_exits:
  assumes "aligned4 (n_reg u ESP)"
  shows "\<exists>u'. exec32 (i386_finish here got exit hlt) u = Some (exit, u') \<and> n_mem u' (n_reg u' ESP + 4) = 0 \<and>
    n_reg u' ESP = n_reg u ESP - 4"
  using exec_i386_finish(2) [where r = "n_reg u" and m = "n_mem u" and x = "n_mxcsr u" and f = "n_fcw u" and z = "n_zf u", OF assms]
  unfolding mk32_surj [symmetric] by (simp add: mk32_def)

lemma apple_i386_finish_exits:
  assumes "aligned4 (n_reg u ESP)"
  shows "\<exists>u'. exec32 (apple_i386_finish exit hlt) u = Some (exit, u') \<and> n_mem u' (n_reg u' ESP + 4) = 0 \<and>
    n_reg u' ESP = n_reg u ESP - 4"
  using exec_i386_finish(1) [where r = "n_reg u" and m = "n_mem u" and x = "n_mxcsr u" and f = "n_fcw u" and z = "n_zf u", OF assms]
  unfolding mk32_surj [symmetric] by (simp add: mk32_def)

lemma apple_i386_same:
  "apple_i386_jump_fcontext = i386_jump_fcontext" "apple_i386_make_fcontext = i386_make_fcontext"
  by (simp_all add: apple_i386_jump_fcontext_def i386_jump_fcontext_def apple_i386_make_fcontext_def i386_make_fcontext_def fun_eq_iff)

section \<open>Properties\<close>

text \<open>On i386 a switch away and back restores the caller, as on x86-64: the second jump continues
  at the return address of the first with its callee-saved registers and stack pointer and the second
  jump's argument as the result, and with \<open>preserve_fpu\<close> the floating-point control words. On the
  way it overwrites one argument cell of the first call and nothing else of that stack.\<close>

lemma i386_jump_fcontext_round_trip:
  assumes "i386_ok s" "i386_ofc s \<notin> frame32 (i386_own s)" "i386_nfc s + 32 \<notin> insert (i386_ofc s) (frame32 (i386_own s))"
    and "exec32 i386_jump_fcontext s = Some (k, s1)"
    and "i386_ok t" "i386_nfc t = n_mem s1 (i386_ofc s)" "\<forall>a \<in> frame32 (i386_own s). n_mem t a = n_mem s1 a"
    and "frame32 (i386_own t) \<inter> frame32 (i386_own s) = {}" "i386_ofc t \<notin> frame32 (i386_own s)"
  shows "\<exists>t1. exec32 i386_jump_fcontext t = Some (n_mem s (n_reg s ESP), t1) \<and>
    (\<forall>r \<in> {EBX, ESI, EDI, EBP}. n_reg t1 r = n_reg s r) \<and> n_reg t1 ESP = n_reg s ESP + 4 \<and>
    n_reg t1 EAX = i386_vp t \<and>
    (i386_preserve_fpu s \<and> i386_preserve_fpu t \<longrightarrow> n_mxcsr t1 = n_mxcsr s \<and> n_fcw t1 = n_fcw s) \<and>
    (\<forall>a. a \<notin> frame32 (i386_own t) \<and> a \<noteq> i386_ofc t \<and> a \<noteq> n_reg s ESP + 8 \<longrightarrow> n_mem t1 a = n_mem t a)"
proof -
  have ar: "i386_arrival (i386_nfc s) \<inter> insert (i386_ofc s) (frame32 (i386_own s)) = {}"
    using assms(3) by (simp add: i386_arrival_def)
  have n: "i386_nfc t = i386_own s" using i386.saves [OF assms(1,2) ar assms(4)] assms(6) by simp
  then have ap: "i386.apart t (i386_own s)"
    using assms(8,9) by (auto simp: i386.apart_def i386_arrival_def frame32_def)
  obtain t1 where t1: "exec32 i386_jump_fcontext t = Some (fst (i386_resume s), t1)" "i386_view t1 = snd (i386_resume s)"
    "n_reg t1 EAX = i386_vp t"
    using i386.round_trip [OF assms(1,2) ar assms(4-7) ap] by auto
  have "n_mem t1 a = n_mem t a" if "a \<notin> frame32 (i386_own t)" "a \<noteq> i386_ofc t" "a \<noteq> n_reg s ESP + 8" for a
    using that n by (intro i386.keeps [OF assms(5) t1(1)]) (simp_all add: i386_arrival_def i386_own_def add.commute)
  with t1 show ?thesis
    using i386.fpu_round_trip [OF assms(1) _ assms(2) ar assms(4,5) _ assms(6,7) ap]
    by (intro exI [of _ t1]) (simp add: i386_resume_def i386_view_def)
qed

lemma i386_jump_fcontext_round_trip_witness:
  "\<exists>t t1. exec32 i386_jump_fcontext t = Some (42, t1) \<and> n_reg t1 EBX = 7 \<and> n_reg t1 ESP = 0x1004 \<and> n_reg t1 EAX = 5"
proof -
  let ?s = "\<lparr>n_reg = (\<lambda>_. 0)(ESP := 0x1000, EBX := 7), n_mem = (\<lambda>_. 0)(0x1000 := 42, 0x1004 := 0x8000, 0x1008 := 0x3000),
    n_mxcsr = 0, n_fcw = 0, n_zf = False\<rparr>"
  have ok: "i386_ok ?s" "i386_ofc ?s \<notin> frame32 (i386_own ?s)" "i386_nfc ?s + 32 \<notin> insert (i386_ofc ?s) (frame32 (i386_own ?s))"
    by (simp_all add: i386_defs aligned4_def frame32_def)
  obtain k s1 where s1: "exec32 i386_jump_fcontext ?s = Some (k, s1)" using i386_jumps [OF ok(1)] by blast
  have m: "n_mem s1 0x8000 = 0xFE8" "n_mem s1 0x2000 = 0"
    using i386_jump_mem [OF ok(1) s1] by (simp_all add: saved_mem32_def push_fpu32_def push_frame32_def i386_defs)
  let ?t = "\<lparr>n_reg = (\<lambda>_. 0)(ESP := 0x2000), n_mem = (n_mem s1)(0x2004 := 0x8004, 0x2008 := 0xFE8, 0x200C := 5),
    n_mxcsr = 0, n_fcw = 0, n_zf = False\<rparr>"
  have "\<exists>t1. exec32 i386_jump_fcontext ?t = Some (n_mem ?s (n_reg ?s ESP), t1) \<and>
    (\<forall>r \<in> {EBX, ESI, EDI, EBP}. n_reg t1 r = n_reg ?s r) \<and> n_reg t1 ESP = n_reg ?s ESP + 4 \<and>
    n_reg t1 EAX = i386_vp ?t \<and>
    (i386_preserve_fpu ?s \<and> i386_preserve_fpu ?t \<longrightarrow> n_mxcsr t1 = n_mxcsr ?s \<and> n_fcw t1 = n_fcw ?s) \<and>
    (\<forall>a. a \<notin> frame32 (i386_own ?t) \<and> a \<noteq> i386_ofc ?t \<and> a \<noteq> n_reg ?s ESP + 8 \<longrightarrow> n_mem t1 a = n_mem ?t a)"
    by (rule i386_jump_fcontext_round_trip [OF ok s1]) (simp_all add: i386_defs aligned4_def frame32_def m)
  then obtain t1 where "exec32 i386_jump_fcontext ?t = Some (42, t1)" "n_reg t1 EBX = 7" "n_reg t1 ESP = 0x1004" "n_reg t1 EAX = 5"
    by (auto simp: i386_vp_def)
  then show ?thesis by blast
qed

text \<open>A new context on i386 starts its function as the calling convention wants: the first jump to
  what \<open>make_fcontext\<close> returned goes to \<open>fn\<close> with the argument of the jump in the parameter
  cell above the return address, which is \<open>finish\<close>; the stack pointer is 12 above a multiple of
  16, and frame and parameter lie in the last 55 bytes of the stack. If the function returns,
  \<open>finish\<close> calls \<open>_exit(0)\<close>.\<close>

lemma i386_make_fcontext_entry:
  assumes "aligned4 (n_reg s ESP)" "unat (n_mem s (n_reg s ESP + 4)) \<ge> 56"
    and "exec32 (i386_make_fcontext here finish) s = Some (k, s1)"
    and "n_reg s ESP - 4 \<notin> insert (n_reg s1 EAX + 28) (frame32 (n_reg s1 EAX))"
    and "i386_ok t" "i386_nfc t = n_reg s1 EAX"
    and "\<forall>a \<in> insert (n_reg s1 EAX + 28) (frame32 (n_reg s1 EAX)). n_mem t a = n_mem s1 a"
    and "insert (i386_ofc t) (frame32 (i386_own t)) \<inter> insert (n_reg s1 EAX + 28) (frame32 (n_reg s1 EAX)) = {}"
  shows "\<exists>t1. exec32 i386_jump_fcontext t = Some (n_mem s (n_reg s ESP + 12), t1) \<and>
    n_mem t1 (n_reg t1 ESP + 4) = i386_vp t \<and> n_mem t1 (n_reg t1 ESP) = finish \<and> unat (n_reg t1 ESP) mod 16 = 12 \<and>
    unat (n_reg t1 ESP) + 8 \<le> unat (n_mem s (n_reg s ESP + 4)) \<and>
    unat (n_mem s (n_reg s ESP + 4)) \<le> unat (n_reg s1 EAX) + 55 \<and>
    (\<forall>u. n_reg u ESP = n_reg t1 ESP + 4 \<longrightarrow> (\<exists>u'. exec32 (i386_finish here' got exit hlt) u = Some (exit, u') \<and>
      n_mem u' (n_reg u' ESP + 4) = 0))"
proof -
  let ?bp = "n_mem s (n_reg s ESP + 4)" and ?m0 = "saved_mem32 (n_reg t) (n_mem t) (n_mxcsr t) (n_fcw t)"
  let ?sp = "new_frame32 ?bp" and ?fn = "n_mem s (n_reg s ESP + 12)"
  note b = new_frame32_bounds [OF assms(2)]
  have sp: "n_reg s1 EAX = ?sp" and m1: "n_mem s1 = (n_mem s)(?sp + 24 := ?fn, ?sp := n_mxcsr s,
      ?sp + 4 := put_half (n_fcw s) (n_mem s (?sp + 4)), n_reg s ESP - 4 := here, ?sp + 28 := finish)"
    using i386_makes [OF assms(1,2), of here finish] assms(3) by auto
  have made: "n_mem s1 (?sp + 24) = ?fn" "n_mem s1 (?sp + 28) = finish"
    using assms(4) unfolding m1 sp by (auto simp: frame32_def)
  have keep: "?m0 a = n_mem s1 a" if "a \<in> insert (?sp + 28) (frame32 ?sp)" for a
    using that assms(7,8) unfolding sp by (subst saved_mem32_other) (auto simp: i386_own_def i386_ofc_def)
  obtain t1 where t1: "exec32 i386_jump_fcontext t = Some (?m0 (?sp + 24), t1)" "n_mem t1 = ?m0(?sp + 32 := i386_vp t)"
    "n_reg t1 ESP = ?sp + 28"
    using i386_jumps [OF assms(5)] assms(6) sp by (auto simp: pop_frame32_def)
  have cells: "?m0 (?sp + 24) = ?fn" "?m0 (?sp + 28) = finish"
    using keep [of "?sp + 24"] keep [of "?sp + 28"] made by (simp_all add: frame32_def)
  have "unat ?bp < 2 ^ 32" using unsigned_less [of ?bp] by simp
  then have u: "unat (?sp + 28) = unat ?sp + 28" using b(4) by (subst unat_plus_lt) simp_all
  have e: "unat (n_reg t1 ESP) mod 16 = 12" "unat (n_reg t1 ESP) + 8 \<le> unat ?bp" "unat ?bp \<le> unat (n_reg s1 EAX) + 55"
    using t1(3) u b(3-5) sp by (simp_all, presburger)
  have fin: "\<exists>u'. exec32 (i386_finish here' got exit hlt) u = Some (exit, u') \<and> n_mem u' (n_reg u' ESP + 4) = 0"
    if "n_reg u ESP = n_reg t1 ESP + 4" for u
  proof -
    have "aligned4 (n_reg u ESP)" using that t1(3) b(2) by (simp add: add.assoc)
    from i386_finish_exits [OF this] show ?thesis by blast
  qed
  have "exec32 i386_jump_fcontext t = Some (?fn, t1)" "n_mem t1 (n_reg t1 ESP + 4) = i386_vp t" "n_mem t1 (n_reg t1 ESP) = finish"
    using t1 cells by (simp_all add: add.assoc)
  with e fin show ?thesis by blast
qed

lemma i386_make_fcontext_entry_witness:
  "\<exists>t t1. exec32 i386_jump_fcontext t = Some (77, t1) \<and> n_mem t1 (n_reg t1 ESP + 4) = 5 \<and> n_mem t1 (n_reg t1 ESP) = 99"
proof -
  let ?s = "\<lparr>n_reg = (\<lambda>_. 0)(ESP := 0x2000), n_mem = (\<lambda>_. 0)(0x2004 := 0x1003, 0x200C := 77),
    n_mxcsr = 0, n_fcw = 0, n_zf = False\<rparr>"
  have al: "aligned4 (n_reg ?s ESP)" "unat (n_mem ?s (n_reg ?s ESP + 4)) \<ge> 56" by (simp_all add: aligned4_def)
  obtain k s1 where s1: "exec32 (i386_make_fcontext 11 99) ?s = Some (k, s1)" "n_reg s1 EAX = 0xFD0"
    and m1: "n_mem s1 0x4004 = 0" "n_mem s1 0x4008 = 0"
    using i386_makes [OF al, of 11 99] by (auto simp: new_frame32_def)
  let ?t = "\<lparr>n_reg = (\<lambda>_. 0)(ESP := 0x4000), n_mem = (n_mem s1)(0x4004 := 0x8004, 0x4008 := 0xFD0, 0x400C := 5),
    n_mxcsr = 0, n_fcw = 0, n_zf = False\<rparr>"
  have "\<exists>t1. exec32 i386_jump_fcontext ?t = Some (n_mem ?s (n_reg ?s ESP + 12), t1) \<and>
    n_mem t1 (n_reg t1 ESP + 4) = i386_vp ?t \<and> n_mem t1 (n_reg t1 ESP) = 99 \<and> unat (n_reg t1 ESP) mod 16 = 12 \<and>
    unat (n_reg t1 ESP) + 8 \<le> unat (n_mem ?s (n_reg ?s ESP + 4)) \<and>
    unat (n_mem ?s (n_reg ?s ESP + 4)) \<le> unat (n_reg s1 EAX) + 55 \<and>
    (\<forall>u. n_reg u ESP = n_reg t1 ESP + 4 \<longrightarrow> (\<exists>u'. exec32 (i386_finish 1 2 3 4) u = Some (3, u') \<and>
      n_mem u' (n_reg u' ESP + 4) = 0))"
    by (rule i386_make_fcontext_entry [OF al s1(1)]) (simp_all add: i386_defs aligned4_def frame32_def s1(2))
  then obtain t1 where "exec32 i386_jump_fcontext ?t = Some (77, t1)" "n_mem t1 (n_reg t1 ESP + 4) = 5" "n_mem t1 (n_reg t1 ESP) = 99"
    by (auto simp: i386_vp_def)
  then show ?thesis by blast
qed

end
