(* ===== verification/Libcontext_Win32.thy ===== *)
theory Libcontext_Win32
  imports Libcontext_I386
begin

text \<open>
  The context switch of \<open>src/internal/libcontext.cpp\<close> for Windows on i386, on the machine of
  \<open>Libcontext_I386\<close>. Beside the registers a context has the fields of the thread environment
  block that describe the stack: the list of exception handlers, the two bounds of the stack, the
  address of its allocation and the fiber data. The block is at the base of the segment \<open>fs\<close> and
  has its own address at offset 0x18.
\<close>

unbundle bit_operations_syntax

section \<open>The functions\<close>

definition win32_jump_fcontext :: "uint32 \<Rightarrow> instr32 list" where
  "win32_jump_fcontext fs =
     [Loadl 0x10 ESP ECX,
      Pushl EBP, Pushl EBX, Pushl ESI, Pushl EDI,
      Loada (fs + 0x18) EDX,
      Loadl 0 EDX EAX, Pushl EAX, Loadl 0x4 EDX EAX, Pushl EAX, Loadl 0x8 EDX EAX, Pushl EAX,
      Loadl 0xe0c EDX EAX, Pushl EAX, Loadl 0x10 EDX EAX, Pushl EAX,
      Leal (-0x8) ESP ESP,
      Testl ECX, Jel 2, Stmxcsrl ESP, Fnstcwl ESP,
      Loadl 0x30 ESP EAX, Storel ESP 0 EAX, Loadl 0x34 ESP EDX, Loadl 0x38 ESP EAX, Movl EDX ESP,
      Testl ECX, Jel 2, Ldmxcsrl ESP, Fldcwl ESP,
      Leal 0x8 ESP ESP,
      Loada (fs + 0x18) EDX,
      Popl ECX, Storel ECX 0x10 EDX, Popl ECX, Storel ECX 0xe0c EDX, Popl ECX, Storel ECX 0x8 EDX,
      Popl ECX, Storel ECX 0x4 EDX, Popl ECX, Storel ECX 0 EDX,
      Popl EDI, Popl ESI, Popl EBX, Popl EBP, Popl EDX,
      Storel EAX 0x4 ESP, Jmpl EDX]"

text \<open>
  \<open>make_fcontext\<close> in three parts: up to the label \<open>walk\<close>, the loop there, and from the label
  \<open>found\<close>. The loop goes along the list of exception handlers, which may never end.
\<close>

definition win32_make_start :: "uint32 \<Rightarrow> uint32 \<Rightarrow> instr32 list" where
  "win32_make_start fs finish =
     [Loadl 0x4 ESP EAX, Leal (-0x8) EAX EAX, Andl 0xfffffff0 EAX, Leal (-0x3c) EAX EAX,
      Loadl 0x4 ESP ECX, Storel ECX 0x14 EAX, Loadl 0x8 ESP EDX, Negl EDX, Leasum ECX EDX ECX,
      Storel ECX 0x10 EAX, Storel ECX 0xc EAX, Loadl 0xc ESP ECX, Storel ECX 0x2c EAX,
      Stmxcsrl EAX, Fnstcwl EAX, Movil finish ECX, Storel ECX 0x30 EAX, Loada fs ECX]"

fun steps32 :: "instr32 list \<Rightarrow> machine32 \<Rightarrow> machine32 option" where
  "steps32 [] s = Some s"
| "steps32 (i # is) s = Option.bind (step32 i s) (steps32 is)"

partial_function (option) win32_walk :: "machine32 \<Rightarrow> machine32 option" where
  "win32_walk s =
     Option.bind (steps32 [Loadl 0 ECX EDX, Incl EDX] s) (\<lambda>s1.
       if n_zf s1 then Some s1 else Option.bind (steps32 [Decl EDX, Xchgl EDX ECX] s1) win32_walk)"

definition win32_make_found :: "instr32 list" where
  "win32_make_found =
     [Loadl 0x4 ECX ECX, Storel ECX 0x3c EAX, Movil 0xffffffff ECX, Storel ECX 0x38 EAX,
      Leal 0x38 EAX ECX, Storel ECX 0x18 EAX, Retl]"

definition win32_make_fcontext :: "uint32 \<Rightarrow> uint32 \<Rightarrow> machine32 \<Rightarrow> (uint32 \<times> machine32) option" where
  "win32_make_fcontext fs finish s =
     Option.bind (steps32 (win32_make_start fs finish) s) (\<lambda>s1.
       Option.bind (win32_walk s1) (exec32 win32_make_found))"

definition win32_finish :: "uint32 \<Rightarrow> uint32 \<Rightarrow> instr32 list" where
  "win32_finish exit hlt = [Xorl EAX, Storel EAX 0 ESP, Calll exit hlt]"

section \<open>The switch\<close>

text \<open>The fields of the block, and the twelve doublewords of a suspended context.\<close>

definition teb_fields :: "uint32 \<Rightarrow> uint32 set" where
  "teb_fields fs = {fs, fs + 4, fs + 8, fs + 0x10, fs + 0xe0c}"

definition win32_frame :: "uint32 \<Rightarrow> uint32 set" where
  "win32_frame sp = {sp, sp + 4, sp + 8, sp + 12, sp + 16, sp + 20, sp + 24, sp + 28, sp + 32, sp + 36, sp + 40, sp + 44}"

lemma aligned4_win32:
  "aligned4 0xe0c" "aligned4 40" "aligned4 44" "aligned4 48" "aligned4 52" "aligned4 56" "aligned4 60"
  by (simp_all add: aligned4_def)

lemmas win32_aligned [simp] = aligned4_win32 [THEN aligned4_add] aligned4_win32 [THEN aligned4_diff]

definition push_teb :: "uint32 \<Rightarrow> uint32 \<Rightarrow> (uint32 \<Rightarrow> uint32) \<Rightarrow> uint32 \<Rightarrow> uint32" where
  "push_teb fs sp m = m(sp - 4 := m fs, sp - 8 := m (fs + 4), sp - 12 := m (fs + 8),
     sp - 16 := m (fs + 0xe0c), sp - 20 := m (fs + 0x10))"

lemma exec32_push_teb:
  assumes "aligned4 (r ESP)" "aligned4 fs" "m (fs + 0x18) = fs"
    and "{r ESP - 4, r ESP - 8, r ESP - 12, r ESP - 16, r ESP - 20} \<inter> insert (fs + 0x18) (teb_fields fs) = {}"
  shows "exec32 (Loada (fs + 0x18) EDX # Loadl 0 EDX EAX # Pushl EAX # Loadl 0x4 EDX EAX # Pushl EAX # Loadl 0x8 EDX EAX # Pushl EAX #
      Loadl 0xe0c EDX EAX # Pushl EAX # Loadl 0x10 EDX EAX # Pushl EAX # is) (mk32 r m x f z) =
    exec32 is (mk32 (r(EDX := fs, EAX := m (fs + 0x10), ESP := r ESP - 20)) (push_teb fs (r ESP) m) x f z)"
proof -
  have comm: "numeral k + fs = fs + numeral k" "numeral k + r ESP = r ESP + numeral k" for k by (rule add.commute)+
  show ?thesis using assms unfolding teb_fields_def
    by (simp add: run32_simps push_teb_def comm fun_upd_twist del: exec32.simps)
qed

definition pop_teb :: "uint32 \<Rightarrow> uint32 \<Rightarrow> (uint32 \<Rightarrow> uint32) \<Rightarrow> uint32 \<Rightarrow> uint32" where
  "pop_teb fs p m = m(fs + 0x10 := m p, fs + 0xe0c := m (p + 4), fs + 8 := m (p + 8), fs + 4 := m (p + 12), fs := m (p + 16))"

lemma exec32_pop_teb:
  assumes "aligned4 (r ESP)" "aligned4 fs" "m (fs + 0x18) = fs"
    and "teb_fields fs \<inter> {r ESP, r ESP + 4, r ESP + 8, r ESP + 12, r ESP + 16} = {}"
  shows "exec32 (Loada (fs + 0x18) EDX # Popl ECX # Storel ECX 0x10 EDX # Popl ECX # Storel ECX 0xe0c EDX # Popl ECX # Storel ECX 0x8 EDX #
      Popl ECX # Storel ECX 0x4 EDX # Popl ECX # Storel ECX 0 EDX # is) (mk32 r m x f z) =
    exec32 is (mk32 (r(EDX := fs, ECX := m (r ESP + 16), ESP := r ESP + 20)) (pop_teb fs (r ESP) m) x f z)"
proof -
  have comm: "numeral k + fs = fs + numeral k" "numeral k + r ESP = r ESP + numeral k" for k by (rule add.commute)+
  show ?thesis using assms unfolding teb_fields_def
    by (simp add: run32_simps pop_teb_def comm fun_upd_twist add.assoc del: exec32.simps)
qed

lemma exec32_push4:
  "aligned4 (r ESP) \<Longrightarrow>
   exec32 (Pushl EBP # Pushl EBX # Pushl ESI # Pushl EDI # is) (mk32 r m x f z) =
   exec32 is (mk32 (r(ESP := r ESP - 16)) (push_frame32 r m) x f z)"
  by (simp add: run32_simps push_frame32_def del: exec32.simps)

lemma exec32_pop5:
  "aligned4 (r ESP) \<Longrightarrow>
   exec32 (Popl EDI # Popl ESI # Popl EBX # Popl EBP # Popl EDX # is) (mk32 r m x f z) =
   exec32 is (mk32 (r(EDI := m (r ESP), ESI := m (r ESP + 4), EBX := m (r ESP + 8), EBP := m (r ESP + 12),
     EDX := m (r ESP + 16), ESP := r ESP + 20)) m x f z)"
  by (simp add: run32_simps fun_upd_twist add.assoc del: exec32.simps)

text \<open>The memory when the caller's context is stored.\<close>

definition win32_saved :: "uint32 \<Rightarrow> (reg32 \<Rightarrow> uint32) \<Rightarrow> (uint32 \<Rightarrow> uint32) \<Rightarrow> uint32 \<Rightarrow> uint16 \<Rightarrow> uint32 \<Rightarrow> uint32" where
  "win32_saved fs r m x f =
     (push_fpu32 (m (r ESP + 16)) (r ESP - 44) x f (push_teb fs (r ESP - 16) (push_frame32 r m)))(m (r ESP + 4) := r ESP - 44)"

lemma win32_frame_own:
  "win32_frame (e - 44) = {e - 44, e - 40, e - 36, e - 32, e - 28, e - 24, e - 20, e - 16, e - 12, e - 8, e - 4, e}"
  by (simp add: win32_frame_def)

lemma win32_saved_other:
  "a \<notin> win32_frame (r ESP - 44) \<Longrightarrow> a \<noteq> m (r ESP + 4) \<Longrightarrow> win32_saved fs r m x f a = m a"
  by (simp add: win32_saved_def push_fpu32_def push_teb_def push_frame32_def win32_frame_own)

lemma win32_saved_frame:
  assumes "m (r ESP + 4) \<notin> win32_frame (r ESP - 44)" "teb_fields fs \<inter> win32_frame (r ESP - 44) = {}"
  shows "map (win32_saved fs r m x f) [r ESP - 16, r ESP - 12, r ESP - 8, r ESP - 4, r ESP] = [r EDI, r ESI, r EBX, r EBP, m (r ESP)]"
    "map (win32_saved fs r m x f) [r ESP - 20, r ESP - 24, r ESP - 28, r ESP - 32, r ESP - 36] =
     map m [fs, fs + 4, fs + 8, fs + 0xe0c, fs + 0x10]"
    "m (r ESP + 16) \<noteq> 0 \<Longrightarrow> win32_saved fs r m x f (r ESP - 44) = x"
    "m (r ESP + 16) \<noteq> 0 \<Longrightarrow> get_half (win32_saved fs r m x f (r ESP - 40)) = f"
    "win32_saved fs r m x f (m (r ESP + 4)) = r ESP - 44"
proof -
  let ?p = "push_frame32 r m" and ?s = "win32_saved fs r m x f"
  have ofc: "?s (r ESP - k) = push_fpu32 (m (r ESP + 16)) (r ESP - 44) x f (push_teb fs (r ESP - 16) ?p) (r ESP - k)"
    if "r ESP - k \<in> win32_frame (r ESP - 44)" for k
    using that assms(1) by (auto simp: win32_saved_def)
  note ofcs = ofc [unfolded win32_frame_own]
  show "map ?s [r ESP - 16, r ESP - 12, r ESP - 8, r ESP - 4, r ESP] = [r EDI, r ESI, r EBX, r EBP, m (r ESP)]"
    using ofcs [of 0] by (simp add: ofcs push_fpu32_def push_teb_def push_frame32_def)
  have "?p a = m a" if "a \<in> teb_fields fs" for a
    using that assms(2) unfolding win32_frame_own by (auto simp: push_frame32_def)
  then have teb: "?p fs = m fs" "?p (fs + 4) = m (fs + 4)" "?p (fs + 8) = m (fs + 8)" "?p (fs + 0xe0c) = m (fs + 0xe0c)"
      "?p (fs + 0x10) = m (fs + 0x10)" by (simp_all add: teb_fields_def)
  show "map ?s [r ESP - 20, r ESP - 24, r ESP - 28, r ESP - 32, r ESP - 36] = map m [fs, fs + 4, fs + 8, fs + 0xe0c, fs + 0x10]"
    by (simp add: ofcs push_fpu32_def push_teb_def teb)
  show "?s (r ESP - 44) = x" "get_half (?s (r ESP - 40)) = f" if "m (r ESP + 16) \<noteq> 0"
    using that by (simp_all add: ofcs push_fpu32_def)
  show "?s (m (r ESP + 4)) = r ESP - 44" by (simp add: win32_saved_def)
qed

lemma win32_saved_arg:
  "push_fpu32 c (r ESP - 44) x f (push_teb fs (r ESP - 16) (push_frame32 r m)) (r ESP + 4) = m (r ESP + 4)"
  "m (r ESP + 4) \<noteq> r ESP + 8 \<Longrightarrow> win32_saved fs r m x f (r ESP + 8) = m (r ESP + 8)"
  "m (r ESP + 4) \<noteq> r ESP + 12 \<Longrightarrow> win32_saved fs r m x f (r ESP + 12) = m (r ESP + 12)"
  by (simp_all add: win32_saved_def push_fpu32_def push_teb_def push_frame32_def)

lemma exec_win32_jump_fcontext:
  assumes "aligned4 (r ESP)" "aligned4 (m (r ESP + 4))" "aligned4 (m (r ESP + 8))" "aligned4 fs"
    and "m (r ESP + 4) \<notin> {r ESP + 8, r ESP + 12, fs + 0x18}" "m (fs + 0x18) = fs"
    and "insert (fs + 0x18) (teb_fields fs) \<inter> win32_frame (r ESP - 44) = {}" "teb_fields fs \<inter> win32_frame (m (r ESP + 8)) = {}"
  shows "exec32 (win32_jump_fcontext fs) (mk32 r m x f z) =
    (let m0 = win32_saved fs r m x f; n = m (r ESP + 8); c = m (r ESP + 16) in
     Some (m0 (n + 44), mk32 (r(EDI := m0 (n + 28), ESI := m0 (n + 32), EBX := m0 (n + 36), EBP := m0 (n + 40),
         EDX := m0 (n + 44), ESP := n + 48, ECX := m0 (n + 24), EAX := m (r ESP + 12)))
       ((pop_teb fs (n + 8) m0)(n + 52 := m (r ESP + 12)))
       (if c = 0 then x else m0 n) (if c = 0 then f else get_half (m0 (n + 4))) (c = 0)))"
proof -
  let ?m0 = "win32_saved fs r m x f" and ?n = "m (r ESP + 8)"
  have st: "(push_fpu32 (m (r ESP + 16)) (r ESP - 44) x f (push_teb fs (r ESP - 16) (push_frame32 r m)))(m (r ESP + 4) := r ESP - 44) = ?m0"
    by (simp add: win32_saved_def)
  have pf: "push_frame32 (r(ECX := c)) m = push_frame32 r m" for c
    by (simp add: push_frame32_def)
  have comm: "numeral k + r ESP = r ESP + numeral k" "numeral k + m a = m a + numeral k" for k a by (rule add.commute)+
  have mfs: "push_frame32 r m (fs + 0x18) = fs" "?m0 (fs + 0x18) = fs"
    using assms(5-7) by (auto simp: push_frame32_def win32_frame_own win32_saved_other)
  have d1: "{r ESP - 20, r ESP - 24, r ESP - 28, r ESP - 32, r ESP - 36} \<inter> insert (fs + 0x18) (teb_fields fs) = {}"
    using assms(7) by (auto simp: win32_frame_own)
  have d2: "teb_fields fs \<inter> {?n + 8, ?n + 12, ?n + 16, ?n + 20, ?n + 24} = {}"
    using assms(8) by (auto simp: win32_frame_def)
  have tail: "pop_teb fs (?n + 8) ?m0 (?n + k) = ?m0 (?n + k)" if "k \<in> {28, 32, 36, 40, 44}" for k
    using assms(8) that by (auto simp: pop_teb_def win32_frame_def teb_fields_def)
  show ?thesis
    unfolding win32_jump_fcontext_def using assms(1-5) mfs d1 d2
    by (simp add: exec32_push4 exec32_push_teb exec32_push_fpu exec32_pop_fpu exec32_pop_teb exec32_pop5 exec32_simple(1,2,8) exec32_mem(1,2)
      win32_saved_arg pf st comm tail Let_def fun_upd_twist add.assoc del: exec32.simps)
qed

section \<open>The laws of a context switch\<close>

text \<open>
  The arguments are those of the other i386 systems. The block has its own address where the code
  looks for it, and no frame overlaps it.
\<close>

definition win32_own :: "machine32 \<Rightarrow> uint32" where
  "win32_own s = n_reg s ESP - 44"

definition win32_ok :: "uint32 \<Rightarrow> machine32 \<Rightarrow> bool" where
  "win32_ok fs s \<longleftrightarrow> i386_ok s \<and> aligned4 fs \<and> n_mem s (fs + 0x18) = fs \<and> i386_ofc s \<noteq> fs + 0x18 \<and>
     insert (fs + 0x18) (teb_fields fs) \<inter> win32_frame (win32_own s) = {} \<and>
     teb_fields fs \<inter> insert (i386_nfc s + 52) (win32_frame (i386_nfc s)) = {}"

definition teb_list :: "uint32 \<Rightarrow> uint32 list" where
  "teb_list fs = [fs, fs + 4, fs + 8, fs + 0xe0c, fs + 0x10]"

definition win32_ctx :: "(uint32 \<Rightarrow> uint32) \<Rightarrow> uint32 \<Rightarrow> uint32 \<times> uint32 list" where
  "win32_ctx f sp = (f (sp + 44), [f (sp + 28), f (sp + 32), f (sp + 36), f (sp + 40), sp + 48,
     f (sp + 24), f (sp + 20), f (sp + 16), f (sp + 12), f (sp + 8)])"

definition win32_view :: "uint32 \<Rightarrow> machine32 \<Rightarrow> uint32 list" where
  "win32_view fs s = map (n_reg s) [EDI, ESI, EBX, EBP, ESP] @ map (n_mem s) (teb_list fs)"

definition win32_resume :: "uint32 \<Rightarrow> machine32 \<Rightarrow> uint32 \<times> uint32 list" where
  "win32_resume fs s = (n_mem s (n_reg s ESP),
     map (n_reg s) [EDI, ESI, EBX, EBP] @ [n_reg s ESP + 4] @ map (n_mem s) (teb_list fs))"

definition win32_arrival :: "uint32 \<Rightarrow> uint32 \<Rightarrow> uint32 set" where
  "win32_arrival fs sp = insert (sp + 52) (teb_fields fs)"

definition win32_mem0 :: "uint32 \<Rightarrow> machine32 \<Rightarrow> uint32 \<Rightarrow> uint32" where
  "win32_mem0 fs s = win32_saved fs (n_reg s) (n_mem s) (n_mxcsr s) (n_fcw s)"

lemma win32_jumps:
  assumes "win32_ok fs s"
  defines "m0 \<equiv> win32_mem0 fs s" and "n \<equiv> i386_nfc s"
  shows "\<exists>s'. exec32 (win32_jump_fcontext fs) s = Some (m0 (n + 44), s') \<and>
    n_mem s' = (pop_teb fs (n + 8) m0)(n + 52 := i386_vp s) \<and>
    map (n_reg s') [EDI, ESI, EBX, EBP, ESP, EAX] = [m0 (n + 28), m0 (n + 32), m0 (n + 36), m0 (n + 40), n + 48, i386_vp s] \<and>
    (i386_preserve_fpu s \<longrightarrow> n_mxcsr s' = m0 n \<and> n_fcw s' = get_half (m0 (n + 4)))"
proof -
  have "exec32 (win32_jump_fcontext fs) s =
    exec32 (win32_jump_fcontext fs) (mk32 (n_reg s) (n_mem s) (n_mxcsr s) (n_fcw s) (n_zf s))"
    by (simp only: mk32_surj [symmetric])
  also note exec_win32_jump_fcontext [where r = "n_reg s" and m = "n_mem s" and fs = fs]
  finally show ?thesis using assms(1)
    unfolding m0_def n_def win32_mem0_def win32_ok_def i386_defs win32_own_def
    by (simp add: Let_def mk32_def)
qed

lemma pop_teb_other: "a \<notin> teb_fields fs \<Longrightarrow> pop_teb fs p m a = m a"
  by (simp add: pop_teb_def teb_fields_def)

lemma pop_teb_list: "map (pop_teb fs p m) (teb_list fs) = [m (p + 16), m (p + 12), m (p + 8), m (p + 4), m p]"
  by (simp add: pop_teb_def teb_list_def)

lemma teb_list_fields: "set (teb_list fs) = teb_fields fs"
  by (auto simp: teb_list_def teb_fields_def)

lemma win32_jump_mem:
  assumes "win32_ok fs s" "exec32 (win32_jump_fcontext fs) s = Some (k, s')"
  shows "a \<notin> win32_arrival fs (i386_nfc s) \<Longrightarrow> n_mem s' a = win32_mem0 fs s a"
  using assms(2) win32_jumps [OF assms(1)] by (auto simp: win32_arrival_def pop_teb_other)

lemma win32_frame_arrival:
  assumes "win32_ok fs s"
  shows "win32_arrival fs (i386_nfc s) \<inter> win32_frame (i386_nfc s) = {}"
  using assms unfolding win32_ok_def win32_arrival_def by (auto simp: win32_frame_def)

lemma win32_ctx_mem0:
  assumes "win32_ok fs s" "i386_ofc s \<notin> win32_frame (win32_own s)"
  shows "win32_ctx (win32_mem0 fs s) (win32_own s) = win32_resume fs s"
    and "win32_mem0 fs s (i386_ofc s) = win32_own s"
    and "i386_preserve_fpu s \<Longrightarrow> fpu_words32 (win32_mem0 fs s) (win32_own s) = (n_mxcsr s, n_fcw s)"
proof -
  have "teb_fields fs \<inter> win32_frame (n_reg s ESP - 44) = {}" "n_mem s (n_reg s ESP + 4) \<notin> win32_frame (n_reg s ESP - 44)"
    using assms by (simp_all add: win32_ok_def win32_own_def i386_ofc_def)
  note saved = win32_saved_frame [where r = "n_reg s" and m = "n_mem s", OF this(2,1)]
  show "win32_ctx (win32_mem0 fs s) (win32_own s) = win32_resume fs s"
    using saved(1,2) by (simp add: win32_ctx_def win32_own_def win32_mem0_def win32_resume_def teb_list_def)
  show "win32_mem0 fs s (i386_ofc s) = win32_own s"
    using saved(5) by (simp add: win32_mem0_def win32_own_def i386_ofc_def)
  show "fpu_words32 (win32_mem0 fs s) (win32_own s) = (n_mxcsr s, n_fcw s)" if "i386_preserve_fpu s"
    using saved(3,4) that by (simp add: fpu_words32_def win32_mem0_def win32_own_def i386_preserve_fpu_def)
qed

lemma win32_ctx_local:
  assumes "\<And>a. a \<in> win32_frame sp \<Longrightarrow> f a = g a"
  shows "win32_ctx f sp = win32_ctx g sp" "fpu_words32 f sp = fpu_words32 g sp"
  using assms by (simp_all add: win32_ctx_def fpu_words32_def win32_frame_def)

interpretation win32: context_switch_fpu "exec32 (win32_jump_fcontext fs)" n_mem "win32_ok fs" win32_own i386_ofc i386_nfc
  i386_vp "\<lambda>s. n_reg s EAX" "win32_resume fs" "win32_view fs" win32_ctx win32_frame "win32_arrival fs"
  i386_preserve_fpu "\<lambda>s. (n_mxcsr s, n_fcw s)" fpu_words32
  for fs
proof (unfold_locales, goal_cases)
  case (1 s)
  let ?n = "i386_nfc s" and ?m0 = "win32_mem0 fs s"
  obtain s' where s': "exec32 (win32_jump_fcontext fs) s = Some (?m0 (?n + 44), s')"
    "n_mem s' = (pop_teb fs (?n + 8) ?m0)(?n + 52 := i386_vp s)"
    "map (n_reg s') [EDI, ESI, EBX, EBP, ESP, EAX] = [?m0 (?n + 28), ?m0 (?n + 32), ?m0 (?n + 36), ?m0 (?n + 40), ?n + 48, i386_vp s]"
    using win32_jumps [OF 1(1)] by auto
  have "n_mem s' a = ?m0 a" if "a \<in> win32_frame ?n" for a
    using win32_jump_mem [OF 1(1) s'(1)] win32_frame_arrival [OF 1(1)] that by blast
  then have ctx: "win32_ctx (n_mem s') ?n = win32_ctx ?m0 ?n" by (rule win32_ctx_local)
  have "?n + 52 \<notin> set (teb_list fs)" using 1(1) unfolding teb_list_fields by (auto simp: win32_ok_def)
  then have "map (n_mem s') (teb_list fs) = map (pop_teb fs (?n + 8) ?m0) (teb_list fs)" unfolding s'(2) by simp
  then have "map (n_mem s') (teb_list fs) = [?m0 (?n + 24), ?m0 (?n + 20), ?m0 (?n + 16), ?m0 (?n + 12), ?m0 (?n + 8)]"
    unfolding pop_teb_list by (simp add: add.assoc)
  then have "win32_view fs s' = snd (win32_ctx ?m0 ?n)" using s'(3) by (simp add: win32_view_def win32_ctx_def)
  with s' ctx show ?case by (simp add: win32_ctx_def)
next
  case (2 s k s')
  have "n_mem s' a = win32_mem0 fs s a" if "a \<in> insert (i386_ofc s) (win32_frame (win32_own s))" for a
    using win32_jump_mem [OF 2(1,4)] 2(3) that by blast
  then have "win32_ctx (n_mem s') (win32_own s) = win32_ctx (win32_mem0 fs s) (win32_own s)"
    "n_mem s' (i386_ofc s) = win32_mem0 fs s (i386_ofc s)" by (auto intro: win32_ctx_local)
  then show ?case using win32_ctx_mem0 [OF 2(1,2)] by simp
next
  case (3 s k s' a)
  then show ?case
    by (simp add: win32_jump_mem [OF 3(1,2)] win32_mem0_def win32_saved_other win32_own_def i386_ofc_def)
next
  case (4 sp f g)
  then show ?case by (rule win32_ctx_local)
next
  case (5 s k s')
  have "n_mem s' a = win32_mem0 fs s a" if "a \<in> win32_frame (i386_nfc s)" for a
    using win32_jump_mem [OF 5(1,4)] 5(3) that by blast
  then have fpu: "fpu_words32 (n_mem s') (i386_nfc s) = fpu_words32 (win32_mem0 fs s) (i386_nfc s)" by (rule win32_ctx_local)
  show ?case unfolding fpu using win32_jumps [OF 5(1)] 5(2,4) by (auto simp: fpu_words32_def)
next
  case (6 s k s')
  have "n_mem s' a = win32_mem0 fs s a" if "a \<in> win32_frame (win32_own s)" for a
    using win32_jump_mem [OF 6(1,5)] 6(4) that by blast
  then have fpu: "fpu_words32 (n_mem s') (win32_own s) = fpu_words32 (win32_mem0 fs s) (win32_own s)" by (rule win32_ctx_local)
  show ?case unfolding fpu using win32_ctx_mem0(3) [OF 6(1,3,2)] by simp
next
  case (7 sp f g)
  then show ?case by (rule win32_ctx_local)
qed

section \<open>Round trip\<close>

text \<open>
  On Windows a switch away and back restores, beside what the other i386 systems restore, the
  five fields of the thread environment block: the context that is continued has its own list of
  exception handlers and its own stack bounds again.
\<close>

lemma win32_jump_fcontext_round_trip:
  assumes "win32_ok fs s" "i386_ofc s \<notin> win32_frame (win32_own s)"
    and "insert (i386_nfc s + 52) (teb_fields fs) \<inter> insert (i386_ofc s) (win32_frame (win32_own s)) = {}"
    and "exec32 (win32_jump_fcontext fs) s = Some (k, s1)"
    and "win32_ok fs t" "i386_nfc t = n_mem s1 (i386_ofc s)" "\<forall>a \<in> win32_frame (win32_own s). n_mem t a = n_mem s1 a"
    and "win32_frame (win32_own t) \<inter> win32_frame (win32_own s) = {}" "i386_ofc t \<notin> win32_frame (win32_own s)"
  shows "\<exists>t1. exec32 (win32_jump_fcontext fs) t = Some (n_mem s (n_reg s ESP), t1) \<and>
    (\<forall>r \<in> {EBX, ESI, EDI, EBP}. n_reg t1 r = n_reg s r) \<and> n_reg t1 ESP = n_reg s ESP + 4 \<and>
    n_reg t1 EAX = i386_vp t \<and> (\<forall>a \<in> teb_fields fs. n_mem t1 a = n_mem s a) \<and>
    (i386_preserve_fpu s \<and> i386_preserve_fpu t \<longrightarrow> n_mxcsr t1 = n_mxcsr s \<and> n_fcw t1 = n_fcw s) \<and>
    (\<forall>a. a \<notin> win32_frame (win32_own t) \<union> teb_fields fs \<and> a \<noteq> i386_ofc t \<and> a \<noteq> n_reg s ESP + 8 \<longrightarrow> n_mem t1 a = n_mem t a)"
proof -
  have ar: "win32_arrival fs (i386_nfc s) \<inter> insert (i386_ofc s) (win32_frame (win32_own s)) = {}"
    using assms(3) by (simp add: win32_arrival_def)
  have n: "i386_nfc t = win32_own s" using win32.saves [OF assms(1,2) ar assms(4)] assms(6) by simp
  have ap: "win32.apart fs t (win32_own s)"
    using assms(8,9) win32_frame_arrival [OF assms(5)] unfolding win32.apart_def n by blast
  obtain t1 where t1: "exec32 (win32_jump_fcontext fs) t = Some (fst (win32_resume fs s), t1)"
    "win32_view fs t1 = snd (win32_resume fs s)" "n_reg t1 EAX = i386_vp t"
    using win32.round_trip [OF assms(1,2) ar assms(4-7) ap] by auto
  have keep: "n_mem t1 a = n_mem t a"
    if "a \<notin> win32_frame (win32_own t) \<union> teb_fields fs" "a \<noteq> i386_ofc t" "a \<noteq> n_reg s ESP + 8" for a
    using that n by (intro win32.keeps [OF assms(5) t1(1)]) (simp_all add: win32_arrival_def win32_own_def add.commute)
  have "map (n_mem t1) (teb_list fs) = map (n_mem s) (teb_list fs)" using t1(2) by (simp add: win32_view_def win32_resume_def)
  then have teb: "\<forall>a \<in> teb_fields fs. n_mem t1 a = n_mem s a" unfolding teb_list_fields [symmetric] by simp
  have "map (n_reg t1) [EDI, ESI, EBX, EBP, ESP] = map (n_reg s) [EDI, ESI, EBX, EBP] @ [n_reg s ESP + 4]"
    using t1(2) by (simp add: win32_view_def win32_resume_def)
  with t1 keep teb show ?thesis
    using win32.fpu_round_trip [OF assms(1) _ assms(2) ar assms(4,5) _ assms(6,7) ap]
    by (intro exI [of _ t1]) (simp add: win32_resume_def)
qed

section \<open>New contexts\<close>

text \<open>
  The exception handlers of the caller, from the list at the base of the segment: records with the
  address of the next one and of a handler. The last one has -1 instead of an address. No record
  is in the area \<open>A\<close>.
\<close>

inductive seh_chain :: "uint32 set \<Rightarrow> (uint32 \<Rightarrow> uint32) \<Rightarrow> uint32 \<Rightarrow> uint32 \<Rightarrow> bool" for A m where
  last: "aligned4 p \<Longrightarrow> {p, p + 4} \<inter> A = {} \<Longrightarrow> m p = - 1 \<Longrightarrow> seh_chain A m p p"
| step: "aligned4 p \<Longrightarrow> {p, p + 4} \<inter> A = {} \<Longrightarrow> m p \<noteq> - 1 \<Longrightarrow> seh_chain A m (m p) q \<Longrightarrow> seh_chain A m p q"

lemma seh_chain_cong:
  assumes "seh_chain A m p q" "\<And>a. a \<notin> A \<Longrightarrow> m' a = m a"
  shows "seh_chain A m' p q \<and> m' (q + 4) = m (q + 4) \<and> aligned4 q"
  using assms(1)
proof induction
  case (last p)
  then show ?case using assms(2) by (auto intro: seh_chain.last)
next
  case (step p q)
  then show ?case using assms(2) [of p] seh_chain.step [of p A m' q] by auto
qed

lemma win32_walk_steps:
  assumes "aligned4 (r ECX)"
  shows "win32_walk (mk32 r m x f z) =
    (if m (r ECX) = - 1 then Some (mk32 (r(EDX := 0)) m x f True)
     else win32_walk (mk32 (r(ECX := m (r ECX), EDX := r ECX)) m x f (m (r ECX) = 0)))"
proof -
  have z: "v + 1 = 0 \<longleftrightarrow> v = - 1" for v :: uint32 by (simp add: eq_neg_iff_add_eq_0)
  show ?thesis using assms
    by (subst win32_walk.simps) (auto simp: mk32_def load32_def set_reg32_def Let_def z fun_upd_twist)
qed

lemma win32_walk_finds:
  assumes "seh_chain A m p q" "r ECX = p"
  shows "\<exists>v. win32_walk (mk32 r m x f z) = Some (mk32 (r(ECX := q, EDX := v)) m x f True)"
  using assms
proof (induction arbitrary: r z)
  case (last p)
  have "r(ECX := p, EDX := 0) = r(EDX := 0)" using last.prems by auto
  moreover have "win32_walk (mk32 r m x f z) = Some (mk32 (r(EDX := 0)) m x f True)" using last by (simp add: win32_walk_steps)
  ultimately show ?case by metis
next
  case (step p q)
  let ?r = "r(ECX := m p, EDX := p)"
  have "?r ECX = m p" by simp
  from step.IH [of ?r "m p = 0", OF this] obtain v
    where v: "win32_walk (mk32 ?r m x f (m p = 0)) = Some (mk32 (?r(ECX := q, EDX := v)) m x f True)" by blast
  have r: "?r(ECX := q, EDX := v) = r(ECX := q, EDX := v)" by (simp add: fun_eq_iff)
  have "win32_walk (mk32 r m x f z) = win32_walk (mk32 ?r m x f (m p = 0))"
    using step.hyps(1,3) step.prems by (simp add: win32_walk_steps)
  then show ?case unfolding v r by blast
qed

text \<open>The loop ends on no other list.\<close>

lemma win32_walk_ends:
  assumes "win32_walk s = Some s'"
  shows "\<exists>q. seh_chain {} (n_mem s) (n_reg s ECX) q"
proof (rule win32_walk.raw_induct [OF _ assms, where P = "\<lambda>s _. \<exists>q. seh_chain {} (n_mem s) (n_reg s ECX) q"], goal_cases)
  case (1 walk s s')
  let ?p = "n_reg s ECX"
  have al: "aligned4 ?p" using 1(2) by (cases "aligned4 ?p") (simp_all add: load32_def)
  show ?case
  proof (cases "n_mem s ?p = - 1")
    case False
    define s2 where "s2 = set_reg32 EDX ?p (set_reg32 ECX (n_mem s ?p) (s\<lparr>n_zf := (n_mem s ?p = 0)\<rparr>))"
    have z: "v + 1 = 0 \<longleftrightarrow> v = - 1" for v :: uint32 by (simp add: eq_neg_iff_add_eq_0)
    have "walk s2 = Some s'"
      using 1(2) al False by (simp add: load32_def set_reg32_def s2_def Let_def z fun_upd_twist)
    from 1(1) [OF this] obtain q where "seh_chain {} (n_mem s) (n_mem s ?p) q" by (auto simp: s2_def set_reg32_def)
    with al False seh_chain.step [of ?p "{}" "n_mem s"] show ?thesis by auto
  qed (use al seh_chain.last in auto)
qed

text \<open>Instructions without a jump, as a whole.\<close>

fun straight :: "instr32 \<Rightarrow> bool" where
  "straight (Jel n) \<longleftrightarrow> False"
| "straight (Jmpl a) \<longleftrightarrow> False"
| "straight (Calll f l) \<longleftrightarrow> False"
| "straight Retl \<longleftrightarrow> False"
| "straight i \<longleftrightarrow> True"

lemma exec32_straight:
  "list_all straight is \<Longrightarrow> exec32 (is @ [Jmpl a]) s = map_option (\<lambda>s1. (n_reg s1 a, s1)) (steps32 is s)"
proof (induction "is" arbitrary: s)
  case (Cons i "is")
  have "exec32 ((i # is) @ [Jmpl a]) s = Option.bind (step32 i s) (exec32 (is @ [Jmpl a]))"
    using Cons.prems by (cases i) simp_all
  then show ?case using Cons by (cases "step32 i s") simp_all
qed simp

definition win32_new_frame :: "uint32 \<Rightarrow> uint32" where
  "win32_new_frame bp = ((bp - 8) AND - 16) - 60"

definition win32_new_area :: "uint32 \<Rightarrow> uint32 set" where
  "win32_new_area sp = {sp + 48, sp + 52, sp + 56, sp + 60} \<union> win32_frame sp"

lemma win32_new_frame_bounds:
  assumes "unat bp \<ge> 83"
  shows "aligned4 (win32_new_frame bp)" "unat (win32_new_frame bp) mod 16 = 4"
    "unat (win32_new_frame bp) + 68 \<le> unat bp" "unat bp \<le> unat (win32_new_frame bp) + 83"
proof -
  let ?n = "unat bp - 8"
  have e: "unat (win32_new_frame bp) = ?n - ?n mod 16 - 60"
    using unat_frame [of 8 bp 60] assms by (simp add: win32_new_frame_def)
  obtain q where q: "?n = 16 * q + ?n mod 16" by (metis mult_div_mod_eq)
  have m: "?n mod 16 < 16" by simp
  have "?n \<ge> 75" using assms by simp
  then have q4: "q \<ge> 4" using q m by linarith
  then have "unat (win32_new_frame bp) = 16 * (q - 4) + 4" using e q by linarith
  moreover have "(16 * (q - 4) + 4) mod 4 = 0" by presburger
  ultimately show "aligned4 (win32_new_frame bp)" "unat (win32_new_frame bp) mod 16 = 4" by (simp_all add: aligned4_def)
  show "unat (win32_new_frame bp) + 68 \<le> unat bp" "unat bp \<le> unat (win32_new_frame bp) + 83" using e q q4 m assms by linarith+
qed

definition win32_start_mem :: "uint32 \<Rightarrow> (reg32 \<Rightarrow> uint32) \<Rightarrow> (uint32 \<Rightarrow> uint32) \<Rightarrow> uint32 \<Rightarrow> uint16 \<Rightarrow> uint32 \<Rightarrow> uint32" where
  "win32_start_mem finish r m x f =
     (let bp = m (r ESP + 4); size = m (r ESP + 8); sp = win32_new_frame bp in
      m(sp + 20 := bp, sp + 16 := bp - size, sp + 12 := bp - size, sp + 44 := m (r ESP + 12), sp := x,
        sp + 4 := put_half f (m (sp + 4)), sp + 48 := finish))"

lemma win32_start_mem_other:
  "a \<notin> win32_new_area (win32_new_frame (m (r ESP + 4))) \<Longrightarrow> win32_start_mem finish r m x f a = m a"
  by (simp add: win32_start_mem_def win32_new_area_def win32_frame_def Let_def)

lemma steps_win32_make_start:
  assumes "aligned4 (r ESP)" "aligned4 fs" "aligned4 (win32_new_frame (m (r ESP + 4)))"
    and "{r ESP, r ESP + 4, r ESP + 8, r ESP + 12, fs} \<inter> win32_new_area (win32_new_frame (m (r ESP + 4))) = {}"
  shows "steps32 (win32_make_start fs finish) (mk32 r m x f z) =
    Some (mk32 (r(EAX := win32_new_frame (m (r ESP + 4)), EDX := - m (r ESP + 8), ECX := m fs)) (win32_start_mem finish r m x f)
      x f (m (r ESP + 8) = 0))"
proof -
  let ?sp = "win32_new_frame (m (r ESP + 4))"
  have comm: "numeral k + r ESP = r ESP + numeral k" "numeral k + ?sp = ?sp + numeral k" for k by (rule add.commute)+
  have "(4294967280 :: uint32) = - 16" by (simp add: eq_neg_iff_add_eq_0)
  then have sp: "(m (r ESP + 4) - 8 AND 4294967280) - 60 = ?sp" by (simp only: win32_new_frame_def)
  have args: "r ESP + 8 \<noteq> ?sp + 20" "r ESP + 12 \<noteq> ?sp + 20" "r ESP + 12 \<noteq> ?sp + 16" "r ESP + 12 \<noteq> ?sp + 12"
    using assms(4) by (simp_all only: win32_new_area_def win32_frame_def) blast+
  have fs: "fs \<notin> {?sp, ?sp + 4, ?sp + 12, ?sp + 16, ?sp + 20, ?sp + 44, ?sp + 48}"
    using assms(4) by (auto simp: win32_new_area_def win32_frame_def)
  have "exec32 (win32_make_start fs finish @ [Jmpl ECX]) (mk32 r m x f z) =
      Some (m fs, mk32 (r(EAX := ?sp, EDX := - m (r ESP + 8), ECX := m fs)) (win32_start_mem finish r m x f) x f (m (r ESP + 8) = 0))"
    using assms(1-3) args fs unfolding win32_make_start_def
    by (simp add: run32_simps Let_def sp comm fun_upd_twist win32_start_mem_def del: exec32.simps)
  moreover have "list_all straight (win32_make_start fs finish)" by (simp add: win32_make_start_def)
  ultimately show ?thesis by (simp add: exec32_straight)
qed

lemma exec_win32_make_found:
  assumes "aligned4 (r ECX)" "aligned4 (r EAX)" "aligned4 (r ESP)"
    and "r ESP \<notin> {r EAX + 24, r EAX + 56, r EAX + 60}"
  shows "exec32 win32_make_found (mk32 r m x f z) =
    Some (m (r ESP), mk32 (r(ECX := r EAX + 56, ESP := r ESP + 4))
      (m(r EAX + 60 := m (r ECX + 4), r EAX + 56 := - 1, r EAX + 24 := r EAX + 56)) x f z)"
proof -
  have ff: "(4294967295 :: uint32) = - 1" by (simp add: eq_neg_iff_add_eq_0)
  show ?thesis using assms unfolding win32_make_found_def ff
    by (simp add: run32_simps fun_upd_twist del: exec32.simps)
qed

lemma win32_makes:
  fixes s :: machine32
  defines "sp \<equiv> win32_new_frame (n_mem s (n_reg s ESP + 4))"
  assumes "aligned4 (n_reg s ESP)" "aligned4 fs" "unat (n_mem s (n_reg s ESP + 4)) \<ge> 83"
    and "{n_reg s ESP, n_reg s ESP + 4, n_reg s ESP + 8, n_reg s ESP + 12, fs} \<inter> win32_new_area sp = {}"
    and "seh_chain (win32_new_area sp) (n_mem s) (n_mem s fs) q"
  shows "\<exists>s1. win32_make_fcontext fs finish s = Some (n_mem s (n_reg s ESP), s1) \<and> n_reg s1 EAX = sp \<and>
    n_mem s1 = (win32_start_mem finish (n_reg s) (n_mem s) (n_mxcsr s) (n_fcw s))
      (sp + 60 := n_mem s (q + 4), sp + 56 := - 1, sp + 24 := sp + 56)"
proof -
  define r where "r = n_reg s"
  define m where "m = n_mem s"
  let ?m1 = "win32_start_mem finish r m (n_mxcsr s) (n_fcw s)"
  have al: "aligned4 sp" unfolding sp_def by (rule win32_new_frame_bounds(1) [OF assms(4)])
  have s: "s = mk32 r m (n_mxcsr s) (n_fcw s) (n_zf s)" unfolding r_def m_def by (rule mk32_surj)
  have disj: "{r ESP, r ESP + 4, r ESP + 8, r ESP + 12, fs} \<inter> win32_new_area (win32_new_frame (m (r ESP + 4))) = {}"
    using assms(5) by (simp only: sp_def r_def m_def)
  have other: "?m1 a = m a" if "a \<notin> win32_new_area sp" for a
    using that by (intro win32_start_mem_other) (simp add: sp_def r_def m_def)
  have chain: "seh_chain (win32_new_area sp) ?m1 (m fs) q" "?m1 (q + 4) = m (q + 4)" "aligned4 q"
    using seh_chain_cong [OF assms(6), of ?m1] other unfolding m_def by blast+
  let ?r1 = "r(EAX := sp, EDX := - m (r ESP + 8), ECX := m fs)"
  have start: "steps32 (win32_make_start fs finish) s = Some (mk32 ?r1 ?m1 (n_mxcsr s) (n_fcw s) (m (r ESP + 8) = 0))"
    by (subst s, subst steps_win32_make_start [where r = r and m = m and fs = fs, OF _ _ _ disj]) (use assms(2,3) al in \<open>simp_all add: sp_def r_def m_def\<close>)
  obtain v where walk: "win32_walk (mk32 ?r1 ?m1 (n_mxcsr s) (n_fcw s) (m (r ESP + 8) = 0)) =
      Some (mk32 (?r1(ECX := q, EDX := v)) ?m1 (n_mxcsr s) (n_fcw s) True)"
    using win32_walk_finds [OF chain(1), of ?r1] by fastforce
  have "r ESP \<notin> win32_new_area sp" using assms(5) by (simp add: r_def)
  then have "r ESP \<notin> {sp + 24, sp + 56, sp + 60}" "?m1 (r ESP) = m (r ESP)"
    using other by (auto simp: win32_new_area_def win32_frame_def)
  then show ?thesis
    using exec_win32_make_found [where r = "?r1(ECX := q, EDX := v)" and m = ?m1 and x = "n_mxcsr s" and f = "n_fcw s" and z = True]
      assms(2) al chain(2,3) unfolding win32_make_fcontext_def start
    by (simp add: walk) (simp add: mk32_def r_def m_def)
qed

lemma win32_finish_exits:
  assumes "aligned4 (n_reg u ESP)"
  shows "\<exists>u'. exec32 (win32_finish exit hlt) u = Some (exit, u') \<and> n_mem u' (n_reg u' ESP + 4) = 0"
  using apple_i386_finish_exits [OF assms] by (auto simp: win32_finish_def apple_i386_finish_def)

lemma win32_made_cells:
  fixes s :: machine32
  defines "sp \<equiv> win32_new_frame (n_mem s (n_reg s ESP + 4))"
  assumes "n_mem s1 = (win32_start_mem finish (n_reg s) (n_mem s) (n_mxcsr s) (n_fcw s))
      (sp + 60 := h, sp + 56 := - 1, sp + 24 := sp + 56)"
  shows "n_mem s1 (sp + 44) = n_mem s (n_reg s ESP + 12)" "n_mem s1 (sp + 48) = finish"
    "n_mem s1 (sp + 56) = - 1" "n_mem s1 (sp + 60) = h" "n_mem s1 (sp + 24) = sp + 56"
    "n_mem s1 (sp + 20) = n_mem s (n_reg s ESP + 4)"
    "n_mem s1 (sp + 16) = n_mem s (n_reg s ESP + 4) - n_mem s (n_reg s ESP + 8)"
    "n_mem s1 (sp + 12) = n_mem s (n_reg s ESP + 4) - n_mem s (n_reg s ESP + 8)"
  unfolding assms(2) win32_start_mem_def sp_def Let_def by simp_all

text \<open>
  A new context on Windows: the first jump to what \<open>make_fcontext\<close> returned goes to \<open>fn\<close>, with the
  argument of the jump in the parameter cell and \<open>finish\<close> as the return address, and gives the
  thread the bounds of the new stack and a list of exception handlers with one record, at the
  top of the new stack, whose handler is the last one of the list that was current in
  \<open>make_fcontext\<close>. The stack pointer is only 4 above a multiple of 16. If the function returns,
  \<open>finish\<close> calls \<open>_exit(0)\<close>.
\<close>

lemma win32_make_fcontext_entry:
  fixes s :: machine32
  defines "bp \<equiv> n_mem s (n_reg s ESP + 4)" and "low \<equiv> n_mem s (n_reg s ESP + 4) - n_mem s (n_reg s ESP + 8)"
  assumes "aligned4 (n_reg s ESP)" "aligned4 fs" "unat bp \<ge> 83"
    and "{n_reg s ESP, n_reg s ESP + 4, n_reg s ESP + 8, n_reg s ESP + 12} \<inter> win32_new_area (win32_new_frame bp) = {}"
    and "teb_fields fs \<inter> win32_new_area (win32_new_frame bp) = {}"
    and "seh_chain (win32_new_area (win32_new_frame bp)) (n_mem s) (n_mem s fs) q"
    and "win32_make_fcontext fs finish s = Some (k, s1)"
    and "win32_ok fs t" "i386_nfc t = n_reg s1 EAX"
    and "\<forall>a \<in> win32_new_area (n_reg s1 EAX). n_mem t a = n_mem s1 a"
    and "insert (i386_ofc t) (win32_frame (win32_own t)) \<inter> win32_new_area (n_reg s1 EAX) = {}"
  shows "\<exists>t1. exec32 (win32_jump_fcontext fs) t = Some (n_mem s (n_reg s ESP + 12), t1) \<and>
    n_mem t1 (n_reg t1 ESP + 4) = i386_vp t \<and> n_mem t1 (n_reg t1 ESP) = finish \<and> unat (n_reg t1 ESP) mod 16 = 4 \<and>
    unat (n_reg t1 ESP) + 20 \<le> unat bp \<and> unat bp \<le> unat (n_reg s1 EAX) + 83 \<and>
    n_mem t1 (fs + 4) = bp \<and> n_mem t1 (fs + 8) = low \<and> n_mem t1 (fs + 0xe0c) = low \<and>
    n_mem t1 fs = n_reg t1 ESP + 8 \<and> n_mem t1 (n_mem t1 fs) = - 1 \<and> n_mem t1 (n_mem t1 fs + 4) = n_mem s (q + 4) \<and>
    (\<forall>u. n_reg u ESP = n_reg t1 ESP + 4 \<longrightarrow> (\<exists>u'. exec32 (win32_finish exit hlt) u = Some (exit, u') \<and>
      n_mem u' (n_reg u' ESP + 4) = 0))"
proof -
  let ?sp = "win32_new_frame bp"
  note b = win32_new_frame_bounds [OF assms(5)]
  have "fs \<in> teb_fields fs" by (simp add: teb_fields_def)
  then have d: "{n_reg s ESP, n_reg s ESP + 4, n_reg s ESP + 8, n_reg s ESP + 12, fs} \<inter> win32_new_area ?sp = {}"
    using assms(6,7) by auto
  obtain s1' where "win32_make_fcontext fs finish s = Some (n_mem s (n_reg s ESP), s1')" "n_reg s1' EAX = ?sp"
    "n_mem s1' = (win32_start_mem finish (n_reg s) (n_mem s) (n_mxcsr s) (n_fcw s))
      (?sp + 60 := n_mem s (q + 4), ?sp + 56 := - 1, ?sp + 24 := ?sp + 56)"
    using win32_makes [OF assms(3,4) _ _ assms(8) [unfolded bp_def]] assms(5) d unfolding bp_def by blast
  then have sp: "n_reg s1 EAX = ?sp" and m1: "n_mem s1 = (win32_start_mem finish (n_reg s) (n_mem s) (n_mxcsr s) (n_fcw s))
      (?sp + 60 := n_mem s (q + 4), ?sp + 56 := - 1, ?sp + 24 := ?sp + 56)" using assms(9) by simp_all
  note made = win32_made_cells [OF m1 [unfolded bp_def], folded bp_def low_def]
  have keep: "win32_mem0 fs t a = n_mem s1 a" if "a \<in> win32_new_area ?sp" for a
    using that assms(12,13) unfolding sp win32_mem0_def
    by (subst win32_saved_other) (auto simp: win32_own_def i386_ofc_def)
  obtain t1 where t1: "exec32 (win32_jump_fcontext fs) t = Some (win32_mem0 fs t (?sp + 44), t1)"
    "n_mem t1 = (pop_teb fs (?sp + 8) (win32_mem0 fs t))(?sp + 52 := i386_vp t)" "n_reg t1 ESP = ?sp + 48"
    using win32_jumps [OF assms(10)] unfolding assms(11) sp by auto
  have keeps: "win32_mem0 fs t (?sp + j) = n_mem s1 (?sp + j)" if "j \<in> {12, 16, 20, 24, 44, 48, 56, 60}" for j
    using that by (intro keep) (auto simp: win32_new_area_def win32_frame_def)
  have "a \<noteq> ?sp + 52" if "a \<in> teb_fields fs" for a using that assms(7) by (auto simp: win32_new_area_def)
  then have teb: "n_mem t1 fs = ?sp + 56" "n_mem t1 (fs + 4) = bp" "n_mem t1 (fs + 8) = low" "n_mem t1 (fs + 0xe0c) = low"
    unfolding t1(2) by (simp_all add: teb_fields_def pop_teb_def add.assoc keeps made)
  have "n_mem t1 (?sp + j) = n_mem s1 (?sp + j)" if "j \<in> {48, 56, 60}" for j
  proof -
    have "?sp + j \<notin> teb_fields fs" using that assms(7) by (auto simp: win32_new_area_def)
    then show ?thesis using that keeps [of j] by (auto simp: t1(2) pop_teb_other)
  qed
  then have new: "n_mem t1 (?sp + 48) = finish" "n_mem t1 (?sp + 56) = - 1" "n_mem t1 (?sp + 60) = n_mem s (q + 4)"
    by (simp_all add: made)
  have "unat bp < 2 ^ 32" using unsigned_less [of bp] by simp
  then have u: "unat (?sp + 48) = unat ?sp + 48" using b(3) by (subst unat_plus_lt) simp_all
  have e: "unat (n_reg t1 ESP) mod 16 = 4" "unat (n_reg t1 ESP) + 20 \<le> unat bp" "unat bp \<le> unat (n_reg s1 EAX) + 83"
    using t1(3) u b(2-4) sp mod_mult_self1 [of "unat ?sp" 3 16] by simp_all
  have fin: "\<exists>u'. exec32 (win32_finish exit hlt) u = Some (exit, u') \<and> n_mem u' (n_reg u' ESP + 4) = 0"
    if "n_reg u ESP = n_reg t1 ESP + 4" for u
    using that t1(3) b(1) by (intro win32_finish_exits) (simp add: add.assoc)
  have "exec32 (win32_jump_fcontext fs) t = Some (n_mem s (n_reg s ESP + 12), t1)" using t1(1) by (simp add: keeps made)
  moreover have "n_mem t1 (n_reg t1 ESP + 4) = i386_vp t" using t1(2,3) by (simp add: add.assoc)
  moreover have "n_mem t1 (n_reg t1 ESP) = finish" "n_mem t1 fs = n_reg t1 ESP + 8" "n_mem t1 (n_mem t1 fs) = - 1"
    "n_mem t1 (n_mem t1 fs + 4) = n_mem s (q + 4)" using t1(3) teb(1) new by (simp_all add: add.assoc)
  ultimately show ?thesis using e fin teb(2-4) by blast
qed

end
