(* ===== verification/Libcontext_Win64.thy ===== *)
theory Libcontext_Win64
  imports Libcontext
begin

text \<open>
  The context switch of \<open>src/internal/libcontext.cpp\<close> for Windows on x86-64, on the machine of
  \<open>Libcontext\<close>. More registers are callee-saved than on the other systems, among them ten SSE
  registers; a context also has four fields of the thread environment block, which the segment
  \<open>gs\<close> finds: the bounds of the stack, the address of its allocation and the fiber data. The
  first quadword of a frame says whether the rest of it is moved up by one quadword, which is so for
  a frame that \<open>make_fcontext\<close> has built.
\<close>

unbundle bit_operations_syntax

section \<open>The functions\<close>

definition win64_jump_fcontext :: "uint64 \<Rightarrow> instr list" where
  "win64_jump_fcontext gs =
     [Pushq RBP, Pushq RBX, Pushq RSI, Pushq RDI, Pushq R15, Pushq R14, Pushq R13, Pushq R12,
      Load_gs (gs + 0x30) R10,
      Load 0x8 R10 RAX, Pushq RAX, Load 0x10 R10 RAX, Pushq RAX,
      Load 0x1478 R10 RAX, Pushq RAX, Load 0x18 R10 RAX, Pushq RAX,
      Leaq (-0xa8) RSP RSP,
      Testq R9, Je 12, Stmxcsr_at 0xa0 RSP, Fnstcw_at 0xa4 RSP,
      Movaps_to 6 0 RSP, Movaps_to 7 0x10 RSP, Movaps_to 8 0x20 RSP, Movaps_to 9 0x30 RSP, Movaps_to 10 0x40 RSP,
      Movaps_to 11 0x50 RSP, Movaps_to 12 0x60 RSP, Movaps_to 13 0x70 RSP, Movaps_to 14 0x80 RSP, Movaps_to 15 0x90 RSP,
      Xorq R10, Pushq R10, Store RSP 0 RCX, Movq RDX RSP, Popq R10,
      Testq R9, Je 12, Ldmxcsr_at 0xa0 RSP, Fldcw_at 0xa4 RSP,
      Movaps_from 0 RSP 6, Movaps_from 0x10 RSP 7, Movaps_from 0x20 RSP 8, Movaps_from 0x30 RSP 9, Movaps_from 0x40 RSP 10,
      Movaps_from 0x50 RSP 11, Movaps_from 0x60 RSP 12, Movaps_from 0x70 RSP 13, Movaps_from 0x80 RSP 14, Movaps_from 0x90 RSP 15,
      Movabs 0xa8 RCX, Testq R10, Je 1, Addq 0x8 RCX,
      Leasumq RSP RCX RSP,
      Load_gs (gs + 0x30) R10,
      Popq RAX, Store RAX 0x18 R10, Popq RAX, Store RAX 0x1478 R10,
      Popq RAX, Store RAX 0x10 R10, Popq RAX, Store RAX 0x8 R10,
      Popq R12, Popq R13, Popq R14, Popq R15, Popq RDI, Popq RSI, Popq RBX, Popq RBP, Popq R10,
      Movq R8 RAX, Movq R8 RCX, Jmp R10]"

definition win64_make_fcontext :: "uint64 \<Rightarrow> instr list" where
  "win64_make_fcontext finish =
     [Movq RCX RAX, Subq 0x28 RAX, Andq 0xfffffffffffffff0 RAX, Subq 0x128 RAX,
      Store R8 0x118 RAX, Store RCX 0xd0 RAX, Negq RDX, Leasumq RCX RDX RCX,
      Store RCX 0xc8 RAX, Store RCX 0xc0 RAX, Stmxcsr_at 0xa8 RAX, Fnstcw_at 0xac RAX,
      Lea_code finish RCX, Store RCX 0x120 RAX, Movabs 1 RCX, Store RCX 0 RAX, Ret]"

text \<open>The end of a context calls the address 0x63, a literal: the name of the function is not in
  the instruction.\<close>

definition win64_finish :: "uint64 \<Rightarrow> instr list" where
  "win64_finish hlt = [Xorq RCX, Callq 0x63 hlt]"

section \<open>Saving a context\<close>

text \<open>The fields of the block and the registers, in the order of their cells.\<close>

definition teb64 :: "uint64 \<Rightarrow> uint64 list" where
  "teb64 gs = [gs + 0x18, gs + 0x1478, gs + 0x10, gs + 8]"

definition win64_regs :: "reg list" where
  "win64_regs = [R12, R13, R14, R15, RDI, RSI, RBX, RBP]"

definition xmm_regs :: "reg list" where
  "xmm_regs = [XL 6, XH 6, XL 7, XH 7, XL 8, XH 8, XL 9, XH 9, XL 10, XH 10, XL 11, XH 11, XL 12, XH 12, XL 13, XH 13,
     XL 14, XH 14, XL 15, XH 15]"

lemma win64_lengths [simp]: "length (teb64 gs) = 4" "length win64_regs = 8" "length xmm_regs = 20"
  by (simp_all add: teb64_def win64_regs_def xmm_regs_def)

lemma aligned_win64:
  "aligned 0x18" "aligned 0x30" "aligned 0x60" "aligned 0xa0" "aligned 0xa8" "aligned 0xb0" "aligned 0xc0" "aligned 0xc8" "aligned 0xd0"
  "aligned 0x108" "aligned 0x110" "aligned 0x118" "aligned 0x120" "aligned 0x1478" "aligned 80" "aligned 88" "aligned 64" "aligned 72"
  by (simp_all add: aligned_def)

lemmas win64_aligned [simp] = aligned_win64 [THEN aligned_add] aligned_win64 [THEN aligned_diff]

definition push_win64 :: "uint64 \<Rightarrow> (reg \<Rightarrow> uint64) \<Rightarrow> (uint64 \<Rightarrow> uint64) \<Rightarrow> uint64 \<Rightarrow> uint64" where
  "push_win64 gs r m = put_cells 8 (r RSP - 96) (map m (teb64 gs)) (put_cells 8 (r RSP - 64) (map r win64_regs) m)"

lemma exec_push_regs:
  "aligned (r RSP) \<Longrightarrow>
   exec (Pushq RBP # Pushq RBX # Pushq RSI # Pushq RDI # Pushq R15 # Pushq R14 # Pushq R13 # Pushq R12 # is) (mk r m x f z) =
   exec is (mk (r(RSP := r RSP - 64)) (put_cells 8 (r RSP - 64) (map r win64_regs) m) x f z)"
  by (simp add: run_simps win64_regs_def fun_upd_twist del: exec.simps)

lemma exec_push_teb:
  assumes "aligned (r RSP)" "aligned gs" "m (gs + 0x30) = gs"
    and "{r RSP - 8, r RSP - 16, r RSP - 24, r RSP - 32} \<inter> insert (gs + 0x30) (set (teb64 gs)) = {}"
  shows "exec (Load_gs (gs + 0x30) R10 # Load 0x8 R10 RAX # Pushq RAX # Load 0x10 R10 RAX # Pushq RAX #
      Load 0x1478 R10 RAX # Pushq RAX # Load 0x18 R10 RAX # Pushq RAX # Leaq (-0xa8) RSP RSP # is) (mk r m x f z) =
    exec is (mk (r(R10 := gs, RAX := m (gs + 0x18), RSP := r RSP - 200)) (put_cells 8 (r RSP - 32) (map m (teb64 gs)) m) x f z)"
proof -
  have comm: "numeral k + gs = gs + numeral k" "numeral k + r RSP = r RSP + numeral k" for k by (rule add.commute)+
  show ?thesis using assms unfolding teb64_def
    by (simp add: run_simps comm fun_upd_twist del: exec.simps)
qed

lemma exec_push_win64:
  assumes "aligned (r RSP)" "aligned gs" "m (gs + 0x30) = gs"
    and "set (cells 8 (r RSP - 96) 12) \<inter> insert (gs + 0x30) (set (teb64 gs)) = {}"
  shows "exec (Pushq RBP # Pushq RBX # Pushq RSI # Pushq RDI # Pushq R15 # Pushq R14 # Pushq R13 # Pushq R12 #
      Load_gs (gs + 0x30) R10 # Load 0x8 R10 RAX # Pushq RAX # Load 0x10 R10 RAX # Pushq RAX #
      Load 0x1478 R10 RAX # Pushq RAX # Load 0x18 R10 RAX # Pushq RAX # Leaq (-0xa8) RSP RSP # is) (mk r m x f z) =
    exec is (mk (r(R10 := gs, RAX := m (gs + 0x18), RSP := r RSP - 264)) (push_win64 gs r m) x f z)"
proof -
  let ?m1 = "put_cells 8 (r RSP - 64) (map r win64_regs) m" and ?r1 = "r(RSP := r RSP - 64)"
  have c12: "cells 8 (r RSP - 96) 12 = cells 8 (r RSP - 96) 4 @ cells 8 (r RSP - 64) 8"
    using cells_append [of 8 "r RSP - 96" 4 8] by simp
  have c4: "cells 8 (r RSP - 96) 4 = [r RSP - 96, r RSP - 88, r RSP - 80, r RSP - 72]"
    by (simp add: numeral_eq_Suc)
  have keep: "?m1 a = m a" if "a \<in> insert (gs + 0x30) (set (teb64 gs))" for a
    using that assms(4) unfolding c12 by (intro put_cells_other) (simp del: cells.simps, blast)
  have teb: "map ?m1 (teb64 gs) = map m (teb64 gs)" "?m1 (gs + 0x18) = m (gs + 0x18)" "?m1 (gs + 0x30) = gs"
    using keep assms(3) by (simp_all add: teb64_def)
  have d: "{?r1 RSP - 8, ?r1 RSP - 16, ?r1 RSP - 24, ?r1 RSP - 32} \<inter> insert (gs + 0x30) (set (teb64 gs)) = {}"
    using assms(4) unfolding c12 c4 by auto
  have al: "aligned (?r1 RSP)" using assms(1) by simp
  show ?thesis unfolding exec_push_regs [where r = r, OF assms(1)]
    exec_push_teb [where r = ?r1 and m = ?m1, OF al assms(2) teb(3) d] unfolding teb push_win64_def by simp
qed

definition push_xmm :: "uint64 \<Rightarrow> (reg \<Rightarrow> uint64) \<Rightarrow> uint32 \<Rightarrow> uint16 \<Rightarrow> (uint64 \<Rightarrow> uint64) \<Rightarrow> uint64 \<Rightarrow> uint64" where
  "push_xmm sp r x f m =
     (if r R9 = 0 then m else put_cells 8 sp (map r xmm_regs) (m(sp + 0xa0 := put_mid f (put_low x (m (sp + 0xa0))))))"

lemma aligned16_add: "aligned16 d \<Longrightarrow> aligned16 (a + d) \<longleftrightarrow> aligned16 a"
  using unat_add_mod [of 16 d a] by (simp add: aligned16_def)

lemma aligned16_numerals:
  "aligned16 0x10" "aligned16 0x20" "aligned16 0x30" "aligned16 0x40" "aligned16 0x50" "aligned16 0x60" "aligned16 0x70"
  "aligned16 0x80" "aligned16 0x90"
  by (simp_all add: aligned16_def)

lemmas aligned16_simps = aligned16_numerals [THEN aligned16_add]

lemma exec_push_xmm:
  assumes "aligned16 (r RSP)"
  shows "exec (Testq R9 # Je 12 # Stmxcsr_at 0xa0 RSP # Fnstcw_at 0xa4 RSP #
      Movaps_to 6 0 RSP # Movaps_to 7 0x10 RSP # Movaps_to 8 0x20 RSP # Movaps_to 9 0x30 RSP # Movaps_to 10 0x40 RSP #
      Movaps_to 11 0x50 RSP # Movaps_to 12 0x60 RSP # Movaps_to 13 0x70 RSP # Movaps_to 14 0x80 RSP # Movaps_to 15 0x90 RSP # is)
      (mk r m x f z) =
    exec is (mk r (push_xmm (r RSP) r x f m) x f (r R9 = 0))"
  using assms aligned16_aligned [OF assms]
  by (simp add: exec_simple exec_at exec_movaps aligned16_simps push_xmm_def xmm_regs_def add.assoc del: exec.simps)

definition pop_xmm :: "uint64 \<Rightarrow> (uint64 \<Rightarrow> uint64) \<Rightarrow> (reg \<Rightarrow> uint64) \<Rightarrow> reg \<Rightarrow> uint64" where
  "pop_xmm p m r = r(XL 6 := m p, XH 6 := m (p + 8), XL 7 := m (p + 16), XH 7 := m (p + 24), XL 8 := m (p + 32), XH 8 := m (p + 40),
     XL 9 := m (p + 48), XH 9 := m (p + 56), XL 10 := m (p + 64), XH 10 := m (p + 72), XL 11 := m (p + 80), XH 11 := m (p + 88),
     XL 12 := m (p + 96), XH 12 := m (p + 104), XL 13 := m (p + 112), XH 13 := m (p + 120), XL 14 := m (p + 128), XH 14 := m (p + 136),
     XL 15 := m (p + 144), XH 15 := m (p + 152))"

lemma exec_pop_xmm:
  assumes "aligned16 (r RSP)"
  shows "exec (Testq R9 # Je 12 # Ldmxcsr_at 0xa0 RSP # Fldcw_at 0xa4 RSP #
      Movaps_from 0 RSP 6 # Movaps_from 0x10 RSP 7 # Movaps_from 0x20 RSP 8 # Movaps_from 0x30 RSP 9 # Movaps_from 0x40 RSP 10 #
      Movaps_from 0x50 RSP 11 # Movaps_from 0x60 RSP 12 # Movaps_from 0x70 RSP 13 # Movaps_from 0x80 RSP 14 # Movaps_from 0x90 RSP 15 # is)
      (mk r m x f z) =
    (if r R9 = 0 then exec is (mk r m x f True)
     else exec is (mk (pop_xmm (r RSP) m r) m (get_low (m (r RSP + 0xa0))) (get_mid (m (r RSP + 0xa0))) False))"
  using assms aligned16_aligned [OF assms]
  by (simp add: exec_simple exec_at exec_movaps aligned16_simps pop_xmm_def add.assoc del: exec.simps)

section \<open>Continuing a context\<close>

definition pop_teb64 :: "uint64 \<Rightarrow> uint64 \<Rightarrow> (uint64 \<Rightarrow> uint64) \<Rightarrow> uint64 \<Rightarrow> uint64" where
  "pop_teb64 gs p m = m(gs + 0x18 := m p, gs + 0x1478 := m (p + 8), gs + 0x10 := m (p + 16), gs + 8 := m (p + 24))"

lemma exec_pop_teb:
  assumes "aligned (r RSP)" "aligned gs" "m (gs + 0x30) = gs"
    and "set (teb64 gs) \<inter> {r RSP, r RSP + 8, r RSP + 16, r RSP + 24} = {}"
  shows "exec (Load_gs (gs + 0x30) R10 # Popq RAX # Store RAX 0x18 R10 # Popq RAX # Store RAX 0x1478 R10 #
      Popq RAX # Store RAX 0x10 R10 # Popq RAX # Store RAX 0x8 R10 # is) (mk r m x f z) =
    exec is (mk (r(R10 := gs, RAX := m (r RSP + 24), RSP := r RSP + 32)) (pop_teb64 gs (r RSP) m) x f z)"
proof -
  have comm: "numeral k + gs = gs + numeral k" "numeral k + r RSP = r RSP + numeral k" for k by (rule add.commute)+
  show ?thesis using assms unfolding teb64_def
    by (simp add: run_simps pop_teb64_def comm fun_upd_twist add.assoc del: exec.simps)
qed

lemma exec_pop_regs:
  "aligned (r RSP) \<Longrightarrow>
   exec (Popq R12 # Popq R13 # Popq R14 # Popq R15 # Popq RDI # Popq RSI # Popq RBX # Popq RBP # Popq R10 #
     Movq R8 RAX # Movq R8 RCX # Jmp R10 # is) (mk r m x f z) =
   Some (m (r RSP + 64), mk (r(R12 := m (r RSP), R13 := m (r RSP + 8), R14 := m (r RSP + 16), R15 := m (r RSP + 24),
     RDI := m (r RSP + 32), RSI := m (r RSP + 40), RBX := m (r RSP + 48), RBP := m (r RSP + 56), R10 := m (r RSP + 64),
     RSP := r RSP + 72, RAX := r R8, RCX := r R8)) m x f z)"
  by (simp add: run_simps fun_upd_twist add.assoc del: exec.simps)

text \<open>Where the rest of a frame begins.\<close>

definition frame_rest :: "(uint64 \<Rightarrow> uint64) \<Rightarrow> uint64 \<Rightarrow> uint64" where
  "frame_rest m n = (if m n = 0 then n + 0xb0 else n + 0xb8)"

lemma exec_skip:
  "exec (Movabs 0xa8 RCX # Testq R10 # Je 1 # Addq 0x8 RCX # Leasumq RSP RCX RSP # is) (mk r m x f z) =
   exec is (mk (r(RCX := (if r R10 = 0 then 0xa8 else 0xb0), RSP := r RSP + (if r R10 = 0 then 0xa8 else 0xb0))) m x f (r R10 = 0))"
  by (simp add: run_simps del: exec.simps)

definition win64_saved :: "uint64 \<Rightarrow> (reg \<Rightarrow> uint64) \<Rightarrow> (uint64 \<Rightarrow> uint64) \<Rightarrow> uint32 \<Rightarrow> uint16 \<Rightarrow> uint64 \<Rightarrow> uint64" where
  "win64_saved gs r m x f =
     (push_xmm (r RSP - 264) r x f (push_win64 gs r m))(r RSP - 272 := 0, r RCX := r RSP - 272)"

lemma exec_swap:
  assumes "aligned (r RSP)" "aligned (r RCX)" "aligned (r RDX)"
  shows "exec (Xorq R10 # Pushq R10 # Store RSP 0 RCX # Movq RDX RSP # Popq R10 # is) (mk r m x f z) =
    (let m' = m(r RSP - 8 := 0, r RCX := r RSP - 8) in
     exec is (mk (r(R10 := m' (r RDX), RSP := r RDX + 8)) m' x f True))"
  using assms by (simp add: run_simps Let_def fun_upd_twist del: exec.simps)

lemma cells_8: "cells 8 (a :: uint64) 8 = [a, a + 8, a + 16, a + 24, a + 32, a + 40, a + 48, a + 56]"
  by (simp add: numeral_eq_Suc add.commute [of _ a] del: One_nat_def)

lemma cells_4: "cells 8 (a :: uint64) 4 = [a, a + 8, a + 16, a + 24]"
  by (simp add: numeral_eq_Suc add.commute [of _ a] del: One_nat_def)

lemma pop_xmm_other [simp]:
  "pop_xmm p m r RSP = r RSP" "pop_xmm p m r R8 = r R8" "pop_xmm p m r R9 = r R9" "pop_xmm p m r R10 = r R10"
  by (simp_all add: pop_xmm_def)

lemma pop_xmm_cells: "map (pop_xmm p m r) xmm_regs = map m (cells 8 p 20)"
  by (simp add: pop_xmm_def xmm_regs_def numeral_eq_Suc add.commute [of _ p] del: One_nat_def)

lemma exec_pop_regs_cells:
  assumes "aligned (r RSP)"
  shows "\<exists>r'. exec [Popq R12, Popq R13, Popq R14, Popq R15, Popq RDI, Popq RSI, Popq RBX, Popq RBP, Popq R10,
     Movq R8 RAX, Movq R8 RCX, Jmp R10] (mk r m x f z) = Some (m (r RSP + 64), mk r' m x f z) \<and>
   map r' win64_regs = map m (cells 8 (r RSP) 8) \<and> r' RSP = r RSP + 72 \<and> r' RAX = r R8 \<and> r' RCX = r R8 \<and>
   map r' xmm_regs = map r xmm_regs"
  unfolding exec_pop_regs [where r = r, OF assms]
  by (intro exI conjI, rule refl) (simp_all add: cells_8 win64_regs_def xmm_regs_def)

text \<open>What follows the floating-point state.\<close>

definition win64_tail :: "uint64 \<Rightarrow> instr list" where
  "win64_tail gs =
     [Movabs 0xa8 RCX, Testq R10, Je 1, Addq 0x8 RCX, Leasumq RSP RCX RSP,
      Load_gs (gs + 0x30) R10,
      Popq RAX, Store RAX 0x18 R10, Popq RAX, Store RAX 0x1478 R10,
      Popq RAX, Store RAX 0x10 R10, Popq RAX, Store RAX 0x8 R10,
      Popq R12, Popq R13, Popq R14, Popq R15, Popq RDI, Popq RSI, Popq RBX, Popq RBP, Popq R10,
      Movq R8 RAX, Movq R8 RCX, Jmp R10]"

lemma exec_tail:
  fixes m :: "uint64 \<Rightarrow> uint64"
  assumes "aligned (r RSP)" "aligned gs" "m (gs + 0x30) = gs"
    and p: "p = r RSP + (if r R10 = 0 then 0xa8 else 0xb0)" and disj: "set (teb64 gs) \<inter> set (cells 8 p 4) = {}"
  defines "m' \<equiv> pop_teb64 gs p m"
  shows "\<exists>r'. exec (win64_tail gs) (mk r m x f z) = Some (m' (p + 96), mk r' m' x f (r R10 = 0)) \<and>
    map r' win64_regs = map m' (cells 8 (p + 32) 8) \<and> r' RSP = p + 104 \<and> r' RAX = r R8 \<and> r' RCX = r R8 \<and>
    map r' xmm_regs = map r xmm_regs"
proof -
  let ?r1 = "r(RCX := (if r R10 = 0 then 0xa8 else 0xb0), RSP := r RSP + (if r R10 = 0 then 0xa8 else 0xb0))"
  let ?r2 = "?r1(R10 := gs, RAX := m (?r1 RSP + 24), RSP := ?r1 RSP + 32)"
  have rsp: "?r1 RSP = p" by (simp add: p)
  have al: "aligned (?r1 RSP)" "aligned (?r2 RSP)" using assms(1) by simp_all
  have d: "set (teb64 gs) \<inter> {?r1 RSP, ?r1 RSP + 8, ?r1 RSP + 16, ?r1 RSP + 24} = {}"
    using disj unfolding rsp cells_4 by simp
  obtain r' where r': "exec (win64_tail gs) (mk r m x f z) = Some (m' (?r2 RSP + 64), mk r' m' x f (r R10 = 0))"
    "map r' win64_regs = map m' (cells 8 (?r2 RSP) 8)" "r' RSP = ?r2 RSP + 72" "r' RAX = ?r2 R8" "r' RCX = ?r2 R8"
    "map r' xmm_regs = map ?r2 xmm_regs"
    using exec_pop_regs_cells [where r = ?r2 and m = m' and x = x and f = f and z = "r R10 = 0", OF al(2)]
    unfolding win64_tail_def exec_skip exec_pop_teb [where r = ?r1 and m = m, OF al(1) assms(2,3) d] rsp m'_def by blast
  have sp: "?r2 RSP = p + 32" by (simp add: p)
  have "map ?r2 xmm_regs = map r xmm_regs" by (simp add: xmm_regs_def)
  with r' show ?thesis unfolding sp by (intro exI [of _ r']) (simp add: add.assoc del: cells.simps)
qed

lemma exec_arrive:
  fixes m :: "uint64 \<Rightarrow> uint64"
  assumes "aligned16 (r RSP)" "aligned gs" "m (gs + 0x30) = gs"
    and "p = r RSP + (if r R10 = 0 then 0xa8 else 0xb0)" "set (teb64 gs) \<inter> set (cells 8 p 4) = {}"
  defines "m' \<equiv> pop_teb64 gs p m"
  shows "\<exists>r' x' f' z'. exec (Testq R9 # Je 12 # Ldmxcsr_at 0xa0 RSP # Fldcw_at 0xa4 RSP #
      Movaps_from 0 RSP 6 # Movaps_from 0x10 RSP 7 # Movaps_from 0x20 RSP 8 # Movaps_from 0x30 RSP 9 # Movaps_from 0x40 RSP 10 #
      Movaps_from 0x50 RSP 11 # Movaps_from 0x60 RSP 12 # Movaps_from 0x70 RSP 13 # Movaps_from 0x80 RSP 14 # Movaps_from 0x90 RSP 15 #
      win64_tail gs) (mk r m x f z) = Some (m' (p + 96), mk r' m' x' f' z') \<and>
    map r' win64_regs = map m' (cells 8 (p + 32) 8) \<and> r' RSP = p + 104 \<and> r' RAX = r R8 \<and> r' RCX = r R8 \<and>
    (if r R9 = 0 then x' = x \<and> f' = f \<and> map r' xmm_regs = map r xmm_regs
     else x' = get_low (m (r RSP + 0xa0)) \<and> f' = get_mid (m (r RSP + 0xa0)) \<and> map r' xmm_regs = map m (cells 8 (r RSP) 20))"
proof (cases "r R9 = 0")
  case True
  have "aligned (r RSP)" using aligned16_aligned [OF assms(1)] by simp
  note tail = exec_tail [where r = r and m = m and x = x and f = f and z = True, OF this assms(2-5)]
  show ?thesis unfolding exec_pop_xmm [where r = r, OF assms(1)] m'_def if_P [OF True] using tail by blast
next
  case False
  let ?r1 = "pop_xmm (r RSP) m r"
  have "aligned (?r1 RSP)" "p = ?r1 RSP + (if ?r1 R10 = 0 then 0xa8 else 0xb0)"
    using aligned16_aligned [OF assms(1)] assms(4) by simp_all
  note tail = exec_tail [where r = ?r1 and m = m and x = "get_low (m (r RSP + 0xa0))" and f = "get_mid (m (r RSP + 0xa0))" and z = False,
      OF this(1) assms(2,3) this(2) assms(5), unfolded pop_xmm_other]
  show ?thesis unfolding exec_pop_xmm [where r = r, OF assms(1)] m'_def if_not_P [OF False] pop_xmm_cells [symmetric, of _ _ r]
    using tail by blast
qed

section \<open>Frames\<close>

text \<open>The cells of a frame, for both positions of its rest, and its parts when it is not moved up.\<close>

definition win64_area :: "uint64 \<Rightarrow> uint64 set" where
  "win64_area sp = set (cells 8 sp 36)"

lemma win64_cells:
  "cells 8 (sp :: uint64) 36 =
     sp # cells 8 (sp + 8) 20 @ (sp + 168) # cells 8 (sp + 176) 4 @ cells 8 (sp + 208) 8 @ [sp + 272, sp + 280]"
proof -
  have a: "cells 8 sp (1 + (20 + (1 + (4 + (8 + 2))))) = cells 8 sp 1 @ cells 8 (sp + 8) 20 @ cells 8 (sp + 168) 1 @
      cells 8 (sp + 176) 4 @ cells 8 (sp + 208) 8 @ cells 8 (sp + 272) 2"
    by (simp only: cells_append) (simp add: add.assoc del: cells.simps)
  have "cells 8 sp 36 = cells 8 sp (1 + (20 + (1 + (4 + (8 + 2)))))" by (rule arg_cong [of _ _ "cells 8 sp"]) simp
  moreover have "cells 8 sp 1 = [sp]" "cells 8 (sp + 168) 1 = [sp + 168]" "cells 8 (sp + 272) 2 = [sp + 272, sp + 280]"
    by (simp_all add: numeral_2_eq_2 add.assoc)
  ultimately show ?thesis using a by (simp del: cells.simps)
qed

lemma win64_distinct: "distinct (cells 8 (sp :: uint64) 36)"
  by (rule distinct_cells) simp_all

lemma frame_rest_area: "set (cells 8 (frame_rest m n) 13) \<subseteq> win64_area n"
proof -
  have c: "cells 8 n 36 = cells 8 n 22 @ cells 8 (n + 176) 14" using cells_append [of 8 n 22 14] by simp
  have "cells 8 (n + 176) 14 = (n + 176) # cells 8 (n + 184) 13" "cells 8 (n + 176) 14 = cells 8 (n + 176) 13 @ [n + 280]"
    using cells_append [of 8 "n + 176" 1 13] cells_append [of 8 "n + 176" 13 1] by (simp_all add: add.assoc)
  then have "set (cells 8 (n + 184) 13) \<subseteq> set (cells 8 (n + 176) 14)" "set (cells 8 (n + 176) 13) \<subseteq> set (cells 8 (n + 176) 14)"
    by (metis set_subset_Cons, metis set_append Un_upper1)
  then have "set (cells 8 (n + 184) 13) \<subseteq> win64_area n" "set (cells 8 (n + 176) 13) \<subseteq> win64_area n"
    unfolding win64_area_def c by auto
  then show ?thesis by (simp add: frame_rest_def)
qed

lemma frame_rest_cells: "cells 8 (p :: uint64) 13 = cells 8 p 4 @ cells 8 (p + 32) 8 @ [p + 96]"
  using cells_append [of 8 p 4 9] cells_append [of 8 "p + 32" 8 1] by (simp add: add.assoc)

lemma win64_saved_other:
  assumes "a \<notin> win64_area (r RSP - 272)" "a \<noteq> r RCX"
  shows "win64_saved gs r m x f a = m a"
proof -
  have "a \<notin> set (cells 8 (r RSP - 264) 20)" "a \<notin> set (cells 8 (r RSP - 96) 4)" "a \<notin> set (cells 8 (r RSP - 64) 8)"
    "a \<noteq> r RSP - 272" "a \<noteq> r RSP - 104"
    using assms(1) unfolding win64_area_def win64_cells by (simp_all del: cells.simps)
  then show ?thesis using assms(2) by (simp add: win64_saved_def push_xmm_def push_win64_def put_cells_other)
qed

lemma win64_saved_frame:
  fixes gs :: uint64 and m :: "uint64 \<Rightarrow> uint64" and x :: uint32 and f :: uint16
  assumes "r RCX \<notin> win64_area (r RSP - 272)"
  defines "m' \<equiv> win64_saved gs r m x f"
  shows "map m' (cells 8 (r RSP - 64) 8) = map r win64_regs" "map m' (cells 8 (r RSP - 96) 4) = map m (teb64 gs)"
    "m' (r RSP - 272) = 0" "m' (r RSP) = m (r RSP)" "m' (r RCX) = r RSP - 272"
    "r R9 \<noteq> 0 \<Longrightarrow> map m' (cells 8 (r RSP - 264) 20) = map r xmm_regs"
    "r R9 \<noteq> 0 \<Longrightarrow> get_low (m' (r RSP - 104)) = x \<and> get_mid (m' (r RSP - 104)) = f"
proof -
  let ?E = "r RSP" and ?F = "cells 8 (r RSP - 272) 36"
  let ?m1 = "put_cells 8 (?E - 64) (map r win64_regs) m"
  let ?m2 = "put_cells 8 (?E - 96) (map m (teb64 gs)) ?m1"
  have F: "?F = (?E - 272) # cells 8 (?E - 264) 20 @ (?E - 104) # cells 8 (?E - 96) 4 @ cells 8 (?E - 64) 8 @ [?E, ?E + 8]"
    unfolding win64_cells by simp
  note dist = win64_distinct [of "?E - 272", unfolded F]
  have "r RCX \<notin> set ?F" using assms(1) by (simp add: win64_area_def)
  then have rcx: "m' a = ((push_xmm (?E - 264) r x f ?m2)(?E - 272 := 0)) a" if "a \<in> set ?F" for a
    using that by (auto simp: m'_def win64_saved_def push_win64_def)
  show "m' (r RCX) = ?E - 272" "m' (?E - 272) = 0" using rcx [of "?E - 272"] by (simp_all add: m'_def win64_saved_def F)
  have low: "m' a = ?m2 a" if "a \<in> set (cells 8 (?E - 96) 4 @ cells 8 (?E - 64) 8 @ [?E])" for a
  proof -
    have "a \<notin> set (cells 8 (?E - 264) 20)" "a \<noteq> ?E - 104" "a \<noteq> ?E - 272" using that dist by auto
    moreover have "a \<in> set ?F" using that unfolding F by auto
    ultimately show ?thesis using rcx by (simp add: push_xmm_def put_cells_other)
  qed
  have in1: "?m2 a = ?m1 a" if "a \<in> set (cells 8 (?E - 64) 8 @ [?E])" for a
    using that dist by (intro put_cells_other) auto
  have "map m' (cells 8 (?E - 64) 8) = map ?m1 (cells 8 (?E - 64) 8)" using low in1 by (auto simp del: cells.simps)
  also have "\<dots> = map r win64_regs" using put_cells_get [of 8 "?E - 64" "map r win64_regs" m] dist by simp
  finally show "map m' (cells 8 (?E - 64) 8) = map r win64_regs" .
  have "map m' (cells 8 (?E - 96) 4) = map ?m2 (cells 8 (?E - 96) 4)" using low by (auto simp del: cells.simps)
  also have "\<dots> = map m (teb64 gs)" using put_cells_get [of 8 "?E - 96" "map m (teb64 gs)" ?m1] dist by simp
  finally show "map m' (cells 8 (?E - 96) 4) = map m (teb64 gs)" .
  have "?m1 ?E = m ?E" using dist by (intro put_cells_other) auto
  then show "m' ?E = m ?E" using low [of ?E] in1 [of ?E] by simp
  assume fpu: "r R9 \<noteq> 0"
  let ?m3 = "?m2(?E - 104 := put_mid f (put_low x (?m2 (?E - 104))))"
  have m3: "m' a = put_cells 8 (?E - 264) (map r xmm_regs) ?m3 a" if "a \<in> set (cells 8 (?E - 264) 20 @ [?E - 104])" for a
  proof -
    have "a \<noteq> ?E - 272" "a \<in> set ?F" using that dist unfolding F by auto
    then show ?thesis using rcx fpu by (simp add: push_xmm_def)
  qed
  then have "map m' (cells 8 (?E - 264) 20) = map (put_cells 8 (?E - 264) (map r xmm_regs) ?m3) (cells 8 (?E - 264) 20)"
    by (auto simp del: cells.simps)
  also have "\<dots> = map r xmm_regs" using put_cells_get [of 8 "?E - 264" "map r xmm_regs" ?m3] dist by simp
  finally show "map m' (cells 8 (?E - 264) 20) = map r xmm_regs" .
  have "put_cells 8 (?E - 264) (map r xmm_regs) ?m3 (?E - 104) = ?m3 (?E - 104)" using dist by (intro put_cells_other) auto
  with m3 [of "?E - 104"] show "get_low (m' (?E - 104)) = x \<and> get_mid (m' (?E - 104)) = f" by simp
qed

section \<open>The laws of a context switch\<close>

text \<open>
  The stack and the frame to continue are aligned as the calling convention has them inside a
  function, the block has its own address where the code looks for it, and no frame overlaps it.
\<close>

definition win64_own :: "machine \<Rightarrow> uint64" where
  "win64_own s = m_reg s RSP - 272"

definition win64_ok :: "uint64 \<Rightarrow> machine \<Rightarrow> bool" where
  "win64_ok gs s \<longleftrightarrow> unat (m_reg s RSP) mod 16 = 8 \<and> unat (m_reg s RDX) mod 16 = 8 \<and> aligned (m_reg s RCX) \<and> aligned gs \<and>
     m_mem s (gs + 0x30) = gs \<and> m_reg s RCX \<noteq> gs + 0x30 \<and>
     insert (gs + 0x30) (set (teb64 gs)) \<inter> win64_area (win64_own s) = {} \<and> set (teb64 gs) \<inter> win64_area (m_reg s RDX) = {}"

definition win64_mem0 :: "uint64 \<Rightarrow> machine \<Rightarrow> uint64 \<Rightarrow> uint64" where
  "win64_mem0 gs s = win64_saved gs (m_reg s) (m_mem s) (m_mxcsr s) (m_fcw s)"

definition win64_ctx :: "(uint64 \<Rightarrow> uint64) \<Rightarrow> uint64 \<Rightarrow> uint64 \<times> uint64 list" where
  "win64_ctx f sp = (let p = frame_rest f sp in (f (p + 96), map f (cells 8 (p + 32) 8) @ [p + 104] @ map f (cells 8 p 4)))"

definition win64_view :: "uint64 \<Rightarrow> machine \<Rightarrow> uint64 list" where
  "win64_view gs s = map (m_reg s) win64_regs @ [m_reg s RSP] @ map (m_mem s) (teb64 gs)"

definition win64_resume :: "uint64 \<Rightarrow> machine \<Rightarrow> uint64 \<times> uint64 list" where
  "win64_resume gs s = (m_mem s (m_reg s RSP), map (m_reg s) win64_regs @ [m_reg s RSP + 8] @ map (m_mem s) (teb64 gs))"

definition win64_fpu :: "machine \<Rightarrow> uint32 \<times> uint16 \<times> uint64 list" where
  "win64_fpu s = (m_mxcsr s, m_fcw s, map (m_reg s) xmm_regs)"

definition win64_fpu_ctx :: "(uint64 \<Rightarrow> uint64) \<Rightarrow> uint64 \<Rightarrow> uint32 \<times> uint16 \<times> uint64 list" where
  "win64_fpu_ctx f sp = (get_low (f (sp + 0xa8)), get_mid (f (sp + 0xa8)), map f (cells 8 (sp + 8) 20))"

lemma aligned_mod_16: "unat a mod 16 = 8 \<Longrightarrow> aligned a"
  unfolding aligned_def by presburger

lemma aligned16_of_8: "unat a mod 16 = 8 \<Longrightarrow> aligned16 (a + 8)"
proof -
  assume a: "unat a mod 16 = 8"
  have "unat (a + 8) mod 16 = (unat a + 8) mod 16" by (simp add: unat_word_ariths mod_mod_cancel)
  also have "\<dots> = 0" using a by presburger
  finally show ?thesis by (simp add: aligned16_def)
qed

text \<open>The first half of the switch, up to the frame to continue.\<close>

lemma exec_leave:
  fixes r :: "reg \<Rightarrow> uint64" and m :: "uint64 \<Rightarrow> uint64"
  assumes "aligned (r RSP)" "aligned16 (r RSP - 264)" "aligned (r RCX)" "aligned (r RDX)" "aligned gs" "m (gs + 0x30) = gs"
    and "insert (gs + 0x30) (set (teb64 gs)) \<inter> win64_area (r RSP - 272) = {}"
  shows "\<exists>v. exec (win64_jump_fcontext gs) (mk r m x f z) = exec (Testq R9 # Je 12 # Ldmxcsr_at 0xa0 RSP # Fldcw_at 0xa4 RSP #
      Movaps_from 0 RSP 6 # Movaps_from 0x10 RSP 7 # Movaps_from 0x20 RSP 8 # Movaps_from 0x30 RSP 9 # Movaps_from 0x40 RSP 10 #
      Movaps_from 0x50 RSP 11 # Movaps_from 0x60 RSP 12 # Movaps_from 0x70 RSP 13 # Movaps_from 0x80 RSP 14 # Movaps_from 0x90 RSP 15 #
      win64_tail gs)
    (let m0 = win64_saved gs r m x f in mk (r(RAX := v, R10 := m0 (r RDX), RSP := r RDX + 8)) m0 x f True)"
proof -
  let ?E = "r RSP" and ?m0 = "win64_saved gs r m x f"
  have "set (cells 8 (?E - 96) 12) \<subseteq> win64_area (?E - 272)"
    using cells_append [of 8 "?E - 96" 4 8] by (simp add: win64_area_def win64_cells del: cells.simps) blast
  then have d: "set (cells 8 (?E - 96) 12) \<inter> insert (gs + 0x30) (set (teb64 gs)) = {}" using assms(7) by blast
  let ?r0 = "r(R10 := gs, RAX := m (gs + 0x18), RSP := ?E - 264)"
  have m0: "(push_xmm (?E - 264) ?r0 x f (push_win64 gs r m))(?E - 272 := 0, r RCX := ?E - 272) = ?m0"
    by (simp add: win64_saved_def push_xmm_def xmm_regs_def)
  have al: "aligned16 (?r0 RSP)" "aligned (?r0 RSP)" "aligned (?r0 RCX)" "aligned (?r0 RDX)" using assms(1-4) by simp_all
  have "exec (win64_jump_fcontext gs) (mk r m x f z) = exec (Testq R9 # Je 12 # Ldmxcsr_at 0xa0 RSP # Fldcw_at 0xa4 RSP #
      Movaps_from 0 RSP 6 # Movaps_from 0x10 RSP 7 # Movaps_from 0x20 RSP 8 # Movaps_from 0x30 RSP 9 # Movaps_from 0x40 RSP 10 #
      Movaps_from 0x50 RSP 11 # Movaps_from 0x60 RSP 12 # Movaps_from 0x70 RSP 13 # Movaps_from 0x80 RSP 14 # Movaps_from 0x90 RSP 15 #
      win64_tail gs)
      (let m0 = ?m0 in mk (r(RAX := m (gs + 0x18), R10 := m0 (r RDX), RSP := r RDX + 8)) m0 x f True)"
    unfolding win64_jump_fcontext_def win64_tail_def exec_push_win64 [where r = r and m = m, OF assms(1,5,6) d]
      exec_push_xmm [where r = ?r0, OF al(1)] exec_swap [where r = ?r0, OF al(2-4)]
    using m0 by (simp add: Let_def fun_upd_twist del: exec.simps)
  then show ?thesis by blast
qed

lemma win64_jumps:
  fixes s :: machine and gs :: uint64
  assumes "win64_ok gs s"
  defines "m0 \<equiv> win64_mem0 gs s" and "n \<equiv> m_reg s RDX"
  defines "m1 \<equiv> pop_teb64 gs (frame_rest m0 n) m0"
  shows "\<exists>s'. exec (win64_jump_fcontext gs) s = Some (m1 (frame_rest m0 n + 96), s') \<and> m_mem s' = m1 \<and>
    map (m_reg s') win64_regs = map m1 (cells 8 (frame_rest m0 n + 32) 8) \<and> m_reg s' RSP = frame_rest m0 n + 104 \<and>
    m_reg s' RAX = m_reg s R8 \<and> m_reg s' RCX = m_reg s R8 \<and>
    (if m_reg s R9 = 0 then win64_fpu s' = win64_fpu s else win64_fpu s' = win64_fpu_ctx m0 n)"
proof -
  define r m x f where "r = m_reg s" and "m = m_mem s" and "x = m_mxcsr s" and "f = m_fcw s"
  let ?E = "r RSP" and ?p = "frame_rest m0 n"
  have s: "mk r m x f (m_zf s) = s" unfolding r_def m_def x_def f_def by (rule mk_surj [symmetric])
  have ok: "aligned ?E" "aligned (r RCX)" "aligned (r RDX)" "aligned gs" "m (gs + 0x30) = gs" "aligned16 (n + 8)"
    "insert (gs + 0x30) (set (teb64 gs)) \<inter> win64_area (?E - 272) = {}" "set (teb64 gs) \<inter> win64_area n = {}" "r RCX \<noteq> gs + 0x30"
    "unat ?E mod 16 = 8"
    using assms(1) aligned_mod_16 aligned16_of_8 by (simp_all add: win64_ok_def r_def m_def n_def win64_own_def)
  have "aligned16 272" "?E - 264 + 272 = ?E + 8" by (simp_all add: aligned16_def)
  then have al: "aligned16 (?E - 264)" using ok(10) by (metis aligned16_of_8 aligned16_add)
  have rdx: "r RDX = n" by (simp add: r_def n_def)
  have m0: "win64_saved gs r m x f = m0" by (simp add: m0_def win64_mem0_def r_def m_def x_def f_def)
  obtain v where e: "exec (win64_jump_fcontext gs) s = exec (Testq R9 # Je 12 # Ldmxcsr_at 0xa0 RSP # Fldcw_at 0xa4 RSP #
      Movaps_from 0 RSP 6 # Movaps_from 0x10 RSP 7 # Movaps_from 0x20 RSP 8 # Movaps_from 0x30 RSP 9 # Movaps_from 0x40 RSP 10 #
      Movaps_from 0x50 RSP 11 # Movaps_from 0x60 RSP 12 # Movaps_from 0x70 RSP 13 # Movaps_from 0x80 RSP 14 # Movaps_from 0x90 RSP 15 #
      win64_tail gs) (mk (r(RAX := v, R10 := m0 n, RSP := n + 8)) m0 x f True)"
    using exec_leave [where r = r and m = m and x = x and f = f and z = "m_zf s", OF ok(1) al ok(2-5,7)]
    unfolding s m0 Let_def rdx by blast
  let ?r1 = "r(RAX := v, R10 := m0 n, RSP := n + 8)"
  have "m0 (gs + 0x30) = gs" using ok(5,7,9) win64_saved_other [of "gs + 0x30" r gs m x f]
    unfolding m0 by auto
  moreover have "set (teb64 gs) \<inter> set (cells 8 ?p 4) = {}"
    using frame_rest_area [of m0 n, unfolded frame_rest_cells] ok(8) by (auto simp del: cells.simps)
  moreover have "?p = ?r1 RSP + (if ?r1 R10 = 0 then 0xa8 else 0xb0)" by (simp add: frame_rest_def)
  moreover have "aligned16 (?r1 RSP)" using ok(6) by simp
  ultimately obtain r' x' f' z' where r': "exec (win64_jump_fcontext gs) s = Some (m1 (?p + 96), mk r' m1 x' f' z')"
    "map r' win64_regs = map m1 (cells 8 (?p + 32) 8)" "r' RSP = ?p + 104" "r' RAX = r R8" "r' RCX = r R8"
    "if r R9 = 0 then x' = x \<and> f' = f \<and> map r' xmm_regs = map ?r1 xmm_regs
     else x' = get_low (m0 (n + 8 + 0xa0)) \<and> f' = get_mid (m0 (n + 8 + 0xa0)) \<and> map r' xmm_regs = map m0 (cells 8 (n + 8) 20)"
    using exec_arrive [where r = ?r1 and m = m0 and p = ?p and x = x and f = f and z = True and gs = gs] ok(4) unfolding e m1_def by auto
  have "map ?r1 xmm_regs = map r xmm_regs" by (simp add: xmm_regs_def)
  with r'(6) have "win64_fpu (mk r' m1 x' f' z') = (if r R9 = 0 then win64_fpu s else win64_fpu_ctx m0 n)"
    by (simp add: win64_fpu_def win64_fpu_ctx_def mk_def r_def x_def f_def add.assoc del: cells.simps map_eq_conv split: if_splits)
  with r'(1-5) show ?thesis by (intro exI [of _ "mk r' m1 x' f' z'"]) (simp add: mk_def r_def del: cells.simps)
qed

lemma pop_teb64_other: "a \<notin> set (teb64 gs) \<Longrightarrow> pop_teb64 gs p m a = m a"
  by (simp add: pop_teb64_def teb64_def)

lemma pop_teb64_cells: "map (pop_teb64 gs p m) (teb64 gs) = map m (cells 8 p 4)"
  unfolding cells_4 by (simp add: pop_teb64_def teb64_def)

lemma win64_ctx_local:
  assumes "\<And>a. a \<in> win64_area sp \<Longrightarrow> f a = g a"
  shows "win64_ctx f sp = win64_ctx g sp" "win64_fpu_ctx f sp = win64_fpu_ctx g sp"
proof -
  have "sp \<in> win64_area sp" unfolding win64_area_def win64_cells by simp
  then have p: "frame_rest f sp = frame_rest g sp" using assms by (simp add: frame_rest_def)
  have "f a = g a" if "a \<in> set (cells 8 (frame_rest g sp) 13)" for a using that assms frame_rest_area by blast
  then show "win64_ctx f sp = win64_ctx g sp"
    unfolding win64_ctx_def Let_def p frame_rest_cells by (simp del: cells.simps)
  show "win64_fpu_ctx f sp = win64_fpu_ctx g sp"
    using assms unfolding win64_fpu_ctx_def win64_area_def win64_cells by (simp del: cells.simps)
qed

lemma win64_jump_mem:
  "win64_ok gs s \<Longrightarrow> exec (win64_jump_fcontext gs) s = Some (k, s') \<Longrightarrow> a \<notin> set (teb64 gs) \<Longrightarrow> m_mem s' a = win64_mem0 gs s a"
  using win64_jumps [of gs s] pop_teb64_other by fastforce

lemma win64_ctx_mem0:
  assumes "m_reg s RCX \<notin> win64_area (win64_own s)"
  shows "win64_ctx (win64_mem0 gs s) (win64_own s) = win64_resume gs s" "win64_mem0 gs s (m_reg s RCX) = win64_own s"
    "m_reg s R9 \<noteq> 0 \<Longrightarrow> win64_fpu_ctx (win64_mem0 gs s) (win64_own s) = win64_fpu s"
proof -
  note saved = win64_saved_frame [of "m_reg s" gs "m_mem s" "m_mxcsr s" "m_fcw s", OF assms [unfolded win64_own_def]]
  have "frame_rest (win64_mem0 gs s) (win64_own s) = m_reg s RSP - 96"
    using saved(3) by (simp add: frame_rest_def win64_own_def win64_mem0_def)
  then show "win64_ctx (win64_mem0 gs s) (win64_own s) = win64_resume gs s"
    using saved(1,2,4) by (simp add: win64_ctx_def win64_resume_def win64_mem0_def del: cells.simps map_eq_conv)
  show "win64_mem0 gs s (m_reg s RCX) = win64_own s" using saved(5) by (simp add: win64_mem0_def win64_own_def)
  show "win64_fpu_ctx (win64_mem0 gs s) (win64_own s) = win64_fpu s" if "m_reg s R9 \<noteq> 0"
    using saved(6,7) [OF that] by (simp add: win64_fpu_ctx_def win64_fpu_def win64_mem0_def win64_own_def del: cells.simps map_eq_conv)
qed

interpretation win64: context_switch_fpu "exec (win64_jump_fcontext gs)" m_mem "win64_ok gs" win64_own "\<lambda>s. m_reg s RCX"
  "\<lambda>s. m_reg s RDX" "\<lambda>s. m_reg s R8" "\<lambda>s. m_reg s RAX" "win64_resume gs" "win64_view gs" win64_ctx win64_area "\<lambda>_. set (teb64 gs)"
  "\<lambda>s. m_reg s R9 \<noteq> 0" win64_fpu win64_fpu_ctx
  for gs
proof (unfold_locales, goal_cases)
  case (1 s)
  let ?n = "m_reg s RDX" and ?m0 = "win64_mem0 gs s"
  let ?p = "frame_rest ?m0 ?n" and ?m1 = "pop_teb64 gs (frame_rest ?m0 ?n) ?m0"
  obtain s' where s': "exec (win64_jump_fcontext gs) s = Some (?m1 (?p + 96), s')" "m_mem s' = ?m1"
    "map (m_reg s') win64_regs = map ?m1 (cells 8 (?p + 32) 8)" "m_reg s' RSP = ?p + 104" "m_reg s' RAX = m_reg s R8"
    using win64_jumps [OF 1(1)] by auto
  have m1: "?m1 a = ?m0 a" if "a \<in> win64_area ?n" for a using that 1(2) by (intro pop_teb64_other) blast
  have ctx: "win64_ctx ?m1 ?n = win64_ctx ?m0 ?n" by (rule win64_ctx_local) (rule m1)
  have "?m1 a = ?m0 a" if "a \<in> set (cells 8 ?p 13)" for a using m1 that frame_rest_area by blast
  then have "?m1 (?p + 96) = ?m0 (?p + 96)" "map ?m1 (cells 8 (?p + 32) 8) = map ?m0 (cells 8 (?p + 32) 8)"
    unfolding frame_rest_cells by (simp_all del: cells.simps)
  then have "win64_ctx (m_mem s') ?n = (?m1 (?p + 96), win64_view gs s')"
    unfolding s'(2) ctx using s'(2-4)
    by (simp add: win64_ctx_def win64_view_def Let_def pop_teb64_cells del: cells.simps map_eq_conv)
  with s'(1,5) show ?case by simp
next
  case (2 s k s')
  have "m_mem s' a = win64_mem0 gs s a" if "a \<in> insert (m_reg s RCX) (win64_area (win64_own s))" for a
    using win64_jump_mem [OF 2(1,4)] 2(3) that by blast
  then have "win64_ctx (m_mem s') (win64_own s) = win64_ctx (win64_mem0 gs s) (win64_own s)"
    "m_mem s' (m_reg s RCX) = win64_mem0 gs s (m_reg s RCX)" by (auto intro: win64_ctx_local)
  then show ?case using win64_ctx_mem0 [OF 2(2)] by simp
next
  case (3 s k s' a)
  then show ?case by (simp add: win64_jump_mem [OF 3(1,2)] win64_mem0_def win64_saved_other win64_own_def)
next
  case (4 sp f g)
  then show ?case by (rule win64_ctx_local)
next
  case (5 s k s')
  have "m_mem s' a = win64_mem0 gs s a" if "a \<in> win64_area (m_reg s RDX)" for a
    using win64_jump_mem [OF 5(1,4)] 5(3) that by blast
  then have fpu: "win64_fpu_ctx (m_mem s') (m_reg s RDX) = win64_fpu_ctx (win64_mem0 gs s) (m_reg s RDX)" by (rule win64_ctx_local)
  show ?case unfolding fpu using win64_jumps [OF 5(1)] 5(2,4) by auto
next
  case (6 s k s')
  have "m_mem s' a = win64_mem0 gs s a" if "a \<in> win64_area (win64_own s)" for a
    using win64_jump_mem [OF 6(1,5)] 6(4) that by blast
  then have fpu: "win64_fpu_ctx (m_mem s') (win64_own s) = win64_fpu_ctx (win64_mem0 gs s) (win64_own s)" by (rule win64_ctx_local)
  show ?case unfolding fpu using win64_ctx_mem0(3) [OF 6(3,2)] by simp
next
  case (7 sp f g)
  then show ?case by (rule win64_ctx_local)
qed

section \<open>Round trip\<close>

text \<open>
  On Windows a switch away and back restores the callee-saved registers of that system, the bounds
  of the stack in the thread environment block and, if both calls ask for it, the control
  words and the ten SSE registers.
\<close>

lemma win64_jump_fcontext_round_trip:
  assumes "win64_ok gs s" "m_reg s RCX \<notin> win64_area (win64_own s)"
    and "set (teb64 gs) \<inter> insert (m_reg s RCX) (win64_area (win64_own s)) = {}"
    and "exec (win64_jump_fcontext gs) s = Some (k, s1)"
    and "win64_ok gs t" "m_reg t RDX = m_mem s1 (m_reg s RCX)" "\<forall>a \<in> win64_area (win64_own s). m_mem t a = m_mem s1 a"
    and "insert (m_reg t RCX) (win64_area (win64_own t)) \<inter> win64_area (win64_own s) = {}"
  shows "\<exists>t1. exec (win64_jump_fcontext gs) t = Some (m_mem s (m_reg s RSP), t1) \<and>
    (\<forall>r \<in> {R12, R13, R14, R15, RDI, RSI, RBX, RBP}. m_reg t1 r = m_reg s r) \<and> m_reg t1 RSP = m_reg s RSP + 8 \<and>
    m_reg t1 RAX = m_reg t R8 \<and> (\<forall>a \<in> set (teb64 gs). m_mem t1 a = m_mem s a) \<and>
    (m_reg s R9 \<noteq> 0 \<and> m_reg t R9 \<noteq> 0 \<longrightarrow> m_mxcsr t1 = m_mxcsr s \<and> m_fcw t1 = m_fcw s \<and>
      (\<forall>n \<in> {6..15}. m_reg t1 (XL n) = m_reg s (XL n) \<and> m_reg t1 (XH n) = m_reg s (XH n)))"
proof -
  have n: "m_reg t RDX = win64_own s" using win64.saves [OF assms(1-4)] assms(6) by simp
  have "set (teb64 gs) \<inter> win64_area (win64_own s) = {}" using assms(5) unfolding win64_ok_def n by simp
  then have ap: "win64.apart gs t (win64_own s)" using assms(8) unfolding win64.apart_def n by auto
  obtain t1 where t1: "exec (win64_jump_fcontext gs) t = Some (fst (win64_resume gs s), t1)"
    "win64_view gs t1 = snd (win64_resume gs s)" "m_reg t1 RAX = m_reg t R8"
    using win64.round_trip [OF assms(1-7) ap] by auto
  have regs: "map (m_reg t1) win64_regs = map (m_reg s) win64_regs" "m_reg t1 RSP = m_reg s RSP + 8"
    "map (m_mem t1) (teb64 gs) = map (m_mem s) (teb64 gs)"
    using t1(2) by (simp_all add: win64_view_def win64_resume_def)
  have fpu: "win64_fpu t1 = win64_fpu s" if "m_reg s R9 \<noteq> 0" "m_reg t R9 \<noteq> 0"
    using win64.fpu_round_trip [OF assms(1) that(1) assms(2-5) that(2) assms(6,7) ap t1(1)] .
  have xmm: "set xmm_regs = XL ` {6..15} \<union> XH ` {6..15}" by code_simp
  have "set win64_regs = {R12, R13, R14, R15, RDI, RSI, RBX, RBP}" by (simp add: win64_regs_def)
  then have "\<forall>r \<in> {R12, R13, R14, R15, RDI, RSI, RBX, RBP}. m_reg t1 r = m_reg s r" using regs(1) by (simp only: map_eq_conv)
  moreover have "m_mxcsr t1 = m_mxcsr s \<and> m_fcw t1 = m_fcw s \<and>
      (\<forall>n \<in> {6..15}. m_reg t1 (XL n) = m_reg s (XL n) \<and> m_reg t1 (XH n) = m_reg s (XH n))"
    if "m_reg s R9 \<noteq> 0 \<and> m_reg t R9 \<noteq> 0"
    using fpu that by (simp add: win64_fpu_def xmm)
  ultimately show ?thesis using t1(1,3) regs(2,3) by (intro exI [of _ t1]) (simp add: win64_resume_def)
qed

section \<open>New contexts\<close>

definition win64_new_frame :: "uint64 \<Rightarrow> uint64" where
  "win64_new_frame bp = ((bp - 0x28) AND - 16) - 0x128"

lemma win64_new_frame_bounds:
  assumes "unat bp \<ge> 352"
  shows "unat (win64_new_frame bp) mod 16 = 8" "unat (win64_new_frame bp) + 336 \<le> unat bp" "unat bp \<le> unat (win64_new_frame bp) + 351"
proof -
  let ?n = "unat bp - 40"
  have e: "unat (win64_new_frame bp) = ?n - ?n mod 16 - 296"
    using unat_frame [of 40 bp 296] assms by (simp add: win64_new_frame_def)
  obtain q where q: "?n = 16 * q + ?n mod 16" by (metis mult_div_mod_eq)
  have m: "?n mod 16 < 16" by simp
  have "?n \<ge> 312" using assms by simp
  then have q19: "q \<ge> 19" using q m by linarith
  then have "unat (win64_new_frame bp) = 16 * (q - 19) + 8" using e q by linarith
  then show "unat (win64_new_frame bp) mod 16 = 8" by simp
  show "unat (win64_new_frame bp) + 336 \<le> unat bp" "unat bp \<le> unat (win64_new_frame bp) + 351" using e q q19 m assms by linarith+
qed

lemma exec_win64_make_fcontext:
  fixes r :: "reg \<Rightarrow> uint64"
  assumes "aligned (r RSP)" "aligned (win64_new_frame (r RCX))"
  defines "sp \<equiv> win64_new_frame (r RCX)" and "low \<equiv> r RCX - r RDX"
  shows "exec (win64_make_fcontext finish) (mk r m x f z) =
    (let m' = m(sp + 280 := r R8, sp + 208 := r RCX, sp + 200 := low, sp + 192 := low,
       sp + 168 := put_mid f (put_low x (m (sp + 168))), sp + 288 := finish, sp := 1) in
     Some (m' (r RSP), mk (r(RAX := sp, RDX := - r RDX, RCX := 1, RSP := r RSP + 8)) m' x f (r RDX = 0)))"
proof -
  have comm: "numeral k + sp = sp + numeral k" for k by (rule add.commute)
  have al: "aligned sp" using assms(2) by (simp add: sp_def)
  have "(18446744073709551600 :: uint64) = - 16" by (simp add: eq_neg_iff_add_eq_0)
  then have sp: "(r RCX - 40 AND 18446744073709551600) - 296 = sp" by (simp only: sp_def win64_new_frame_def)
  show ?thesis using assms(1) al
    by (simp add: win64_make_fcontext_def run_simps Let_def sp low_def comm fun_upd_twist del: exec.simps)
qed

lemma win64_makes:
  fixes s :: machine
  defines "sp \<equiv> win64_new_frame (m_reg s RCX)" and "low \<equiv> m_reg s RCX - m_reg s RDX"
  assumes "aligned (m_reg s RSP)" "unat (m_reg s RCX) \<ge> 352"
  shows "\<exists>k s1. exec (win64_make_fcontext finish) s = Some (k, s1) \<and> m_reg s1 RAX = sp \<and>
    m_mem s1 = (m_mem s)(sp + 280 := m_reg s R8, sp + 208 := m_reg s RCX, sp + 200 := low, sp + 192 := low,
       sp + 168 := put_mid (m_fcw s) (put_low (m_mxcsr s) (m_mem s (sp + 168))), sp + 288 := finish, sp := 1)"
proof -
  have "aligned (win64_new_frame (m_reg s RCX))" using win64_new_frame_bounds(1) [OF assms(4)] by (rule aligned_mod_16)
  note e = exec_win64_make_fcontext [where r = "m_reg s" and m = "m_mem s" and x = "m_mxcsr s" and f = "m_fcw s" and z = "m_zf s",
    OF assms(3) this, of finish, unfolded mk_surj [symmetric]]
  show ?thesis unfolding e by (simp add: Let_def mk_def sp_def low_def)
qed

text \<open>
  A new context on Windows: the first jump to what \<open>make_fcontext\<close> returned goes to \<open>fn\<close> with the
  argument of the jump in \<open>rcx\<close>, \<open>finish\<close> as the return address and, above it, the 32 bytes a
  called function may use; the stack pointer is as after a call. The thread gets the bounds of
  the new stack.
\<close>

lemma win64_make_fcontext_entry:
  fixes s :: machine
  defines "bp \<equiv> m_reg s RCX" and "low \<equiv> m_reg s RCX - m_reg s RDX"
  assumes "aligned (m_reg s RSP)" "unat bp \<ge> 352" "exec (win64_make_fcontext finish) s = Some (k, s1)"
    and "win64_ok gs t" "m_reg t RDX = m_reg s1 RAX"
    and "\<forall>a \<in> insert (m_reg s1 RAX + 288) (win64_area (m_reg s1 RAX)). m_mem t a = m_mem s1 a"
    and "({m_reg t RCX} \<union> win64_area (win64_own t) \<union> set (teb64 gs)) \<inter> insert (m_reg s1 RAX + 288) (win64_area (m_reg s1 RAX)) = {}"
  shows "\<exists>t1. exec (win64_jump_fcontext gs) t = Some (m_reg s R8, t1) \<and> m_reg t1 RCX = m_reg t R8 \<and>
    m_mem t1 (m_reg t1 RSP) = finish \<and> unat (m_reg t1 RSP) mod 16 = 8 \<and> unat (m_reg t1 RSP) + 8 + 32 \<le> unat bp \<and>
    unat bp \<le> unat (m_reg s1 RAX) + 351 \<and>
    m_mem t1 (gs + 8) = bp \<and> m_mem t1 (gs + 0x10) = low \<and> m_mem t1 (gs + 0x1478) = low"
proof -
  let ?sp = "win64_new_frame bp"
  note b = win64_new_frame_bounds [OF assms(4)]
  have sp: "m_reg s1 RAX = ?sp" and m1: "m_mem s1 = (m_mem s)(?sp + 280 := m_reg s R8, ?sp + 208 := bp, ?sp + 200 := low, ?sp + 192 := low,
       ?sp + 168 := put_mid (m_fcw s) (put_low (m_mxcsr s) (m_mem s (?sp + 168))), ?sp + 288 := finish, ?sp := 1)"
    using win64_makes [OF assms(3) assms(4) [unfolded bp_def], of finish] assms(5) by (auto simp: bp_def low_def)
  have made: "m_mem t ?sp = 1" "m_mem t (?sp + 280) = m_reg s R8" "m_mem t (?sp + 208) = bp" "m_mem t (?sp + 200) = low"
    "m_mem t (?sp + 192) = low" "m_mem t (?sp + 288) = finish"
    using assms(8) unfolding sp win64_area_def win64_cells cells_4 cells_8 by (simp_all add: m1 add.assoc del: cells.simps)
  have n: "m_reg t RDX = ?sp" using assms(7) sp by simp
  have ap: "win64.apart gs t ?sp" using assms(9) unfolding win64.apart_def sp by auto
  have p: "frame_rest (m_mem t) ?sp = ?sp + 184" by (simp add: frame_rest_def made(1))
  obtain t1 where t1: "exec (win64_jump_fcontext gs) t = Some (fst (win64_ctx (m_mem t) ?sp), t1)"
    "win64_view gs t1 = snd (win64_ctx (m_mem t) ?sp)"
    using win64.enters [OF assms(6)] ap unfolding n by blast
  have rcx: "m_reg t1 RCX = m_reg t R8" using win64_jumps [OF assms(6)] t1(1) by auto
  have "m_mem t1 (?sp + 288) = m_mem t (?sp + 288)"
    using assms(9) unfolding sp by (intro win64.keeps [OF assms(6) t1(1)]) auto
  then have fin: "m_mem t1 (?sp + 288) = finish" using made(6) by simp
  have rsp: "m_reg t1 RSP = ?sp + 288" and teb: "map (m_mem t1) (teb64 gs) = map (m_mem t) (cells 8 (?sp + 184) 4)"
    using t1(2) unfolding win64_view_def win64_ctx_def p Let_def by (simp_all add: add.assoc del: cells.simps map_eq_conv)
  have "m_mem t1 (gs + 8) = bp" "m_mem t1 (gs + 0x10) = low" "m_mem t1 (gs + 0x1478) = low"
    using teb unfolding cells_4 by (simp_all add: teb64_def add.assoc made)
  moreover have "exec (win64_jump_fcontext gs) t = Some (m_reg s R8, t1)"
    using t1(1) by (simp add: win64_ctx_def p add.assoc made)
  moreover have "unat bp < 2 ^ 64" using unsigned_less [of bp] by simp
  then have u: "unat (?sp + 288) = unat ?sp + 288" using b(2) by (subst unat_plus_lt) simp_all
  ultimately show ?thesis using b rcx fin mod_mult_self1 [of "unat ?sp" 18 16] unfolding sp by (intro exI [of _ t1]) (simp add: rsp u)
qed

text \<open>
  When the function of a context returns, \<open>finish\<close> does not reach \<open>_exit\<close>: it calls the address
  0x63, wherever \<open>_exit\<close> is.
\<close>

lemma win64_finish_not_exit:
  assumes "aligned (m_reg u RSP)" "exit \<noteq> 0x63"
  shows "\<exists>u'. exec (win64_finish hlt) u = Some (0x63, u') \<and> m_reg u' RCX = 0" "\<nexists>u'. exec (win64_finish hlt) u = Some (exit, u')"
proof -
  have "exec (win64_finish hlt) (mk (m_reg u) (m_mem u) (m_mxcsr u) (m_fcw u) (m_zf u)) =
      Some (0x63, mk ((m_reg u)(RCX := 0, RSP := m_reg u RSP - 8)) ((m_mem u)(m_reg u RSP - 8 := hlt)) (m_mxcsr u) (m_fcw u) True)"
    using assms(1) by (simp add: win64_finish_def run_simps del: exec.simps)
  note e = this [unfolded mk_surj [symmetric]]
  show "\<exists>u'. exec (win64_finish hlt) u = Some (0x63, u') \<and> m_reg u' RCX = 0" unfolding e by (simp add: mk_def)
  show "\<nexists>u'. exec (win64_finish hlt) u = Some (exit, u')" unfolding e using assms(2) by simp
qed

end
