(* ===== verification/Spec2Isabelle.thy ===== *)
theory Spec2Isabelle
  imports Program_Calls Scheduler_Progress Service_Loops Tcp_Socket Smart_Coro
    Libcontext_Arm32 Libcontext_Arm64 Libcontext_Win32 Libcontext_Win64
begin

text \<open>
  \<^bold>\<open>SmartRoutine\<close>, a coroutine runtime in C++ for Linux: user code runs in coroutines that block on
  sockets and timers without blocking a thread.

  \<^bold>\<open>The program.\<close> \<open>SmartRuntime\<close> starts a number of scheduler threads, one epoll thread and one
  timer thread. Each \<open>SmartThread\<close> has a bounded queue of coroutines, takes batches from a list
  shared by all threads, and switches between coroutines with \<open>jump_fcontext\<close>. A coroutine that
  has to wait registers an \<open>EPollItem\<close> with the event loop through a callback that is deferred
  until it has left its stack; the event loop runs the item's callback, which finishes the system
  call and pushes the coroutine back to the shared list. On top of this are blocking calls
  (\<open>smart_read\<close>, \<open>smart_write\<close>, \<open>smart_connect\<close>, \<open>smart_accept\<close>, \<open>smart_read_until\<close>) and
  the classes \<open>TcpSocket\<close> and \<open>Acceptor\<close>.

  \<^bold>\<open>The theories.\<close>
  \<^item> \<open>Smart_Prelude\<close>: result type, machine integers, and the lemmas on words, lists and sequences
    of steps that the components share. \<open>Smart_Flags\<close>: the \<open>gflags\<close> settings. \<open>Error_Code\<close>:
    \<open>common/error_code.h\<close>.
  \<^item> \<open>Bounded_Queue\<close>: \<open>common/bounded_queue.h\<close>, the ring buffer with its slots and its three
    counters, against the interface of a bounded first-in first-out queue (a locale).
  \<^item> \<open>Smart_Runtime\<close>: the shared list of \<open>smart_runtime.cpp\<close> with its scan for startable tasks,
    start-up and shut-down, and \<open>get_task\<close>, \<open>push_task\<close> and the destructor of
    \<open>smart_thread.cpp\<close>.
  \<^item> \<open>Scheduler\<close>: the control flow of \<open>smart_thread.cpp\<close> and \<open>smart_routine.cpp\<close>. A stack is the
    list of places its thread of control returns to; \<open>switch_to\<close>, \<open>yield\<close>, \<open>coro_runner\<close> and the
    main loop move control between stacks; the deferred callback, the flag \<open>need_delete_\<close> and the
    saved contexts are the fields of the code. Using a deleted coroutine, a context that was
    already left or a slot outside the queue is an error value.
    \<open>Scheduler_Safety\<close>: an inductive step relation interleaves the scheduler threads with the
    epoll thread and outside threads; its invariant, by rule induction, gives memory safety and the
    uniqueness of every coroutine for one scheduler thread, and concrete runs show what fails with two
    threads or with a callback still pending. \<open>Scheduler_Progress\<close>: the queue of a thread is served in
    order, and the shared list can starve.
  \<^item> \<open>Buffer_Views\<close>: \<open>common/mutable_buffer.h\<close>, \<open>common/const_buffer.h\<close> and \<open>common/buffer.cpp\<close>,
    pointers with a size into a store in which two views may share bytes.
  \<^item> \<open>Dynamic_Buffer\<close>: \<open>common/dynamic_buffer.cpp\<close> on a heap block of its real size: each
    \<open>memcpy\<close> is checked. Refinement to byte streams within the capacity, and the overflow beyond it.
  \<^item> \<open>Partial_Search\<close>: the two nested loops of \<open>partial_search\<close> with 32-bit counters against the
    first occurrence of the delimiter.
  \<^item> \<open>EPoll\<close>: \<open>epoll_item.cpp\<close> and \<open>smart_epoller.cpp\<close>: items, registration, one round of the
    event loop; \<open>epoll_ctl\<close> and \<open>epoll_wait\<close> are arguments.
  \<^item> \<open>Smart_Io\<close> and \<open>Read_Until\<close>: the blocking calls of \<open>smart_routine.cpp\<close> with the callbacks of
    \<open>internal/smart_routine_impl.cpp\<close>. The answers of the kernel, one per event, are a list; a
    call returns \<open>None\<close> as long as the answers do not complete it.
  \<^item> \<open>Smart_Timer\<close>: \<open>smart_timer.cpp\<close> over the interface of \<open>std::priority_queue\<close> (a locale).
    \<open>Service_Loops\<close>: the epoll thread and the timer thread as a whole, over the answers of all their waits.
  \<^item> \<open>Event_Io\<close>: the composition of \<open>EPoll\<close> with \<open>Smart_Io\<close> and \<open>Read_Until\<close>: any number of coroutines
    wait in blocking calls, the five of them mixed, and the event loop runs their bound callbacks.
    The loop refines a set of waiting calls that move on by their own answers. \<open>Event_Calls\<close>: the
    sequential models of the five calls are what a call does in the loop among any others.
    \<open>Call_Safety\<close>: the callbacks stay in the buffers of a call when the request lies in the buffer and
    the system calls transfer no more than asked for.
  \<^item> \<open>Smart_Program\<close>: the composition of \<open>Scheduler\<close> with \<open>Event_Io\<close>. The deferred callback registers
    the item of a call, a round of the event loop runs the real callbacks, and the coroutines they
    resume go to the task lists. The composed program is memory safe; it is a run of the scheduler and
    a trace of the event loop side by side, so that what is proved of each holds in the program.
    \<open>Program_Calls\<close>: a blocking call in the program is its sequential model, from its begin to its end.
  \<^item> \<open>Context_Switch\<close>: what the scheduler needs of a context switch, as a locale over the registers
    and the memory a frame consists of, with the round trip and the switch among many contexts proved
    in it. \<open>Libcontext\<close> (x86-64, Linux and Apple), \<open>Libcontext_I386\<close> (Linux and Apple),
    \<open>Libcontext_Win32\<close> and \<open>Libcontext_Win64\<close> (Windows, with the fields of the thread information
    block and the list of exception handlers), \<open>Libcontext_Arm32\<close> and \<open>Libcontext_Arm64\<close>: \<open>jump_fcontext\<close>, \<open>make_fcontext\<close> and the code behind
    the label \<open>finish\<close> of \<open>internal/libcontext.cpp\<close> as lists of instructions on small machines;
    each interprets the locale. \<open>Smart_Coro\<close>: the object of \<open>smart_coro.cpp\<close> with its stack.
  \<^item> \<open>Endpoint\<close>: \<open>address.cpp\<close> and \<open>endpoint.cpp\<close> on the bytes of the objects.
    \<open>Tcp_Socket\<close>: \<open>tcp_socket.cpp\<close> and \<open>acceptor.cpp\<close>.

  \<^bold>\<open>Conventions.\<close> A result is \<open>Inr\<close>; an access outside an object, through a null pointer or to a
  deleted object is \<open>Inl\<close> with a value of \<open>ub\<close>, as is, inside the event loop, a callback that does not
  return; a call that still waits after the given answers is
  \<open>None\<close>, as is a misaligned access of a machine. Integers have the width of the source where their
  overflow can be reached. Loops over data are structural recursion; the loop of the destructor of
  \<open>SmartThread\<close> and the loops of \<open>partial_search\<close> are partial functions with \<open>None\<close> for not
  returning, and are proved to return; so is the walk along the exception handlers in
  \<open>Libcontext_Win32\<close>, which returns exactly on a list with an end. No definition needs fuel. The loops that run for ever
  (\<open>main_loop\<close>, \<open>eventloop\<close>, \<open>SmartTimer::run\<close>) are modelled by one round, which the step
  relations repeat; \<open>Service_Loops\<close> repeats the rounds of the last two over a list of answers.

  \<^bold>\<open>How the parts fit.\<close> \<open>Scheduler\<close> sees a coroutine in a blocking call as an element of a list, which an
  event removes; \<open>Event_Io\<close> sees coroutines as numbers which the loop hands back. \<open>Smart_Program\<close> joins
  them: the waiting coroutines are those whose item is registered with the kernel. The scheduler
  sees a context as the place where a stack continues and when it is stale; \<open>Context_Switch\<close> shows
  that the stored frames continue there. The composition is for one scheduler thread, as the code
  is not safe with several.

  \<^bold>\<open>Not modelled.\<close> Data races inside one critical section:
  what the code does under a mutex is one step. A round of the event loop is one step of the
  program: the races of a callback with the coroutine it has just resumed are the subject of \<open>handle_events_use_after_free\<close> only. Logging, parsing of the settings,
  failure of \<open>new\<close>. \<open>resolver.h\<close> and \<open>resolver.cpp\<close> are empty.
\<close>

section \<open>Contexts on all processors\<close>



end
